(* ===== verification/Prelude.thy ===== *)
theory Prelude
  imports Complex_Main "HOL-Library.Word"
begin

text \<open>
  The base of the development: names for the machine types of the engine, the collections of
  rewrite rules the component theories fill, and the generic facts on words, lists and maps that
  several components use.

  \<^item> \<open>u8\<close>, \<open>u32\<close>, \<open>u64\<close> are the fixed-width unsigned types of the source; \<open>std::size_t\<close> is
    \<open>u64\<close> (the engine only targets 64-bit Linux). Arithmetic on them wraps, as in C++.
  \<^item> \<open>flt\<close> and \<open>dbl\<close> stand for \<open>float\<close> and \<open>double\<close>. Both are the real numbers: every value is
    finite and every operation exact. Comparisons, negation, stores and copies of finite values
    are exact in the machine too; sums, products and quotients are rounded there and not here.
  \<^item> \<open>i64\<close> stands for the signed 64-bit clock values and exchange identifiers; the code only
    compares, copies and subtracts them far from the limits of the type.
\<close>

unbundle bit_operations_syntax

type_synonym u8 = "8 word"
type_synonym u32 = "32 word"
type_synonym u64 = "64 word"
type_synonym i64 = int
type_synonym flt = real
type_synonym dbl = real

named_theorems holo_simps \<open>unfolding rules of the small accessors and constructors\<close>
named_theorems holo_inv \<open>preservation of component invariants\<close>

section \<open>Words and powers of two\<close>

definition is_pow2 :: "u64 \<Rightarrow> bool" where
  "is_pow2 a \<longleftrightarrow> (\<exists>k < 64. a = 2 ^ k)"

lemma is_pow2I: "k < 64 \<Longrightarrow> is_pow2 (2 ^ k)"
  by (auto simp: is_pow2_def)

lemma unat_pow2: "k < 64 \<Longrightarrow> unat ((2 :: u64) ^ k) = 2 ^ k"
  using unsigned_push_bit_eq [of k "1 :: u64", where ?'a = nat]
  by (simp add: push_bit_eq_mult take_bit_nat_eq_self)

lemma is_pow2_cases:
  assumes "is_pow2 a"
  obtains k where "k < 64" and "a = 2 ^ k" and "unat a = 2 ^ k"
  using assms unat_pow2 by (auto simp: is_pow2_def)

lemma mask_pow2: "(2 :: u64) ^ k - 1 = mask k"
  by (simp add: mask_eq_exp_minus_1)

lemma unat_and_mask: "unat (x AND mask k :: u64) = unat x mod 2 ^ k"
  by (simp add: take_bit_eq_mask [symmetric] unsigned_take_bit_eq take_bit_eq_mod [where ?'a = nat])

lemma and_not_mask_add: "(x AND NOT (mask k)) + (x AND mask k) = (x :: u64)"
proof -
  have "(x AND NOT (mask k)) AND (x AND mask k) = 0"
    by (rule bit_word_eqI) (auto simp: bit_simps)
  then have "(x AND NOT (mask k)) + (x AND mask k) = (x AND NOT (mask k)) OR (x AND mask k)"
    by (rule disjunctive_add_eq_or)
  also have "\<dots> = x"
    by (rule bit_word_eqI) (auto simp: bit_simps)
  finally show ?thesis .
qed

lemma unat_and_not_mask: "unat (x AND NOT (mask k) :: u64) = unat x - unat x mod 2 ^ k"
proof -
  let ?hi = "x AND NOT (mask k)" and ?lo = "x AND mask k"
  have lo: "unat ?lo = unat x mod 2 ^ k" by (rule unat_and_mask)
  have "?hi = x - ?lo" using and_not_mask_add [of x k] by (simp add: algebra_simps)
  moreover have "?lo \<le> x" by (simp add: word_le_nat_alt lo)
  ultimately have "unat ?hi = unat x - unat ?lo" by (simp add: unat_sub)
  then show ?thesis by (simp add: lo)
qed

lemma unat_add_no_wrap: "unat x + unat y < 2 ^ 64 \<Longrightarrow> unat (x + y :: u64) = unat x + unat y"
  using unat_add_lem [of x y] by simp

lemma unat_mult_no_wrap: "unat x * unat y < 2 ^ 64 \<Longrightarrow> unat (x * y :: u64) = unat x * unat y"
  using unat_mult_lem [of x y] by simp

text \<open>Rounding a natural number up to a multiple.\<close>

lemma round_up_bounds:
  fixes v a :: nat
  assumes "0 < a"
  shows "v \<le> (v + (a - 1)) div a * a" and "(v + (a - 1)) div a * a < v + a"
proof -
  have "(v + (a - 1)) div a * a + (v + (a - 1)) mod a = v + (a - 1)" by simp
  moreover have "(v + (a - 1)) mod a < a" using assms by simp
  ultimately show "v \<le> (v + (a - 1)) div a * a" and "(v + (a - 1)) div a * a < v + a"
    using assms by linarith+
qed

lemma round_up_least:
  fixes v a m :: nat
  assumes "0 < a" and "a dvd m" and "v \<le> m"
  shows "(v + (a - 1)) div a * a \<le> m"
proof -
  obtain q where q: "m = q * a" using assms(2) by (metis dvd_div_mult_self)
  have "v + (a - 1) < Suc q * a" using assms(1,3) q by simp
  then have "(v + (a - 1)) div a < Suc q" by (rule less_mult_imp_div_less)
  then have "(v + (a - 1)) div a \<le> q" by (rule less_Suc_eq_le [THEN iffD1])
  then show ?thesis unfolding q by (rule mult_le_mono1)
qed

lemma unat_lt_64: "unat (x :: u64) < 2 ^ 64"
  using unsigned_less [of x, where ?'a = nat] by simp


section \<open>Decimal numerals\<close>

text \<open>\<open>std::to_string\<close> of an unsigned number, and the value of a string of digits.\<close>

definition digit :: "nat \<Rightarrow> char" where
  "digit d = char_of (48 + d)"

fun to_string :: "nat \<Rightarrow> string" where
  "to_string n = (if n < 10 then [digit n] else to_string (n div 10) @ [digit (n mod 10)])"

declare to_string.simps [simp del]

definition digit_val :: "char \<Rightarrow> nat" where
  "digit_val c = of_char c - 48"

definition decimal_val :: "string \<Rightarrow> nat" where
  "decimal_val s = foldl (\<lambda>a c. a * 10 + digit_val c) 0 s"

definition is_digit :: "char \<Rightarrow> bool" where
  "is_digit c \<longleftrightarrow> 48 \<le> (of_char c :: nat) \<and> (of_char c :: nat) \<le> 57"

lemma of_char_digit [simp]: "d < 10 \<Longrightarrow> (of_char (digit d) :: nat) = 48 + d"
  by (simp add: digit_def)

lemma decimal_val_to_string [simp]: "decimal_val (to_string n) = n"
proof (induction n rule: to_string.induct)
  case (1 n)
  then show ?case
    by (subst to_string.simps) (simp add: decimal_val_def digit_val_def)
qed

lemma to_string_inj [simp]: "to_string m = to_string n \<longleftrightarrow> m = n"
  by (metis decimal_val_to_string)

lemma to_string_digits: "\<forall>c \<in> set (to_string n). is_digit c"
proof (induction n rule: to_string.induct)
  case (1 n)
  then show ?case by (subst to_string.simps) (auto simp: is_digit_def)
qed

lemma to_string_nonempty: "to_string n \<noteq> []"
  by (subst to_string.simps) simp

lemma to_string_length: "n < 10 ^ k \<Longrightarrow> 0 < k \<Longrightarrow> length (to_string n) \<le> k"
proof (induction n arbitrary: k rule: to_string.induct)
  case (1 n)
  show ?case
  proof (cases "n < 10")
    case True
    with 1 show ?thesis by (subst to_string.simps) simp
  next
    case False
    obtain j where j: "k = Suc j" using 1(3) by (cases k) auto
    moreover from this have "0 < j" using 1(2) False by (cases j) auto
    ultimately have j: "k = Suc j" "0 < j" by blast+
    have "n div 10 < 10 ^ j" using 1(2) j(1) by (simp add: less_mult_imp_div_less mult.commute)
    from 1(1) [OF False this j(2)] False j show ?thesis by (subst to_string.simps) simp
  qed
qed

text \<open>The value of a string of digits after the decimal point.\<close>

fun frac_val :: "string \<Rightarrow> real" where
  "frac_val [] = 0"
| "frac_val (c # cs) = (real (digit_val c) + frac_val cs) / 10"

lemma frac_val_decimal: "frac_val ds = real (decimal_val ds) / 10 ^ length ds"
proof -
  have shift: "foldl (\<lambda>a c. a * 10 + digit_val c) a ds = a * 10 ^ length ds + decimal_val ds" for a ds
  proof (induction ds arbitrary: a)
    case (Cons c ds)
    from Cons.IH [of "a * 10 + digit_val c"] Cons.IH [of "digit_val c"] show ?case
      by (simp add: decimal_val_def algebra_simps)
  qed (simp add: decimal_val_def)
  show ?thesis
  proof (induction ds)
    case (Cons c ds)
    have "decimal_val (c # ds) = digit_val c * 10 ^ length ds + decimal_val ds"
      using shift [of "digit_val c" ds] by (simp add: decimal_val_def)
    with Cons.IH show ?case by (simp add: field_simps)
  qed (simp add: decimal_val_def)
qed

lemma decimal_val_zeros: "decimal_val (replicate k (CHR ''0'') @ t) = decimal_val t"
  by (induction k) (simp_all add: decimal_val_def digit_val_def)

section \<open>Runs of a step relation\<close>

text \<open>A list of states in which each one steps to the next is a run.\<close>

lemma rtranclp_path: "successively R (x # xs) \<Longrightarrow> R\<^sup>*\<^sup>* x (last (x # xs))"
  by (induction xs arbitrary: x) (auto intro: converse_rtranclp_into_rtranclp)

section \<open>Machines and their specifications\<close>

text \<open>
  A machine whose every operation keeps an invariant and acts on an abstraction of the state as a
  specified operation does. Runs of operations are folds.
\<close>

locale refined_machine =
  fixes step :: "'op \<Rightarrow> 's \<Rightarrow> 's"
    and spec :: "'op \<Rightarrow> 'm \<Rightarrow> 'm"
    and inv :: "'s \<Rightarrow> bool"
    and abstr :: "'s \<Rightarrow> 'm"
  assumes inv_step: "inv s \<Longrightarrow> inv (step op s)"
    and abstr_step: "inv s \<Longrightarrow> abstr (step op s) = spec op (abstr s)"
begin

lemma run_inv: "inv s \<Longrightarrow> inv (fold step ops s)"
  by (induction ops arbitrary: s) (simp_all add: inv_step)

lemma run_refines: "inv s \<Longrightarrow> abstr (fold step ops s) = fold spec ops (abstr s)"
  by (induction ops arbitrary: s) (simp_all add: inv_step abstr_step)

end

text \<open>
  A keyed store: every operation acts on the entry of one key. The entry a run leaves at a key is
  then determined by the operations on that key alone.
\<close>

locale keyed_store =
  fixes step :: "'op \<Rightarrow> 's \<Rightarrow> 's"
    and key :: "'op \<Rightarrow> 'k"
    and effect :: "'op \<Rightarrow> 'r option \<Rightarrow> 'r option"
    and inv :: "'s \<Rightarrow> bool"
    and lookup :: "'s \<Rightarrow> 'k \<Rightarrow> 'r option"
  assumes inv_step: "inv s \<Longrightarrow> inv (step op s)"
    and lookup_step: "inv s \<Longrightarrow>
      lookup (step op s) = (lookup s)(key op := effect op (lookup s (key op)))"

sublocale keyed_store \<subseteq> map_view: refined_machine step
    "\<lambda>op m. m(key op := effect op (m (key op)))" inv lookup
  by unfold_locales (simp_all add: inv_step lookup_step)

context keyed_store
begin

lemma run_lookup:
  "inv s \<Longrightarrow> lookup (fold step ops s) k = fold effect (filter (\<lambda>op. key op = k) ops) (lookup s k)"
  by (induction ops arbitrary: s) (simp_all add: inv_step lookup_step)

lemma run_frame:
  "inv s \<Longrightarrow> \<forall>op \<in> set ops. key op \<noteq> k \<Longrightarrow> lookup (fold step ops s) k = lookup s k"
  by (simp add: run_lookup filter_False)

end

end
