(* ===== verification/Oms_Core.thy ===== *)
theory Oms_Core
  imports Prelude "HOL-Library.AList"
begin

text \<open>
  The order store of \<open>engine/net/oms_core.hpp\<close>. \<open>OMSCore\<close> keeps a vector of order records that
  never shrinks, a hash index from the FNV-1a key of a client order id to a slot of that vector, and
  a stack of free slots. Its members are the record \<open>oms\<close>; the hash index is an association list
  with distinct keys, so its iteration order is one of the orders the code may use. Every public
  operation runs under the mutex and is one function here; the call of the update callback, made
  after the mutex is released, is the list of records the operation returns. Wall-clock and
  monotonic readings are arguments, and the warnings written to the error stream are left out.

  The interface is the locale \<open>order_store\<close>: a partial map from keys to records.
\<close>

section \<open>Model\<close>

datatype OrderStatus = PendingNew | Open | Partial | Filled | Canceled | Rejected

definition is_terminal :: "OrderStatus \<Rightarrow> bool" where
  "is_terminal s \<longleftrightarrow> s = Filled \<or> s = Canceled \<or> s = Rejected"

definition is_live :: "OrderStatus \<Rightarrow> bool" where
  "is_live s \<longleftrightarrow> s = PendingNew \<or> s = Open \<or> s = Partial"

datatype Side = Buy | Sell

definition opposite :: "Side \<Rightarrow> Side" where
  "opposite s = (if s = Buy then Sell else Buy)"

definition signed_dir :: "Side \<Rightarrow> dbl" where
  "signed_dir s = (if s = Buy then 1 else - 1)"

text \<open>
  Fixed-width, zero-filled character buffers. \<open>view\<close> reads up to the first NUL.
\<close>

abbreviation NUL :: char where "NUL \<equiv> CHR 0x00"

definition make_buf :: "nat \<Rightarrow> string \<Rightarrow> string" where
  "make_buf cap sv = (let n = min (length sv) (cap - 1) in take n sv @ replicate (cap - n) NUL)"

definition make_symbol :: "string \<Rightarrow> string" where
  "make_symbol sv = make_buf 16 sv"

definition make_client_id :: "string \<Rightarrow> string" where
  "make_client_id sv = make_buf 40 sv"

definition view :: "string \<Rightarrow> string" where
  "view b = takeWhile (\<lambda>c. c \<noteq> NUL) b"

definition fnv_step :: "u64 \<Rightarrow> char \<Rightarrow> u64" where
  "fnv_step h c = (h XOR of_char c) * 1099511628211"

definition fnv1a64 :: "string \<Rightarrow> u64" where
  "fnv1a64 sv = foldl fnv_step 1469598103934665603 sv"

record OrderRecord =
  or_client_order_id :: string
  or_symbol :: string
  or_side :: Side
  or_status :: OrderStatus
  or_price :: dbl
  or_qty :: dbl
  or_filled_qty :: dbl
  or_avg_fill_price :: dbl
  or_cumulative_commission :: dbl
  or_exchange_order_id :: i64
  or_created_ns :: i64
  or_updated_ns :: i64
  or_created_mono_ns :: i64

definition empty_record :: OrderRecord where
  "empty_record = \<lparr>or_client_order_id = replicate 40 NUL, or_symbol = replicate 16 NUL,
     or_side = Buy, or_status = PendingNew, or_price = 0, or_qty = 0, or_filled_qty = 0,
     or_avg_fill_price = 0, or_cumulative_commission = 0, or_exchange_order_id = 0,
     or_created_ns = 0, or_updated_ns = 0, or_created_mono_ns = 0\<rparr>"

definition remaining_qty :: "OrderRecord \<Rightarrow> dbl" where
  "remaining_qty rec = or_qty rec - or_filled_qty rec"

record oms =
  oms_slots :: "OrderRecord list"
  oms_index :: "(u64 \<times> nat) list"
  oms_free :: "nat list"
  oms_on_update :: bool

definition OMSCore :: oms where
  "OMSCore = \<lparr>oms_slots = [], oms_index = [], oms_free = [], oms_on_update = False\<rparr>"

definition set_update_callback :: "bool \<Rightarrow> oms \<Rightarrow> oms" where
  "set_update_callback cb s = s\<lparr>oms_on_update := cb\<rparr>"

definition fire_update :: "oms \<Rightarrow> OrderRecord \<Rightarrow> OrderRecord list" where
  "fire_update s rec = (if oms_on_update s then [rec] else [])"

definition alloc_slot_locked :: "oms \<Rightarrow> nat \<times> oms" where
  "alloc_slot_locked s =
     (if oms_free s \<noteq> [] then (last (oms_free s), s\<lparr>oms_free := butlast (oms_free s)\<rparr>)
      else (length (oms_slots s), s\<lparr>oms_slots := oms_slots s @ [empty_record]\<rparr>))"

definition new_record :: "i64 \<Rightarrow> i64 \<Rightarrow> string \<Rightarrow> string \<Rightarrow> Side \<Rightarrow> dbl \<Rightarrow> dbl \<Rightarrow> OrderRecord" where
  "new_record now steady client_order_id symbol side price qty =
     empty_record\<lparr>or_client_order_id := make_client_id client_order_id,
       or_symbol := make_symbol symbol, or_side := side, or_status := PendingNew,
       or_price := price, or_qty := qty, or_created_ns := now, or_updated_ns := now,
       or_created_mono_ns := steady\<rparr>"

definition register_new_order ::
    "i64 \<Rightarrow> i64 \<Rightarrow> string \<Rightarrow> string \<Rightarrow> Side \<Rightarrow> dbl \<Rightarrow> dbl \<Rightarrow> oms
     \<Rightarrow> u64 \<times> OrderRecord list \<times> oms" where
  "register_new_order now steady client_order_id symbol side price qty s =
     (let rec = new_record now steady client_order_id symbol side price qty;
          key = fnv1a64 client_order_id
      in case alloc_slot_locked s of (slot, s1) \<Rightarrow>
           let s2 = s1\<lparr>oms_slots := (oms_slots s1)[slot := rec],
                       oms_index := AList.update key slot (oms_index s1)\<rparr>
           in (key, fire_update s2 (oms_slots s2 ! slot), s2))"

definition update_record ::
    "OrderStatus \<Rightarrow> dbl \<Rightarrow> dbl \<Rightarrow> i64 \<Rightarrow> i64 \<Rightarrow> dbl \<Rightarrow> OrderRecord \<Rightarrow> OrderRecord" where
  "update_record new_status cum last_px exch_id event_ns commission rec =
     (let rec1 =
            (if cum > or_filled_qty rec \<and> last_px > 0 then
               (let prev_notional = or_avg_fill_price rec * or_filled_qty rec;
                    delta_qty = cum - or_filled_qty rec
                in rec\<lparr>or_avg_fill_price := (prev_notional + last_px * delta_qty) / cum,
                       or_filled_qty := cum\<rparr>)
             else if cum > or_filled_qty rec then rec\<lparr>or_filled_qty := cum\<rparr>
             else rec);
          rec2 =
            (if commission > 0
             then rec1\<lparr>or_cumulative_commission := or_cumulative_commission rec1 + commission\<rparr>
             else rec1)
      in rec2\<lparr>or_status := new_status, or_exchange_order_id := exch_id, or_updated_ns := event_ns\<rparr>)"

definition apply_update ::
    "u64 \<Rightarrow> OrderStatus \<Rightarrow> dbl \<Rightarrow> dbl \<Rightarrow> i64 \<Rightarrow> i64 \<Rightarrow> dbl \<Rightarrow> oms
     \<Rightarrow> bool \<times> OrderRecord list \<times> oms" where
  "apply_update key new_status cum last_px exch_id event_ns commission s =
     (case map_of (oms_index s) key of
        None \<Rightarrow> (False, [], s)
      | Some slot \<Rightarrow>
          let rec = update_record new_status cum last_px exch_id event_ns commission
                      (oms_slots s ! slot);
              s' = s\<lparr>oms_slots := (oms_slots s)[slot := rec]\<rparr>
          in (True, fire_update s' rec, s'))"

definition oms_get :: "oms \<Rightarrow> u64 \<Rightarrow> OrderRecord option" where
  "oms_get s key =
     (case map_of (oms_index s) key of None \<Rightarrow> None | Some slot \<Rightarrow> Some (oms_slots s ! slot))"

definition oms_get_by_id :: "oms \<Rightarrow> string \<Rightarrow> OrderRecord option" where
  "oms_get_by_id s client_order_id = oms_get s (fnv1a64 client_order_id)"

definition get_stale_orders :: "i64 \<Rightarrow> i64 \<Rightarrow> oms \<Rightarrow> OrderRecord list" where
  "get_stale_orders steady max_age_ns s =
     (let cutoff = steady - max_age_ns
      in filter (\<lambda>rec. is_live (or_status rec) \<and> or_created_mono_ns rec < cutoff)
           (map (\<lambda>(key, slot). oms_slots s ! slot) (oms_index s)))"

definition release :: "u64 \<Rightarrow> oms \<Rightarrow> oms" where
  "release key s =
     (case map_of (oms_index s) key of
        None \<Rightarrow> s
      | Some slot \<Rightarrow> s\<lparr>oms_free := oms_free s @ [slot], oms_index := AList.delete key (oms_index s)\<rparr>)"

definition live_order_count :: "oms \<Rightarrow> nat" where
  "live_order_count s = length (oms_index s)"

section \<open>Buffers and keys\<close>

lemma length_make_buf: "0 < cap \<Longrightarrow> length (make_buf cap sv) = cap"
  by (simp add: make_buf_def Let_def)

lemma takeWhile_replicate_NUL: "takeWhile (\<lambda>c. c \<noteq> x) (xs @ replicate n x) = takeWhile (\<lambda>c. c \<noteq> x) xs"
  by (induction xs) (cases n, auto)

lemma view_make_buf:
  assumes "NUL \<notin> set sv"
  shows "view (make_buf cap sv) = take (cap - 1) sv"
proof -
  have "takeWhile (\<lambda>c. c \<noteq> NUL) (take n sv) = take n sv" for n
    using assms by (auto simp: takeWhile_eq_all_conv dest: in_set_takeD)
  then show ?thesis
    using take_all [of sv "cap - 1"]
    by (simp only: view_def make_buf_def Let_def takeWhile_replicate_NUL) (simp add: min_def)
qed

lemma fnv_prime_inverse: "(1099511628211 :: u64) * 14886173955864302971 = 1"
  by simp


lemma mult_unit_cancel:
  assumes "(p :: u64) * q = 1"
  shows "a * p = b * p \<longleftrightarrow> a = b"
proof
  assume "a * p = b * p"
  then have "a * p * q = b * p * q" by (rule arg_cong)
  then show "a = b" by (simp only: mult.assoc assms mult_1_right)
qed (rule arg_cong)

lemma xor_cancel_right: "(b :: u64) XOR a = c XOR a \<longleftrightarrow> b = c"
proof
  assume "b XOR a = c XOR a"
  then have "(b XOR a) XOR a = (c XOR a) XOR a" by (rule arg_cong)
  then show "b = c" by (simp add: xor.assoc)
qed (rule arg_cong)

lemma xor_cancel_left: "(a :: u64) XOR b = a XOR c \<longleftrightarrow> b = c"
  using xor_cancel_right [of b a c] by (simp only: xor.commute)

lemma of_char_u64_inj: "(of_char c :: u64) = of_char d \<longleftrightarrow> c = d"
proof
  assume "(of_char c :: u64) = of_char d"
  then have "(of_nat (of_char c) :: u64) = of_nat (of_char d)"
    by (simp only: of_nat_of_char)
  then have "take_bit 64 (of_char c :: nat) = take_bit 64 (of_char d)"
    by (simp add: word_of_nat_eq_iff)
  moreover have "take_bit 64 (of_char e :: nat) = of_char e" for e
    using less_trans [OF nat_of_char_less_256 [of e], of "2 ^ 64"]
    by (simp add: take_bit_nat_eq_self_iff)
  ultimately show "c = d" by simp
qed simp

lemma fnv_step_inj: "fnv_step g c = fnv_step h d \<longleftrightarrow> g XOR of_char c = h XOR of_char d"
  unfolding fnv_step_def by (rule mult_unit_cancel [OF fnv_prime_inverse])

lemma foldl_fnv_inj: "foldl fnv_step g s = foldl fnv_step h s \<longleftrightarrow> g = h"
  by (induction s arbitrary: g h) (simp_all add: fnv_step_inj xor_cancel_right)


section \<open>Slots, index and free list\<close>

text \<open>
  Every indexed or free slot lies inside the vector, and no slot is indexed twice, free twice, or
  both. \<open>oms_full\<close> adds that no slot is lost.
\<close>

definition oms_inv :: "oms \<Rightarrow> bool" where
  "oms_inv s \<longleftrightarrow> distinct (map fst (oms_index s)) \<and> distinct (map snd (oms_index s)) \<and>
     distinct (oms_free s) \<and> set (map snd (oms_index s)) \<inter> set (oms_free s) = {} \<and>
     set (map snd (oms_index s)) \<union> set (oms_free s) \<subseteq> {..<length (oms_slots s)}"

definition oms_full :: "oms \<Rightarrow> bool" where
  "oms_full s \<longleftrightarrow> oms_inv s \<and> length (oms_slots s) = length (oms_index s) + length (oms_free s)"

lemma set_snd_update: "set (map snd (AList.update k v al)) \<subseteq> insert v (set (map snd al))"
  by (induction al) auto

lemma distinct_snd_update:
  "distinct (map snd al) \<Longrightarrow> v \<notin> set (map snd al) \<Longrightarrow> distinct (map snd (AList.update k v al))"
proof (induction al)
  case (Cons x al)
  then show ?case using set_snd_update [of k v al] by (cases x) auto
qed simp

lemma length_update_fresh: "k \<notin> fst ` set al \<Longrightarrow> length (AList.update k v al) = Suc (length al)"
  by (induction al) auto

lemma snd_in_index: "map_of al k = Some i \<Longrightarrow> i \<in> set (map snd al)"
  by (force dest: map_of_SomeD)

lemma alloc_slot_fresh:
  assumes "oms_inv s" and "alloc_slot_locked s = (slot, s')"
  shows "slot < length (oms_slots s')" "slot \<notin> set (map snd (oms_index s))"
    and "slot \<notin> set (oms_free s')" "distinct (oms_free s')" "set (oms_free s') \<subseteq> set (oms_free s)"
    and "oms_index s' = oms_index s" "oms_on_update s' = oms_on_update s"
    and "length (oms_slots s) \<le> length (oms_slots s')"
    and "\<And>i. i \<in> set (map snd (oms_index s)) \<Longrightarrow> oms_slots s' ! i = oms_slots s ! i"
proof -
  have "last xs \<notin> set (butlast xs)" if "distinct xs" "xs \<noteq> []" for xs :: "nat list"
    using that by (metis append_butlast_last_id distinct_append disjoint_insert(1) list.simps(15))
  moreover have "(a, last (oms_free s)) \<notin> set (oms_index s)" if "oms_free s \<noteq> []" for a
    using assms(1) last_in_set [OF that] by (force simp: oms_inv_def)
  moreover have "last (oms_free s) < length (oms_slots s)" if "oms_free s \<noteq> []"
    using assms(1) last_in_set [OF that] by (auto simp: oms_inv_def)
  ultimately show "slot < length (oms_slots s')" "slot \<notin> set (map snd (oms_index s))"
    "slot \<notin> set (oms_free s')" "distinct (oms_free s')" "set (oms_free s') \<subseteq> set (oms_free s)"
    "oms_index s' = oms_index s" "oms_on_update s' = oms_on_update s"
    "length (oms_slots s) \<le> length (oms_slots s')"
    "\<And>i. i \<in> set (map snd (oms_index s)) \<Longrightarrow> oms_slots s' ! i = oms_slots s ! i"
    using assms
    by (auto simp: alloc_slot_locked_def oms_inv_def nth_append distinct_butlast
        dest: in_set_butlastD split: if_splits)
qed

lemma register_store:
  assumes inv: "oms_inv s"
    and reg: "register_new_order now steady cid sy side px qty s = (key, fired, s')"
  shows "oms_inv s'" "key = fnv1a64 cid"
    and "oms_get s' = (oms_get s)(fnv1a64 cid \<mapsto> new_record now steady cid sy side px qty)"
    and "fired = (if oms_on_update s then [new_record now steady cid sy side px qty] else [])"
proof -
  obtain slot s1 where al: "alloc_slot_locked s = (slot, s1)" by fastforce
  note fr = alloc_slot_fresh [OF inv al]
  let ?rec = "new_record now steady cid sy side px qty"
  have s': "s' = s1\<lparr>oms_slots := (oms_slots s1)[slot := ?rec],
      oms_index := AList.update (fnv1a64 cid) slot (oms_index s)\<rparr>"
    and key: "key = fnv1a64 cid" and "fired = fire_update s' ?rec"
    using reg fr(1,6) by (auto simp: register_new_order_def al Let_def)
  then show "fired = (if oms_on_update s then [?rec] else [])"
    using fr(7) by (simp add: fire_update_def s')
  show "key = fnv1a64 cid" by (rule key)
  have ds: "distinct (map snd (oms_index s))" "distinct (map fst (oms_index s))"
    "set (map snd (oms_index s)) \<inter> set (oms_free s) = {}"
    "set (map snd (oms_index s)) \<union> set (oms_free s) \<subseteq> {..<length (oms_slots s)}"
    using inv unfolding oms_inv_def by blast+
  let ?ix = "AList.update (fnv1a64 cid) slot (oms_index s)"
  have ix: "set (map snd ?ix) \<subseteq> insert slot (set (map snd (oms_index s)))" by (rule set_snd_update)
  have "set (map snd ?ix) \<inter> set (oms_free s1) = {}"
    using ix fr(3,5) ds(3) by blast
  moreover have "{..<length (oms_slots s)} \<subseteq> {..<length (oms_slots s1)}" using fr(8) by auto
  then have "set (map snd ?ix) \<union> set (oms_free s1) \<subseteq> {..<length (oms_slots s1)}"
    using fr(5) ix ds(4) fr(1)
    by (simp only: Un_subset_iff) (meson insert_subset lessThan_iff subset_trans)
  moreover have "oms_index s' = ?ix" "oms_free s' = oms_free s1"
    "length (oms_slots s') = length (oms_slots s1)" by (simp_all add: s')
  ultimately show "oms_inv s'"
    using fr(4) distinct_snd_update [OF ds(1) fr(2)] distinct_update [OF ds(2)]
    by (simp only: oms_inv_def simp_thms)
  have same: "oms_slots s' ! i = oms_slots s ! i" if "map_of (oms_index s) k = Some i" for k i
    using snd_in_index [OF that] fr(2) fr(9) [of i] by (cases "i = slot") (simp_all add: s')
  show "oms_get s' = (oms_get s)(fnv1a64 cid \<mapsto> ?rec)"
  proof
    fix k
    have ix: "map_of (oms_index s') = (map_of (oms_index s))(fnv1a64 cid \<mapsto> slot)"
      by (simp add: s' update_conv')
    have "oms_slots s' ! slot = ?rec" using fr(1) by (simp add: s')
    then show "oms_get s' k = ((oms_get s)(fnv1a64 cid \<mapsto> ?rec)) k"
      by (cases "k = fnv1a64 cid"; cases "map_of (oms_index s) k") (simp_all add: oms_get_def ix same)
  qed
qed

lemma apply_update_store:
  assumes inv: "oms_inv s"
    and upd: "apply_update key st cum px ex ev com s = (ok, fired, s')"
  shows "oms_inv s'" "ok \<longleftrightarrow> oms_get s key \<noteq> None"
    and "oms_get s' = (oms_get s)(key := map_option (update_record st cum px ex ev com) (oms_get s key))"
    and "fired = (if ok \<and> oms_on_update s then [the (oms_get s' key)] else [])"
proof -
  have neq: "i \<noteq> j" if "map_of (oms_index s) k = Some i" "map_of (oms_index s) k' = Some j" "k \<noteq> k'"
    for k k' i j
  proof -
    have "inj_on snd (set (oms_index s))" using inv by (simp add: oms_inv_def distinct_map)
    from inj_onD [OF this, of "(k, i)" "(k', j)"] show ?thesis
      using that by (auto dest!: map_of_SomeD)
  qed
  have lt: "i < length (oms_slots s)" if "map_of (oms_index s) k = Some i" for i k
    using snd_in_index [OF that] inv by (auto simp: oms_inv_def)
  show "oms_inv s'"
    using inv upd by (cases "map_of (oms_index s) key")
      (auto simp: apply_update_def oms_inv_def Let_def simp del: set_map)
  show "ok \<longleftrightarrow> oms_get s key \<noteq> None"
    "fired = (if ok \<and> oms_on_update s then [the (oms_get s' key)] else [])"
    using upd lt by (auto simp: apply_update_def oms_get_def fire_update_def
        Let_def split: option.splits)
  show "oms_get s' = (oms_get s)(key := map_option (update_record st cum px ex ev com) (oms_get s key))"
  proof
    fix k
    show "oms_get s' k =
        ((oms_get s)(key := map_option (update_record st cum px ex ev com) (oms_get s key))) k"
      using upd neq [of key _ k] lt
      by (auto simp: apply_update_def oms_get_def Let_def split: option.splits)
  qed
qed

lemma apply_update_unknown:
  "oms_get s key = None \<Longrightarrow> apply_update key st cum px ex ev com s = (False, [], s)"
  by (simp add: apply_update_def oms_get_def split: option.splits)

lemma release_store:
  assumes inv: "oms_inv s"
  shows "oms_inv (release key s)" "oms_get (release key s) = (oms_get s)(key := None)"
proof -
  show "oms_get (release key s) = (oms_get s)(key := None)"
    by (rule ext) (auto simp: release_def oms_get_def delete_conv' split: option.splits)
  show "oms_inv (release key s)"
  proof (cases "map_of (oms_index s) key")
    case None
    then show ?thesis using inv by (simp add: release_def)
  next
    case (Some i)
    let ?ix = "AList.delete key (oms_index s)"
    have inj: "inj_on snd (set (oms_index s))" using inv by (simp add: oms_inv_def distinct_map)
    have "i \<notin> set (map snd ?ix)"
    proof
      assume "i \<in> set (map snd ?ix)"
      then obtain k where "(k, i) \<in> set (oms_index s)" "k \<noteq> key" by (auto simp: AList.delete_eq)
      with inj_onD [OF inj, of "(k, i)" "(key, i)"] map_of_SomeD [OF Some] show False by auto
    qed
    moreover have "distinct (map snd ?ix)" "distinct (map fst ?ix)"
      using inv by (simp_all add: oms_inv_def AList.delete_eq distinct_map_filter)
    moreover have "set (map snd ?ix) \<subseteq> set (map snd (oms_index s))"
      by (auto simp: AList.delete_eq)
    moreover note snd_in_index [OF Some]
    moreover have "release key s = s\<lparr>oms_free := oms_free s @ [i], oms_index := ?ix\<rparr>"
      by (simp add: release_def Some)
    ultimately show ?thesis
      using inv by (simp only: oms_inv_def) (simp del: set_map, blast)
  qed
qed


section \<open>The store as a map\<close>

datatype oms_op =
    Register i64 i64 string string Side dbl dbl
  | Update u64 OrderStatus dbl dbl i64 i64 dbl
  | Release u64

fun oms_step :: "oms_op \<Rightarrow> oms \<Rightarrow> oms" where
  "oms_step (Register now steady cid symbol side px qty) s =
     snd (snd (register_new_order now steady cid symbol side px qty s))"
| "oms_step (Update key st cum px ex ev com) s = snd (snd (apply_update key st cum px ex ev com s))"
| "oms_step (Release key) s = release key s"

fun oms_key :: "oms_op \<Rightarrow> u64" where
  "oms_key (Register now steady cid symbol side px qty) = fnv1a64 cid"
| "oms_key (Update key st cum px ex ev com) = key"
| "oms_key (Release key) = key"

fun oms_effect :: "oms_op \<Rightarrow> OrderRecord option \<Rightarrow> OrderRecord option" where
  "oms_effect (Register now steady cid symbol side px qty) r =
     Some (new_record now steady cid symbol side px qty)"
| "oms_effect (Update key st cum px ex ev com) r = map_option (update_record st cum px ex ev com) r"
| "oms_effect (Release key) r = None"

lemma oms_step_store:
  assumes "oms_inv s"
  shows "oms_inv (oms_step op s) \<and>
    oms_get (oms_step op s) = (oms_get s)(oms_key op := oms_effect op (oms_get s (oms_key op)))"
  using assms
proof (cases op)
  case (Register now steady cid sy side px qty)
  obtain k f s' where "register_new_order now steady cid sy side px qty s = (k, f, s')"
    using prod_cases3 by blast
  with register_store [OF assms this] show ?thesis by (simp add: Register)
next
  case (Update k st cum px ex ev com)
  obtain ok f s' where "apply_update k st cum px ex ev com s = (ok, f, s')"
    using prod_cases3 by blast
  with apply_update_store [OF assms this] show ?thesis by (simp add: Update)
next
  case (Release k)
  with release_store [OF assms] show ?thesis by simp
qed

interpretation oms_store: keyed_store oms_step oms_key oms_effect oms_inv oms_get
  by unfold_locales (simp_all add: oms_step_store)

lemma OMSCore_inv [simp, holo_inv]: "oms_inv OMSCore"
  by (simp add: oms_inv_def OMSCore_def)

lemma set_update_callback_inv [simp, holo_inv]: "oms_inv s \<Longrightarrow> oms_inv (set_update_callback cb s)"
  by (simp add: oms_inv_def set_update_callback_def)

lemma OMSCore_get [simp]: "oms_get OMSCore k = None"
  by (simp add: oms_get_def OMSCore_def)

text \<open>
  (C1) The slot vector, hash index and free list together implement a map from keys to orders: after
  any sequence of registrations, updates and releases on a fresh store, a lookup returns exactly
  what the operations on that one key produce in order. Slot reuse never lets one order's update
  show up in another order.
\<close>

theorem oms_lookup_by_key:
  "oms_get (fold oms_step ops OMSCore) k =
     fold oms_effect (filter (\<lambda>op. oms_key op = k) ops) None"
  using oms_store.run_lookup [OF OMSCore_inv, of ops k] by simp

text \<open>
  Every update callback and result of the store is about the order it names: on any reachable
  store, \<open>apply_update\<close> returns false exactly when the key is unknown, then changes nothing and
  fires nothing; otherwise the callback receives exactly the record a later \<open>get\<close> returns.
\<close>

theorem apply_update_reports:
  assumes "s = fold oms_step ops (set_update_callback cb OMSCore)"
    and "apply_update key st cum px ex ev com s = (ok, fired, s')"
  shows "(ok \<longleftrightarrow> oms_get s key \<noteq> None) \<and> (\<not> ok \<longrightarrow> s' = s \<and> fired = []) \<and>
         (ok \<and> oms_on_update s \<longrightarrow> map Some fired = [oms_get s' key])"
proof -
  have inv: "oms_inv s" unfolding assms(1) by (rule oms_store.map_view.run_inv) simp
  note st = apply_update_store [OF inv assms(2)]
  have "s' = s \<and> fired = []" if "\<not> ok"
    using that assms(2) st(2) apply_update_unknown by auto
  moreover have "map Some fired = [oms_get s' key]" if "ok" "oms_on_update s"
  proof -
    have "oms_get s' key \<noteq> None" using that(1) st(2,3) by simp
    then show ?thesis using that st(4) by simp
  qed
  ultimately show ?thesis using st(2) by blast
qed

section \<open>Fills\<close>

lemma update_record_filled:
  "or_filled_qty (update_record st cum px ex ev com r) = max (or_filled_qty r) cum"
  by (simp add: update_record_def Let_def)

text \<open>The notional of the record: a part without a price is valued at the average before it.\<close>

lemma update_record_notional:
  assumes "0 \<le> or_filled_qty r"
  shows "or_avg_fill_price (update_record st cum px ex ev com r) * max (or_filled_qty r) cum =
         or_avg_fill_price r * or_filled_qty r +
           (if 0 < px then px else or_avg_fill_price r) * (max (or_filled_qty r) cum - or_filled_qty r)"
  using assms by (auto simp: update_record_def Let_def max_def field_simps)

lemma update_record_avg_zero:
  "or_filled_qty r = 0 \<Longrightarrow> cum \<le> 0 \<Longrightarrow> or_avg_fill_price (update_record st cum px ex ev com r) = or_avg_fill_price r"
  by (simp add: update_record_def Let_def)

lemma update_record_commission:
  "or_cumulative_commission (update_record st cum px ex ev com r) =
     or_cumulative_commission r + max 0 com"
  by (simp add: update_record_def Let_def max_def)

lemma update_record_status: "or_status (update_record st cum px ex ev com r) = st"
  by (simp add: update_record_def Let_def)

text \<open>
  One execution report of the venue: status, cumulative quantity, last price, commission. A report with
  no price (a new order, a cancellation) has price 0.

  The notional of a sequence of reports, for a quantity \<open>f\<close> and a notional \<open>v\<close> before it: of each report only
  the part counts that exceeds what was filled, at its price, or at the average so far when it has none.
\<close>

type_synonym fill_report = "OrderStatus \<times> dbl \<times> dbl \<times> dbl"

fun fill_op :: "u64 \<Rightarrow> fill_report \<Rightarrow> oms_op" where
  "fill_op key (st, cum, px, com) = Update key st cum px 0 0 com"

fun fill_notional :: "dbl \<Rightarrow> dbl \<Rightarrow> fill_report list \<Rightarrow> dbl" where
  "fill_notional f v [] = v"
| "fill_notional f v ((st, cum, px, com) # xs) =
     (let added = max f cum - f; unit = (if 0 < px then px else if f = 0 then 0 else v / f)
      in fill_notional (f + added) (v + unit * added) xs)"

fun fill_peak :: "dbl \<Rightarrow> fill_report list \<Rightarrow> dbl" where
  "fill_peak f [] = f"
| "fill_peak f ((st, cum, px, com) # xs) = fill_peak (max f cum) xs"

fun fill_fees :: "fill_report list \<Rightarrow> dbl" where
  "fill_fees [] = 0"
| "fill_fees ((st, cum, px, com) # xs) = max 0 com + fill_fees xs"

fun fill_status :: "OrderStatus \<Rightarrow> fill_report list \<Rightarrow> OrderStatus" where
  "fill_status st [] = st"
| "fill_status st ((st', cum, px, com) # xs) = fill_status st' xs"

lemma fold_fill_ops:
  assumes "0 \<le> or_filled_qty r" and "or_filled_qty r = 0 \<Longrightarrow> or_avg_fill_price r = 0"
  shows "\<exists>r'. fold oms_effect (map (fill_op k) fs) (Some r) = Some r' \<and>
      or_filled_qty r' = fill_peak (or_filled_qty r) fs \<and>
      or_avg_fill_price r' * or_filled_qty r' =
        fill_notional (or_filled_qty r) (or_avg_fill_price r * or_filled_qty r) fs \<and>
      or_cumulative_commission r' = or_cumulative_commission r + fill_fees fs \<and>
      or_status r' = fill_status (or_status r) fs"
  using assms
proof (induction fs arbitrary: r)
  case (Cons x fs)
  obtain st cum px com where x: "x = (st, cum, px, com)" by (cases x) auto
  let ?r = "update_record st cum px 0 0 com r" and ?f = "or_filled_qty r" and ?v = "or_avg_fill_price r * or_filled_qty r"
  have "or_avg_fill_price ?r = 0" if "or_filled_qty ?r = 0"
  proof -
    have "?f = 0" "cum \<le> 0" using that Cons.prems(1) by (auto simp: update_record_filled max_def split: if_splits)
    then show ?thesis using update_record_avg_zero Cons.prems(2) by simp
  qed
  moreover have "0 \<le> or_filled_qty ?r" using Cons.prems(1) by (simp add: update_record_filled)
  ultimately obtain r' where r': "fold oms_effect (map (fill_op k) fs) (Some ?r) = Some r'"
    "or_filled_qty r' = fill_peak (or_filled_qty ?r) fs"
    "or_avg_fill_price r' * or_filled_qty r' = fill_notional (or_filled_qty ?r) (or_avg_fill_price ?r * or_filled_qty ?r) fs"
    "or_cumulative_commission r' = or_cumulative_commission ?r + fill_fees fs"
    "or_status r' = fill_status (or_status ?r) fs"
    using Cons.IH [of ?r] by blast
  have "(if ?f = 0 then 0 else ?v / ?f) = or_avg_fill_price r" using Cons.prems(2) by simp
  then have "or_avg_fill_price ?r * or_filled_qty ?r =
      ?v + (if 0 < px then px else if ?f = 0 then 0 else ?v / ?f) * (max ?f cum - ?f)"
    using update_record_notional [OF Cons.prems(1), of st cum px 0 0 com] by (simp only: update_record_filled)
  then show ?case
    using r' by (simp add: x update_record_filled update_record_commission update_record_status Let_def)
qed simp

text \<open>
  (C11) Fill accounting: over any sequence of execution reports for a freshly registered order, with or
  without a price, duplicated or out of order ones included, \<open>filled_qty\<close> is the largest cumulative
  quantity seen, the average price times it is the notional of the quantity actually added (a part
  reported without a price does not move the average), commissions add up, and the status is that of
  the last report.
\<close>

theorem fill_accounting:
  assumes "oms_inv s" and "oms_get s k = Some r" and "or_filled_qty r = 0" and "or_avg_fill_price r = 0"
  shows "\<exists>r'. oms_get (fold oms_step (map (fill_op k) fs) s) k = Some r' \<and>
      or_filled_qty r' = fill_peak 0 fs \<and>
      or_avg_fill_price r' * or_filled_qty r' = fill_notional 0 0 fs \<and>
      or_cumulative_commission r' = or_cumulative_commission r + fill_fees fs \<and>
      or_status r' = fill_status (or_status r) fs"
proof -
  have "filter (\<lambda>op. oms_key op = k) (map (fill_op k) fs) = map (fill_op k) fs"
    by (rule filter_True) auto
  then show ?thesis
    using oms_store.run_lookup [OF assms(1), of "map (fill_op k) fs" k] assms(2-4)
      fold_fill_ops [of r k fs] by simp
qed

theorem fill_accounting_witness:
  "\<exists>r'. oms_get (fold oms_step (map (fill_op (fnv1a64 ''a''))
        [(Open, 0, 0, 0), (Partial, 1, 100, 0), (Partial, 1, 100, 0), (Partial, 2, 0, 0), (Filled, 4, 104, 1), (Canceled, 4, 0, 0)])
      (oms_step (Register 0 0 ''a'' ''ETHUSDT'' Sell 99 4) OMSCore)) (fnv1a64 ''a'') = Some r' \<and>
     or_filled_qty r' = 4 \<and> or_avg_fill_price r' = 102 \<and> or_status r' = Canceled"
proof -
  let ?s = "oms_step (Register 0 0 ''a'' ''ETHUSDT'' Sell 99 4) OMSCore"
  let ?r = "new_record 0 0 ''a'' ''ETHUSDT'' Sell 99 4"
  let ?fs = "[(Open, 0, 0, 0), (Partial, 1, 100, 0), (Partial, 1, 100, 0), (Partial, 2, 0, 0), (Filled, 4, 104, 1 :: real),
    (Canceled, 4, 0, 0)]"
  have s: "oms_inv ?s" "oms_get ?s (fnv1a64 ''a'') = Some ?r"
    using oms_step_store [OF OMSCore_inv, of "Register 0 0 ''a'' ''ETHUSDT'' Sell 99 4"] by simp_all
  have r: "or_filled_qty ?r = 0" "or_avg_fill_price ?r = 0" by (simp_all add: new_record_def empty_record_def)
  have n: "fill_notional 0 0 ?fs = 408" by simp
  from fill_accounting [OF s r, of ?fs] n show ?thesis by (auto simp: field_simps)
qed

section \<open>Slot memory\<close>

text \<open>
  No registration of the run reuses the key of an order that is still indexed (a reused client id,
  or a hash collision), and the largest number of indexed orders during the run.
\<close>

fun collision_free :: "oms_op list \<Rightarrow> oms \<Rightarrow> bool" where
  "collision_free [] s \<longleftrightarrow> True"
| "collision_free (op # ops) s \<longleftrightarrow>
     (case op of Register now steady cid symbol side px qty \<Rightarrow> oms_get s (fnv1a64 cid) = None
      | _ \<Rightarrow> True) \<and> collision_free ops (oms_step op s)"

fun peak_live :: "oms_op list \<Rightarrow> oms \<Rightarrow> nat" where
  "peak_live [] s = live_order_count s"
| "peak_live (op # ops) s = max (live_order_count s) (peak_live ops (oms_step op s))"

lemma peak_live_ge: "live_order_count s \<le> peak_live ops s"
  by (cases ops) simp_all

lemma oms_get_None: "oms_get s k = None \<longleftrightarrow> k \<notin> fst ` set (oms_index s)"
  by (simp add: oms_get_def option.case_eq_if map_of_eq_None_iff)

lemma length_delete_present:
  "distinct (map fst al) \<Longrightarrow> map_of al k = Some v \<Longrightarrow> Suc (length (AList.delete k al)) = length al"
  by (induction al) (auto split: if_splits)

lemma register_counts:
  assumes "oms_full s" and "oms_get s (fnv1a64 cid) = None"
    and "s' = oms_step (Register now steady cid sy side px qty) s"
  shows "length (oms_index s') = Suc (length (oms_index s))"
    and "length (oms_free s') = length (oms_free s) - 1"
    and "length (oms_slots s') = max (length (oms_slots s)) (Suc (length (oms_index s)))"
  using assms
  by (auto simp: register_new_order_def alloc_slot_locked_def oms_full_def Let_def oms_get_None
      length_update_fresh Suc_le_eq)

lemma oms_step_full:
  assumes "oms_full s" and "collision_free [op] s"
  shows "oms_full (oms_step op s) \<and>
    length (oms_slots (oms_step op s)) = max (length (oms_slots s)) (live_order_count (oms_step op s))"
proof -
  have inv: "oms_inv (oms_step op s)" using assms oms_step_store by (simp add: oms_full_def)
  show ?thesis
  proof (cases op)
    case (Register now steady cid sy side px qty)
    then have none: "oms_get s (fnv1a64 cid) = None" using assms(2) by simp
    note c = register_counts [OF assms(1) none Register [THEN arg_cong, of "\<lambda>op. oms_step op s"]]
    show ?thesis using inv c assms(1)
      by (auto simp: oms_full_def live_order_count_def simp del: oms_step.simps)
  next
    case (Update k st cum px ex ev com)
    then show ?thesis using inv assms(1)
      by (auto simp: oms_full_def apply_update_def Let_def live_order_count_def split: option.splits)
  next
    case (Release k)
    have "distinct (map fst (oms_index s))" using assms(1) by (simp add: oms_full_def oms_inv_def)
    note len = length_delete_present [OF this, of k]
    show ?thesis
    proof (cases "map_of (oms_index s) k")
      case None
      with Release assms(1) show ?thesis
        by (simp add: oms_full_def release_def live_order_count_def)
    next
      case (Some i)
      with Release assms(1) inv len [OF Some] show ?thesis
        by (simp add: oms_full_def release_def live_order_count_def)
    qed
  qed
qed

lemma oms_run_full:
  assumes "oms_full s" and "collision_free ops s"
  shows "oms_full (fold oms_step ops s) \<and>
    length (oms_slots (fold oms_step ops s)) = max (length (oms_slots s)) (peak_live ops s)"
  using assms
proof (induction ops arbitrary: s)
  case Nil
  then show ?case by (simp add: oms_full_def live_order_count_def)
next
  case (Cons op ops)
  then have st: "oms_full (oms_step op s)"
    "length (oms_slots (oms_step op s)) = max (length (oms_slots s)) (live_order_count (oms_step op s))"
    using oms_step_full [of s op] by auto
  have "live_order_count s \<le> length (oms_slots s)"
    using Cons.prems(1) by (simp add: oms_full_def live_order_count_def)
  moreover note peak_live_ge [of "oms_step op s" ops]
  ultimately show ?case using Cons.IH [OF st(1)] Cons.prems(2) st(2) by auto
qed

text \<open>
  The slot vector never grows past need: while every registration uses a key that is not
  indexed, no slot is lost (each one is indexed or free) and the number of slots is exactly the
  largest number of orders that were indexed at the same time.
\<close>

theorem oms_slots_high_water:
  assumes "collision_free ops OMSCore" and "s = fold oms_step ops OMSCore"
  shows "length (oms_slots s) = peak_live ops OMSCore \<and>
         length (oms_slots s) = live_order_count s + length (oms_free s)"
proof -
  have "oms_full OMSCore" by (simp add: oms_full_def) (simp add: OMSCore_def)
  from oms_run_full [OF this assms(1)] show ?thesis
    by (simp add: assms(2) oms_full_def live_order_count_def) (simp add: OMSCore_def)
qed

lemma fnv1a64_ids:
  "fnv1a64 ''a'' = 4953267810257967366" "fnv1a64 ''b'' = 4953266710746339155"
  "fnv1a64 ''c'' = 4953265611234710944"
  by (simp_all add: fnv1a64_def fnv_step_def)

section \<open>Staleness, buffers and keys\<close>

lemma oms_get_index:
  assumes "oms_inv s"
  shows "oms_get s k = Some rec \<longleftrightarrow> (\<exists>i. (k, i) \<in> set (oms_index s) \<and> rec = oms_slots s ! i)"
proof -
  have "(k, i) \<in> set (oms_index s) \<longleftrightarrow> map_of (oms_index s) k = Some i" for i
    using assms by (simp add: oms_inv_def)
  then show ?thesis by (auto simp: oms_get_def split: option.split)
qed

text \<open>
  The staleness sweep is exact: it returns the orders that are indexed, not in a terminal state
  and created strictly more than \<open>max_age_ns\<close> before the reading of the monotonic clock, and
  nothing else; wall-clock times play no part.
\<close>

theorem stale_orders_exact:
  assumes "oms_inv s"
  shows "rec \<in> set (get_stale_orders steady max_age s) \<longleftrightarrow>
     (\<exists>k. oms_get s k = Some rec) \<and> \<not> is_terminal (or_status rec) \<and>
     max_age < steady - or_created_mono_ns rec"
proof -
  have live: "is_live st \<longleftrightarrow> \<not> is_terminal st" for st
    by (cases st) (simp_all add: is_live_def is_terminal_def)
  show ?thesis by (auto simp: get_stale_orders_def Let_def live oms_get_index [OF assms])
qed

text \<open>
  Symbol and client-id buffers round-trip: a string without NUL characters that fits (15
  characters for a symbol, 39 for a client id) is read back unchanged by \<open>view\<close>; a longer one is
  read back as its prefix, and the buffer always has its full width and a terminating NUL.
\<close>

theorem buffers_roundtrip:
  assumes "NUL \<notin> set sv"
  shows "view (make_symbol sv) = take 15 sv \<and> view (make_client_id sv) = take 39 sv \<and>
         length (make_symbol sv) = 16 \<and> length (make_client_id sv) = 40 \<and>
         last (make_symbol sv) = NUL \<and> last (make_client_id sv) = NUL"
  using view_make_buf [OF assms, of 16] view_make_buf [OF assms, of 40] length_make_buf [of 16 sv]
    length_make_buf [of 40 sv]
  by (simp add: make_symbol_def make_client_id_def) (simp add: make_buf_def Let_def)

text \<open>
  Two client ids of the same length that differ in exactly one character never have the same
  FNV-1a key, whatever surrounds that character.
\<close>

theorem fnv1a64_one_char:
  "fnv1a64 (pre @ c # post) = fnv1a64 (pre @ d # post) \<longleftrightarrow> c = d"
  by (simp add: fnv1a64_def foldl_fnv_inj fnv_step_inj xor_cancel_left of_char_u64_inj)

end
