(* ===== verification/Pnl_Book.thy ===== *)
theory Pnl_Book
  imports Oms_Core "HOL-Library.Multiset"
begin

text \<open>
  \<open>PnlBook\<close> of \<open>engine/net/execution_engine.hpp\<close>: per symbol a signed position, its average cost
  and the realized profit. The hash map of positions is an association list with distinct keys.
  The book is an instance of the locale \<open>keyed_store\<close>, and of the locale \<open>cash_ledger\<close>: every
  operation changes the marked value of the book by the value of that operation alone.
\<close>

section \<open>Model\<close>

record Position =
  ps_qty :: dbl
  ps_avg_price :: dbl
  ps_realized_pnl :: dbl

definition flat :: Position where
  "flat = \<lparr>ps_qty = 0, ps_avg_price = 0, ps_realized_pnl = 0\<rparr>"

type_synonym book = "(string \<times> Position) list"

text \<open>The body of \<open>apply_fill\<close> on the position it looks up (or creates).\<close>

definition fill_position :: "Side \<Rightarrow> dbl \<Rightarrow> dbl \<Rightarrow> Position \<Rightarrow> Position" where
  "fill_position side delta_qty fill_price pos =
     (let signed_delta = signed_dir side * delta_qty;
          opening_or_same_dir = (ps_qty pos = 0 \<or> (ps_qty pos > 0) = (signed_delta > 0));
          new_qty = ps_qty pos + signed_delta
      in if opening_or_same_dir then
           pos\<lparr>ps_avg_price :=
                 (if ps_qty pos = 0 then fill_price
                  else (ps_avg_price pos * \<bar>ps_qty pos\<bar> + fill_price * \<bar>signed_delta\<bar>) / \<bar>new_qty\<bar>),
               ps_qty := new_qty\<rparr>
         else
           (let closing_qty = min \<bar>signed_delta\<bar> \<bar>ps_qty pos\<bar>;
                dir_sign = (if ps_qty pos > 0 then 1 else - 1);
                pos1 = pos\<lparr>ps_realized_pnl :=
                  ps_realized_pnl pos + dir_sign * (fill_price - ps_avg_price pos) * closing_qty\<rparr>;
                pos2 = (if new_qty = 0 then pos1\<lparr>ps_avg_price := 0\<rparr>
                        else if (new_qty > 0) \<noteq> (ps_qty pos > 0) then pos1\<lparr>ps_avg_price := fill_price\<rparr>
                        else pos1)
            in pos2\<lparr>ps_qty := new_qty\<rparr>))"

definition book_entry :: "string \<Rightarrow> book \<Rightarrow> Position" where
  "book_entry symbol b = (case map_of b symbol of None \<Rightarrow> flat | Some p \<Rightarrow> p)"

definition apply_fill :: "string \<Rightarrow> Side \<Rightarrow> dbl \<Rightarrow> dbl \<Rightarrow> book \<Rightarrow> book" where
  "apply_fill symbol side delta_qty fill_price b =
     (if delta_qty \<le> 0 \<or> fill_price \<le> 0 then b
      else AList.update symbol (fill_position side delta_qty fill_price (book_entry symbol b)) b)"

definition apply_commission :: "string \<Rightarrow> dbl \<Rightarrow> book \<Rightarrow> book" where
  "apply_commission symbol commission b =
     (if commission \<le> 0 then b
      else let pos = book_entry symbol b
           in AList.update symbol (pos\<lparr>ps_realized_pnl := ps_realized_pnl pos - commission\<rparr>) b)"

definition snapshot :: "string \<Rightarrow> book \<Rightarrow> Position" where
  "snapshot symbol b = (case map_of b symbol of None \<Rightarrow> flat | Some p \<Rightarrow> p)"

definition marked :: "(string \<Rightarrow> dbl) \<Rightarrow> string \<Rightarrow> Position \<Rightarrow> dbl" where
  "marked mark_price symbol pos =
     ps_realized_pnl pos +
     (if ps_qty pos \<noteq> 0 \<and> mark_price symbol > 0
      then (mark_price symbol - ps_avg_price pos) * ps_qty pos else 0)"

definition total_pnl :: "(string \<Rightarrow> dbl) \<Rightarrow> book \<Rightarrow> dbl" where
  "total_pnl mark_price b = foldl (\<lambda>total (symbol, pos). total + marked mark_price symbol pos) 0 b"

section \<open>One position\<close>

text \<open>
  The quantity of a position moves by the signed fill quantity, and its cost basis by the cash paid.
\<close>

lemma fill_position_qty: "ps_qty (fill_position side d p pos) = ps_qty pos + signed_dir side * d"
  by (simp add: fill_position_def Let_def)

lemma fill_position_cash:
  assumes "0 < d"
  shows "ps_realized_pnl (fill_position side d p pos) -
           ps_avg_price (fill_position side d p pos) * ps_qty (fill_position side d p pos)
         = ps_realized_pnl pos - ps_avg_price pos * ps_qty pos - signed_dir side * d * p"
proof (cases "0 < ps_qty pos")
  case True
  then show ?thesis using assms
    by (cases side) (auto simp: fill_position_def Let_def signed_dir_def abs_if min_def field_simps)
next
  case False
  have zero: "d * a + a * q = 0" if "d + q = 0" for a q :: real
    using that by (metis distrib_left mult.commute mult_zero_right)
  show ?thesis using assms False
    by (cases side) (auto simp: fill_position_def Let_def signed_dir_def abs_if min_def field_simps
        zero)
qed

lemma fill_position_avg_pos:
  assumes "0 < d" and "0 < p" and "ps_qty pos \<noteq> 0 \<Longrightarrow> 0 < ps_avg_price pos"
    and "ps_qty (fill_position side d p pos) \<noteq> 0"
  shows "0 < ps_avg_price (fill_position side d p pos)"
proof (cases "ps_qty pos = 0 \<or> (ps_qty pos > 0) = (signed_dir side * d > 0)")
  case True
  have "0 < ps_avg_price pos * \<bar>ps_qty pos\<bar> + p * \<bar>signed_dir side * d\<bar>" if "ps_qty pos \<noteq> 0"
    using that assms by (auto simp: signed_dir_def intro!: add_pos_pos mult_pos_pos)
  with True assms show ?thesis by (auto simp: fill_position_def Let_def)
next
  case False
  with assms show ?thesis by (auto simp: fill_position_def Let_def)
qed

section \<open>The book\<close>

datatype pnl_op = Fill string Side dbl dbl | Commission string dbl

fun pnl_step :: "pnl_op \<Rightarrow> book \<Rightarrow> book" where
  "pnl_step (Fill symbol side d p) b = apply_fill symbol side d p b"
| "pnl_step (Commission symbol c) b = apply_commission symbol c b"

fun pnl_key :: "pnl_op \<Rightarrow> string" where
  "pnl_key (Fill symbol side d p) = symbol"
| "pnl_key (Commission symbol c) = symbol"

fun pnl_effect :: "pnl_op \<Rightarrow> Position option \<Rightarrow> Position option" where
  "pnl_effect (Fill symbol side d p) r =
     (if d \<le> 0 \<or> p \<le> 0 then r
      else Some (fill_position side d p (case r of None \<Rightarrow> flat | Some pos \<Rightarrow> pos)))"
| "pnl_effect (Commission symbol c) r =
     (if c \<le> 0 then r
      else let pos = (case r of None \<Rightarrow> flat | Some pos \<Rightarrow> pos)
           in Some (pos\<lparr>ps_realized_pnl := ps_realized_pnl pos - c\<rparr>))"

definition book_ok :: "book \<Rightarrow> bool" where
  "book_ok b \<longleftrightarrow> distinct (map fst b)"

interpretation pnl_store: keyed_store pnl_step pnl_key pnl_effect book_ok map_of
proof unfold_locales
  fix b :: book and op
  assume "book_ok b"
  then show "book_ok (pnl_step op b)"
    by (cases op) (auto simp: book_ok_def apply_fill_def apply_commission_def distinct_update Let_def)
  show "map_of (pnl_step op b) = (map_of b)(pnl_key op := pnl_effect op (map_of b (pnl_key op)))"
    by (cases op) (auto simp: apply_fill_def apply_commission_def book_entry_def update_conv' Let_def
        fun_upd_idem split: option.splits)
qed

text \<open>
  A ledger: the value of the state under a valuation changes with every operation by the value of
  that operation. The value after a run is then the sum of the values of its operations, in
  whatever order they came.
\<close>

locale cash_ledger =
  fixes step :: "'op \<Rightarrow> 's \<Rightarrow> 's"
    and inv :: "'s \<Rightarrow> bool"
    and valuation :: "'v \<Rightarrow> bool"
    and total :: "'v \<Rightarrow> 's \<Rightarrow> real"
    and worth :: "'v \<Rightarrow> 'op \<Rightarrow> real"
  assumes inv_step: "inv s \<Longrightarrow> inv (step op s)"
    and total_step: "valuation v \<Longrightarrow> inv s \<Longrightarrow> total v (step op s) = total v s + worth v op"
begin

lemma run_total:
  "valuation v \<Longrightarrow> inv s \<Longrightarrow> total v (fold step ops s) = total v s + sum_list (map (worth v) ops)"
  by (induction ops arbitrary: s) (simp_all add: inv_step total_step)

lemma run_total_order:
  assumes "valuation v" and "inv s" and "mset ops = mset ops'"
  shows "total v (fold step ops s) = total v (fold step ops' s)"
proof -
  have "sum_list (map (worth v) ops) = sum_list (map (worth v) ops')"
    using assms(3) by (metis mset_map sum_mset_sum_list)
  then show ?thesis using run_total [OF assms(1,2)] by simp
qed

end

fun op_worth :: "(string \<Rightarrow> dbl) \<Rightarrow> pnl_op \<Rightarrow> dbl" where
  "op_worth mark (Fill symbol side d p) =
     (if d \<le> 0 \<or> p \<le> 0 then 0 else signed_dir side * d * (mark symbol - p))"
| "op_worth mark (Commission symbol c) = - max 0 c"

lemma marked_eq:
  "0 < mark symbol \<Longrightarrow>
     marked mark symbol pos = ps_realized_pnl pos + (mark symbol - ps_avg_price pos) * ps_qty pos"
  by (simp add: marked_def)

lemma marked_flat [simp]: "marked mark symbol flat = 0"
  by (simp add: marked_def flat_def)

lemma foldl_total:
  "foldl (\<lambda>total (symbol, pos). total + marked mark symbol pos) t b =
     t + sum_list (map (\<lambda>(symbol, pos). marked mark symbol pos) b)"
  by (induction b arbitrary: t) (auto simp: algebra_simps)

lemma sum_list_update:
  fixes f :: "'k \<times> 'v \<Rightarrow> real"
  assumes "distinct (map fst al)"
  shows "sum_list (map f (AList.update k v al)) =
    sum_list (map f al) + f (k, v) - (case map_of al k of None \<Rightarrow> 0 | Some w \<Rightarrow> f (k, w))"
  using assms by (induction al) auto

lemma total_pnl_update:
  assumes "book_ok b"
  shows "total_pnl mark (AList.update symbol pos b) =
    total_pnl mark b + marked mark symbol pos - marked mark symbol (book_entry symbol b)"
  using sum_list_update [of b "\<lambda>(symbol, pos). marked mark symbol pos" symbol pos] assms
  by (cases "map_of b symbol")
    (simp_all add: total_pnl_def foldl_total book_ok_def book_entry_def)

lemma total_pnl_step:
  assumes "\<And>symbol. 0 < mark symbol" and "book_ok b"
  shows "total_pnl mark (pnl_step op b) = total_pnl mark b + op_worth mark op"
proof (cases op)
  case (Fill symbol side d p)
  let ?pos = "book_entry symbol b"
  have "marked mark symbol (fill_position side d p ?pos) - marked mark symbol ?pos
      = signed_dir side * d * (mark symbol - p)" if "0 < d"
    using fill_position_cash [OF that, of side p ?pos] fill_position_qty [of side d p ?pos]
    by (simp add: marked_eq [OF assms(1)] algebra_simps)
  then show ?thesis
    by (auto simp: Fill apply_fill_def total_pnl_update [OF assms(2)])
next
  case (Commission symbol c)
  then show ?thesis
    by (auto simp: apply_commission_def total_pnl_update [OF assms(2)] marked_eq [OF assms(1)] Let_def)
qed

interpretation pnl_ledger: cash_ledger pnl_step book_ok "\<lambda>mark. \<forall>symbol. 0 < mark symbol"
    total_pnl op_worth
  by unfold_locales (simp_all add: pnl_store.inv_step total_pnl_step)

text \<open>
  (C2) Profit accounting is exact: after any sequence of fills and commissions on an empty book,
  through averaging in, partial closes and reversals, \<open>total_pnl\<close> at positive mark prices is the sum
  over the operations of signed quantity times (mark minus fill price), less the commissions. Calls
  with a non-positive quantity, price or commission contribute nothing.
\<close>

theorem total_pnl_is_cash_flow:
  assumes "\<forall>symbol. 0 < mark symbol"
  shows "total_pnl mark (fold pnl_step ops []) = sum_list (map (op_worth mark) ops)"
  using pnl_ledger.run_total [OF assms, of "[]" ops] by (simp add: book_ok_def total_pnl_def)

theorem total_pnl_is_cash_flow_witness:
  "total_pnl (\<lambda>_. 110) (fold pnl_step
     [Fill ''BTC'' Buy 2 100, Fill ''BTC'' Sell 3 120, Commission ''BTC'' 1, Fill ''BTC'' Sell 1 0] [])
   = 49"
  using total_pnl_is_cash_flow [of "\<lambda>_. 110"
      "[Fill ''BTC'' Buy 2 100, Fill ''BTC'' Sell 3 120, Commission ''BTC'' 1, Fill ''BTC'' Sell 1 0]"]
  by (simp add: signed_dir_def)

fun signed_fill :: "string \<Rightarrow> pnl_op \<Rightarrow> dbl" where
  "signed_fill symbol (Fill sy side d p) =
     (if sy = symbol \<and> 0 < d \<and> 0 < p then signed_dir side * d else 0)"
| "signed_fill symbol (Commission sy c) = 0"

lemma snapshot_step:
  assumes "book_ok b" and "ps_qty (snapshot symbol b) \<noteq> 0 \<longrightarrow> 0 < ps_avg_price (snapshot symbol b)"
  shows "ps_qty (snapshot symbol (pnl_step op b)) = ps_qty (snapshot symbol b) + signed_fill symbol op \<and>
    (ps_qty (snapshot symbol (pnl_step op b)) \<noteq> 0 \<longrightarrow> 0 < ps_avg_price (snapshot symbol (pnl_step op b)))"
proof -
  have look: "snapshot symbol (pnl_step op b) =
      (case ((map_of b)(pnl_key op := pnl_effect op (map_of b (pnl_key op)))) symbol
       of None \<Rightarrow> flat | Some p \<Rightarrow> p)"
    unfolding snapshot_def by (simp only: pnl_store.lookup_step [OF assms(1)])
  show ?thesis
  proof (cases op)
    case (Fill sy side d p)
    show ?thesis
    proof (cases "sy = symbol \<and> 0 < d \<and> 0 < p")
      case True
      then have "snapshot symbol (pnl_step op b) = fill_position side d p (snapshot symbol b)"
        using look by (simp add: Fill snapshot_def)
      then show ?thesis
        using fill_position_avg_pos [of d p "snapshot symbol b" side] assms(2) True
        by (simp add: Fill fill_position_qty)
    next
      case False
      then have "snapshot symbol (pnl_step op b) = snapshot symbol b"
        using look by (auto simp: Fill snapshot_def)
      then show ?thesis using False assms(2) by (auto simp: Fill)
    qed
  next
    case (Commission sy c)
    have "ps_qty (snapshot symbol (pnl_step op b)) = ps_qty (snapshot symbol b) \<and>
        ps_avg_price (snapshot symbol (pnl_step op b)) = ps_avg_price (snapshot symbol b)"
      using look by (auto simp: Commission snapshot_def Let_def)
    then show ?thesis using assms(2) by (simp add: Commission)
  qed
qed

lemma position_run:
  assumes "book_ok b" and "ps_qty (snapshot symbol b) \<noteq> 0 \<longrightarrow> 0 < ps_avg_price (snapshot symbol b)"
  shows "ps_qty (snapshot symbol (fold pnl_step ops b)) =
      ps_qty (snapshot symbol b) + sum_list (map (signed_fill symbol) ops) \<and>
    (ps_qty (snapshot symbol (fold pnl_step ops b)) \<noteq> 0 \<longrightarrow>
      0 < ps_avg_price (snapshot symbol (fold pnl_step ops b)))"
  using assms
proof (induction ops arbitrary: b)
  case (Cons op ops)
  from Cons.IH [OF pnl_store.inv_step [OF Cons.prems(1)], of op] snapshot_step [OF Cons.prems, of op]
  show ?case by simp
qed simp

text \<open>
  Position tracking: after any such sequence the quantity of a symbol is the sum of the signed
  quantities of its own valid fills, other symbols never interfere, and an open position has a
  positive cost basis.
\<close>

theorem position_is_signed_sum:
  "ps_qty (snapshot symbol (fold pnl_step ops [])) = sum_list (map (signed_fill symbol) ops) \<and>
   (ps_qty (snapshot symbol (fold pnl_step ops [])) = 0 \<or>
    0 < ps_avg_price (snapshot symbol (fold pnl_step ops [])))"
  using position_run [of "[]" symbol ops] by (auto simp: book_ok_def snapshot_def flat_def)

end
