(* ===== verification/Execution_Engine.thy ===== *)
theory Execution_Engine
  imports Pnl_Book
begin

text \<open>
  \<open>ExecutionEngine\<close> of \<open>engine/net/execution_engine.hpp\<close>: the guards and the entry point for a
  two-legged signal, the monitor of a pair, the hedges, the circuit breaker and the drawdown
  switch, and the registry of waiter channels that order updates are routed through.

  The engine's members are the record \<open>engine\<close>, the order store it works on included. A coroutine
  is a function from the state to the state; each suspension point on the gateway is a call of
  \<open>await\<close>, which logs the request and hands the state to the argument \<open>net\<close>: the interface
  \<open>IOrderGateway\<close> together with everything other threads do to the engine before the coroutine
  resumes. \<open>net\<close> returns whether the call returned (an exception otherwise) and the state then.
  The outcome of a race of awaitables is an argument of the coroutine. Channels are a heap of
  message buffers, since a coroutine keeps its channel after the registry drops it. Log lines are
  left out; the counters behind the throttled ones are kept.
\<close>

section \<open>Model\<close>

definition post_only_price :: "Side \<Rightarrow> dbl \<Rightarrow> dbl \<Rightarrow> dbl" where
  "post_only_price side best_bid best_ask = (if side = Buy then best_bid else best_ask)"

text \<open>The calls of \<open>IOrderGateway\<close>.\<close>

datatype request =
    SendLimitPostOnly string string Side dbl dbl
  | SendMarket string string Side dbl
  | CancelOrder string string

record ArbLeg =
  leg_symbol :: string
  leg_side :: Side
  leg_qty :: dbl
  leg_price :: dbl

record log_throttle =
  lt_last_ns :: i64
  lt_suppressed :: u64

record engine =
  ee_oms :: oms
  ee_pnl :: book
  ee_seq :: u64
  ee_max_open_orders :: nat
  ee_halted :: bool
  ee_consecutive_rejects :: int
  ee_pnl_high_water_mark :: dbl
  ee_halt_log :: log_throttle
  ee_capacity_log :: log_throttle
  ee_dup_log :: log_throttle
  ee_inflight_pairs :: "string set"
  ee_inflight_symbols :: "string set"
  ee_waiters :: "u64 \<rightharpoonup> nat"
  ee_chans :: "OrderRecord list list"
  ee_last_filled :: "i64 \<rightharpoonup> dbl"
  ee_last_commission :: "i64 \<rightharpoonup> dbl"
  ee_halt_flag :: bool
  ee_sent :: "request list"

definition kMaxConsecutiveRejects :: int where "kMaxConsecutiveRejects = 5"
definition kChanBuffer :: nat where "kChanBuffer = 16"
definition kLogThrottleNs :: i64 where "kLogThrottleNs = 2000000000"

definition no_log :: log_throttle where
  "no_log = \<lparr>lt_last_ns = 0, lt_suppressed = 0\<rparr>"

definition ExecutionEngine :: "oms \<Rightarrow> nat \<Rightarrow> engine" where
  "ExecutionEngine oms max_open_orders =
     \<lparr>ee_oms = set_update_callback True oms, ee_pnl = [], ee_seq = 0,
      ee_max_open_orders = max_open_orders, ee_halted = False, ee_consecutive_rejects = 0,
      ee_pnl_high_water_mark = 0, ee_halt_log = no_log, ee_capacity_log = no_log,
      ee_dup_log = no_log, ee_inflight_pairs = {}, ee_inflight_symbols = {},
      ee_waiters = Map.empty, ee_chans = [], ee_last_filled = Map.empty,
      ee_last_commission = Map.empty, ee_halt_flag = False, ee_sent = []\<rparr>"

definition reset_halt :: "engine \<Rightarrow> engine" where
  "reset_halt e = e\<lparr>ee_halted := False, ee_consecutive_rejects := 0, ee_halt_flag := False\<rparr>"

definition force_halt :: "engine \<Rightarrow> engine" where
  "force_halt e = e\<lparr>ee_halted := True\<rparr>"

definition check_drawdown :: "dbl \<Rightarrow> dbl \<Rightarrow> engine \<Rightarrow> engine" where
  "check_drawdown current_total_pnl max_drawdown_usd e =
     (let prev_peak = ee_pnl_high_water_mark e;
          e1 = (if current_total_pnl > prev_peak
                then e\<lparr>ee_pnl_high_water_mark := current_total_pnl\<rparr> else e);
          peak = (if current_total_pnl > prev_peak then current_total_pnl else prev_peak);
          drawdown = peak - current_total_pnl
      in if drawdown \<ge> max_drawdown_usd then e1\<lparr>ee_halted := True\<rparr> else e1)"

text \<open>
  One logging site; the boolean is whether the line is written. The compare-and-swap is taken as
  uncontended.
\<close>

definition throttled_log :: "i64 \<Rightarrow> log_throttle \<Rightarrow> bool \<times> log_throttle" where
  "throttled_log now lt =
     (if now - lt_last_ns lt < kLogThrottleNs
      then (False, lt\<lparr>lt_suppressed := lt_suppressed lt + 1\<rparr>)
      else (True, lt\<lparr>lt_last_ns := now, lt_suppressed := 0\<rparr>))"

definition pair_key :: "ArbLeg \<Rightarrow> ArbLeg \<Rightarrow> string" where
  "pair_key leg1 leg2 = leg_symbol leg1 @ ''|'' @ leg_symbol leg2"

definition clear_inflight :: "string \<Rightarrow> engine \<Rightarrow> engine" where
  "clear_inflight key e =
     (let pairs = ee_inflight_pairs e - {key};
          pre = takeWhile (\<lambda>c. c \<noteq> CHR ''|'') key
      in if CHR ''|'' \<in> set key
         then e\<lparr>ee_inflight_pairs := pairs,
                ee_inflight_symbols :=
                  ee_inflight_symbols e - {pre} - {drop (length pre + 1) key}\<rparr>
         else e\<lparr>ee_inflight_pairs := pairs\<rparr>)"

definition next_client_id :: "engine \<Rightarrow> string \<times> engine" where
  "next_client_id e = (''holo-'' @ to_string (unat (ee_seq e)), e\<lparr>ee_seq := ee_seq e + 1\<rparr>)"

definition get_or_create_waiter :: "u64 \<Rightarrow> engine \<Rightarrow> nat \<times> engine" where
  "get_or_create_waiter key e =
     (case ee_waiters e key of
        Some c \<Rightarrow> (c, e)
      | None \<Rightarrow> (length (ee_chans e),
          e\<lparr>ee_waiters := (ee_waiters e)(key \<mapsto> length (ee_chans e)), ee_chans := ee_chans e @ [[]]\<rparr>))"

definition count_status :: "OrderStatus \<Rightarrow> engine \<Rightarrow> engine" where
  "count_status st e =
     (if st = Rejected then
        (let n = ee_consecutive_rejects e + 1;
             e1 = e\<lparr>ee_consecutive_rejects := n\<rparr>
         in if n \<ge> kMaxConsecutiveRejects \<and> \<not> ee_halted e1
            then e1\<lparr>ee_halted := True, ee_halt_flag := True\<rparr> else e1)
      else if st = Open \<or> st = Filled then e\<lparr>ee_consecutive_rejects := 0\<rparr>
      else e)"

definition try_send :: "nat \<Rightarrow> OrderRecord \<Rightarrow> engine \<Rightarrow> bool \<times> engine" where
  "try_send c rec e =
     (if length (ee_chans e ! c) < kChanBuffer
      then (True, e\<lparr>ee_chans := (ee_chans e)[c := ee_chans e ! c @ [rec]]\<rparr>)
      else (False, e))"

definition dispatch_update :: "OrderRecord \<Rightarrow> engine \<Rightarrow> engine" where
  "dispatch_update rec e =
     (let e1 = count_status (or_status rec) e;
          key = fnv1a64 (view (or_client_order_id rec))
      in case ee_waiters e1 key of
           None \<Rightarrow> e1
         | Some c \<Rightarrow> snd (try_send c rec e1))"

text \<open>
  The store's operations as the engine and the gateway call them: the callback installed by the
  constructor is \<open>dispatch_update\<close>, run on every record the store fires.
\<close>

definition engine_register ::
    "i64 \<Rightarrow> i64 \<Rightarrow> string \<Rightarrow> string \<Rightarrow> Side \<Rightarrow> dbl \<Rightarrow> dbl \<Rightarrow> engine \<Rightarrow> engine" where
  "engine_register now steady cid symbol side price qty e =
     (case register_new_order now steady cid symbol side price qty (ee_oms e) of
        (key, fired, s) \<Rightarrow> fold dispatch_update fired (e\<lparr>ee_oms := s\<rparr>))"

definition engine_update ::
    "u64 \<Rightarrow> OrderStatus \<Rightarrow> dbl \<Rightarrow> dbl \<Rightarrow> i64 \<Rightarrow> i64 \<Rightarrow> dbl \<Rightarrow> engine \<Rightarrow> bool \<times> engine" where
  "engine_update key st cum px ex ev com e =
     (case apply_update key st cum px ex ev com (ee_oms e) of
        (ok, fired, s) \<Rightarrow> (ok, fold dispatch_update fired (e\<lparr>ee_oms := s\<rparr>)))"

definition release_terminal :: "u64 \<Rightarrow> engine \<Rightarrow> engine" where
  "release_terminal key e =
     e\<lparr>ee_oms := release key (ee_oms e), ee_waiters := (ee_waiters e)(key := None)\<rparr>"

definition apply_fill_pnl :: "OrderRecord \<Rightarrow> ArbLeg \<Rightarrow> engine \<Rightarrow> engine" where
  "apply_fill_pnl rec leg e =
     (let ex = or_exchange_order_id rec;
          prev = (case ee_last_filled e ex of None \<Rightarrow> 0 | Some q \<Rightarrow> q);
          delta = or_filled_qty rec - prev;
          pnl1 = (if delta > 1 / 10 ^ 12 \<and> or_avg_fill_price rec > 0
                  then apply_fill (leg_symbol leg) (leg_side leg) delta (or_avg_fill_price rec) (ee_pnl e)
                  else ee_pnl e);
          prev_comm = (case ee_last_commission e ex of None \<Rightarrow> 0 | Some c \<Rightarrow> c);
          comm_delta = or_cumulative_commission rec - prev_comm;
          pnl2 = (if comm_delta > 1 / 10 ^ 12 then apply_commission (leg_symbol leg) comm_delta pnl1
                  else pnl1)
      in e\<lparr>ee_pnl := pnl2,
           ee_last_filled := (ee_last_filled e)(ex \<mapsto> or_filled_qty rec),
           ee_last_commission := (ee_last_commission e)(ex \<mapsto> or_cumulative_commission rec)\<rparr>)"

definition await ::
    "(request \<Rightarrow> engine \<Rightarrow> bool \<times> engine) \<Rightarrow> request \<Rightarrow> engine \<Rightarrow> bool \<times> engine" where
  "await net req e = net req (e\<lparr>ee_sent := ee_sent e @ [req]\<rparr>)"

section \<open>Coroutines\<close>

text \<open>
  What a coroutine cannot see: the gateway, the other threads while it is suspended on something
  else than the gateway (by the number of the suspension point), which side of a race wins when
  both are ready, and the readings of the two clocks.
\<close>

record world =
  w_net :: "request \<Rightarrow> engine \<Rightarrow> bool \<times> engine"
  w_env :: "nat \<Rightarrow> engine \<Rightarrow> engine"
  w_first :: "nat \<Rightarrow> bool"
  w_clock :: "nat \<Rightarrow> i64 \<times> i64"

datatype signal_result = Dropped | Failed | Launched string nat string nat

text \<open>The part of \<open>on_signal\<close> between the guards and the first send.\<close>

definition open_pair :: "world \<Rightarrow> ArbLeg \<Rightarrow> ArbLeg \<Rightarrow> engine \<Rightarrow> string \<times> nat \<times> string \<times> nat \<times> engine" where
  "open_pair w leg1 leg2 e =
     (let e1 = e\<lparr>ee_inflight_pairs := insert (pair_key leg1 leg2) (ee_inflight_pairs e),
                 ee_inflight_symbols :=
                   insert (leg_symbol leg2) (insert (leg_symbol leg1) (ee_inflight_symbols e))\<rparr>;
          (id1, e2) = next_client_id e1;
          (id2, e3) = next_client_id e2;
          e4 = engine_register (fst (w_clock w 1)) (snd (w_clock w 1)) id1 (leg_symbol leg1)
                 (leg_side leg1) (leg_price leg1) (leg_qty leg1) e3;
          e5 = engine_register (fst (w_clock w 2)) (snd (w_clock w 2)) id2 (leg_symbol leg2)
                 (leg_side leg2) (leg_price leg2) (leg_qty leg2) e4;
          (chan1, e6) = get_or_create_waiter (fnv1a64 id1) e5;
          (chan2, e7) = get_or_create_waiter (fnv1a64 id2) e6
      in (id1, chan1, id2, chan2, e7))"

definition send_leg :: "world \<Rightarrow> string \<Rightarrow> ArbLeg \<Rightarrow> engine \<Rightarrow> bool \<times> engine" where
  "send_leg w cid leg e =
     await (w_net w) (SendLimitPostOnly cid (leg_symbol leg) (leg_side leg) (leg_price leg) (leg_qty leg)) e"

definition on_signal :: "world \<Rightarrow> ArbLeg \<Rightarrow> ArbLeg \<Rightarrow> engine \<Rightarrow> signal_result \<times> engine" where
  "on_signal w leg1 leg2 e =
     (let now = fst (w_clock w 0) in
      if ee_halted e then
        (Dropped, e\<lparr>ee_halt_log := snd (throttled_log now (ee_halt_log e))\<rparr>)
      else if live_order_count (ee_oms e) \<ge> ee_max_open_orders e then
        (Dropped, e\<lparr>ee_capacity_log := snd (throttled_log now (ee_capacity_log e))\<rparr>)
      else if leg_symbol leg1 \<in> ee_inflight_symbols e \<or> leg_symbol leg2 \<in> ee_inflight_symbols e then
        (Dropped, e\<lparr>ee_dup_log := snd (throttled_log now (ee_dup_log e))\<rparr>)
      else
        (case open_pair w leg1 leg2 e of (id1, chan1, id2, chan2, e1) \<Rightarrow>
           (case send_leg w id1 leg1 e1 of (ok1, e2) \<Rightarrow>
              if \<not> ok1 then (Failed, clear_inflight (pair_key leg1 leg2) e2)
              else
                (case send_leg w id2 leg2 e2 of (ok2, e3) \<Rightarrow>
                   if \<not> ok2 then (Failed, clear_inflight (pair_key leg1 leg2) e3)
                   else (Launched id1 chan1 id2 chan2, e3)))))"

definition is_at_capacity :: "engine \<Rightarrow> bool" where
  "is_at_capacity e \<longleftrightarrow> live_order_count (ee_oms e) \<ge> ee_max_open_orders e"

text \<open>
  Receiving until a terminal record: the buffered messages up to it are consumed; \<open>None\<close> is a
  coroutine that stays suspended.
\<close>

fun wait_for_terminal_or_filled :: "OrderRecord list \<Rightarrow> OrderRecord option \<times> OrderRecord list" where
  "wait_for_terminal_or_filled [] = (None, [])"
| "wait_for_terminal_or_filled (rec # buf) =
     (if is_terminal (or_status rec) then (Some rec, buf) else wait_for_terminal_or_filled buf)"

definition receive :: "nat \<Rightarrow> engine \<Rightarrow> OrderRecord option \<times> engine" where
  "receive c e =
     (case wait_for_terminal_or_filled (ee_chans e ! c) of
        (r, buf) \<Rightarrow> (r, e\<lparr>ee_chans := (ee_chans e)[c := buf]\<rparr>))"

text \<open>
  The race of two channels consumes from both, so a terminal record of the losing side is lost;
  \<open>prefer1\<close> arbitrates when both are ready. A race with a timer gives \<open>None\<close> when the timer wins.
\<close>

definition first_race :: "nat \<Rightarrow> nat \<Rightarrow> bool \<Rightarrow> engine \<Rightarrow> (bool \<times> OrderRecord) option \<times> engine" where
  "first_race c1 c2 prefer1 e =
     (case receive c1 e of (r1, e1) \<Rightarrow>
        (case receive c2 e1 of (r2, e2) \<Rightarrow>
           (case (r1, r2) of
              (None, None) \<Rightarrow> (None, e2)
            | (Some a, None) \<Rightarrow> (Some (True, a), e2)
            | (None, Some b) \<Rightarrow> (Some (False, b), e2)
            | (Some a, Some b) \<Rightarrow> (Some (if prefer1 then (True, a) else (False, b)), e2))))"

definition timed_race :: "nat \<Rightarrow> bool \<Rightarrow> engine \<Rightarrow> OrderRecord option \<times> engine" where
  "timed_race c timer_wins e =
     (case receive c e of (r, e1) \<Rightarrow> (if timer_wins then None else r, e1))"

datatype outcome = Suspended | Threw | Done

definition await_authoritative_after_cancel ::
    "world \<Rightarrow> nat \<Rightarrow> u64 \<Rightarrow> engine \<Rightarrow> OrderRecord \<times> engine" where
  "await_authoritative_after_cancel w c key e =
     (let poll = (case timed_race c (w_first w 2) (w_env w 2 e) of
                    (Some rec, e1) \<Rightarrow> (rec, e1)
                  | (None, e1) \<Rightarrow>
                      (case oms_get (ee_oms e1) key of Some s \<Rightarrow> (s, e1) | None \<Rightarrow> (empty_record, e1)))
      in case oms_get (ee_oms e) key of
           Some snap \<Rightarrow> if is_terminal (or_status snap) then (snap, e) else poll
         | None \<Rightarrow> poll)"

definition hedge_remaining ::
    "world \<Rightarrow> ArbLeg \<Rightarrow> dbl \<Rightarrow> engine \<Rightarrow> outcome \<times> (string \<times> nat) option \<times> engine" where
  "hedge_remaining w leg remaining e =
     (if remaining \<le> 1 / 10 ^ 12 then (Done, None, e)
      else (let (hedge_id, e1) = next_client_id e;
                hedge_side = leg_side leg;
                e2 = engine_register (fst (w_clock w 3)) (snd (w_clock w 3)) hedge_id (leg_symbol leg)
                       hedge_side 0 remaining e1;
                (hedge_chan, e3) = get_or_create_waiter (fnv1a64 hedge_id) e2
            in case await (w_net w) (SendMarket hedge_id (leg_symbol leg) hedge_side remaining) e3 of
                 (ok, e4) \<Rightarrow> if ok then (Done, Some (hedge_id, hedge_chan), e4) else (Threw, None, e4)))"

text \<open>\<open>monitor_pair\<close>, first leg settled without filling.\<close>

definition abandon_pair ::
    "world \<Rightarrow> u64 \<Rightarrow> nat \<Rightarrow> string \<Rightarrow> ArbLeg \<Rightarrow> u64 \<Rightarrow> engine
     \<Rightarrow> outcome \<times> (string \<times> nat) option \<times> engine" where
  "abandon_pair w filled_key resting_chan resting_id resting_leg resting_key e =
     (case await (w_net w) (CancelOrder (leg_symbol resting_leg) resting_id)
             (release_terminal filled_key e) of
        (ok, e1) \<Rightarrow>
          if \<not> ok then (Threw, None, e1)
          else (case await_authoritative_after_cancel w resting_chan resting_key e1 of
                  (partner_final, e2) \<Rightarrow>
                    let e3 = release_terminal resting_key e2 in
                    if or_filled_qty partner_final > 0
                    then hedge_remaining w resting_leg
                           (or_qty partner_final - or_filled_qty partner_final)
                           (apply_fill_pnl partner_final resting_leg e3)
                    else (Done, None, e3)))"

text \<open>\<open>monitor_pair\<close>, first leg filled.\<close>

definition complete_pair ::
    "world \<Rightarrow> OrderRecord \<Rightarrow> ArbLeg \<Rightarrow> u64 \<Rightarrow> nat \<Rightarrow> string \<Rightarrow> ArbLeg \<Rightarrow> u64 \<Rightarrow> engine
     \<Rightarrow> outcome \<times> (string \<times> nat) option \<times> engine" where
  "complete_pair w first_rec first_leg filled_key resting_chan resting_id resting_leg resting_key e =
     (let e1 = release_terminal filled_key (apply_fill_pnl first_rec first_leg e) in
      case timed_race resting_chan (w_first w 1) (w_env w 1 e1) of
        (Some resting_rec, e2) \<Rightarrow>
          if or_status resting_rec = Filled
          then (Done, None, release_terminal resting_key (apply_fill_pnl resting_rec resting_leg e2))
          else (let e3 = (if or_filled_qty resting_rec > 0
                          then apply_fill_pnl resting_rec resting_leg e2 else e2)
                in hedge_remaining w resting_leg (or_qty resting_rec - or_filled_qty resting_rec)
                     (release_terminal resting_key e3))
      | (None, e2) \<Rightarrow>
          (case await (w_net w) (CancelOrder (leg_symbol resting_leg) resting_id) e2 of
             (ok, e3) \<Rightarrow>
               if \<not> ok then (Threw, None, e3)
               else (case await_authoritative_after_cancel w resting_chan resting_key e3 of
                       (final_rec, e4) \<Rightarrow>
                         let e5 = release_terminal resting_key e4 in
                         if or_status final_rec = Filled
                         then (Done, None, apply_fill_pnl final_rec resting_leg e5)
                         else (let e6 = (if or_filled_qty final_rec > 0
                                         then apply_fill_pnl final_rec resting_leg e5 else e5)
                               in hedge_remaining w resting_leg
                                    (or_qty final_rec - or_filled_qty final_rec) e6))))"

definition monitor_pair ::
    "world \<Rightarrow> string \<Rightarrow> ArbLeg \<Rightarrow> nat \<Rightarrow> string \<Rightarrow> ArbLeg \<Rightarrow> nat \<Rightarrow> engine
     \<Rightarrow> outcome \<times> (string \<times> nat) option \<times> engine" where
  "monitor_pair w id1 leg1 chan1 id2 leg2 chan2 e =
     (let key1 = fnv1a64 id1; key2 = fnv1a64 id2 in
      case first_race chan1 chan2 (w_first w 0) (w_env w 0 e) of
        (None, e1) \<Rightarrow> (Suspended, None, e1)
      | (Some (is1, first_rec), e1) \<Rightarrow>
          if or_status first_rec \<noteq> Filled then
            (if is1 then abandon_pair w key1 chan2 id2 leg2 key2 e1
             else abandon_pair w key2 chan1 id1 leg1 key1 e1)
          else
            (if is1 then complete_pair w first_rec leg1 key1 chan2 id2 leg2 key2 e1
             else complete_pair w first_rec leg2 key2 chan1 id1 leg1 key1 e1))"

text \<open>The monitor together with the completion handler \<open>on_signal\<close> spawns it with.\<close>

definition run_pair ::
    "world \<Rightarrow> string \<Rightarrow> ArbLeg \<Rightarrow> nat \<Rightarrow> string \<Rightarrow> ArbLeg \<Rightarrow> nat \<Rightarrow> engine
     \<Rightarrow> outcome \<times> (string \<times> nat) option \<times> engine" where
  "run_pair w id1 leg1 chan1 id2 leg2 chan2 e =
     (case monitor_pair w id1 leg1 chan1 id2 leg2 chan2 e of
        (res, hedge, e1) \<Rightarrow>
          (res, hedge, if res = Suspended then e1 else clear_inflight (pair_key leg1 leg2) e1))"

definition watch_hedge :: "world \<Rightarrow> string \<Rightarrow> string \<Rightarrow> Side \<Rightarrow> nat \<Rightarrow> engine \<Rightarrow> outcome \<times> engine" where
  "watch_hedge w hedge_id symbol side c e =
     (case receive c (w_env w 4 e) of
        (None, e1) \<Rightarrow> (Suspended, e1)
      | (Some rec, e1) \<Rightarrow>
          (Done, release_terminal (fnv1a64 hedge_id)
             (if or_filled_qty rec > 0
              then apply_fill_pnl rec \<lparr>leg_symbol = symbol, leg_side = side,
                     leg_qty = or_filled_qty rec, leg_price = or_avg_fill_price rec\<rparr> e1
              else e1)))"

text \<open>One tick of the sweeper loop: a cancel for every stale order, in order, until one throws.\<close>

fun cancel_all :: "world \<Rightarrow> OrderRecord list \<Rightarrow> engine \<Rightarrow> bool \<times> engine" where
  "cancel_all w [] e = (True, e)"
| "cancel_all w (rec # stale) e =
     (case await (w_net w) (CancelOrder (view (or_symbol rec)) (view (or_client_order_id rec))) e of
        (ok, e1) \<Rightarrow> if ok then cancel_all w stale e1 else (False, e1))"

definition sweeper_tick :: "world \<Rightarrow> i64 \<Rightarrow> engine \<Rightarrow> bool \<times> engine" where
  "sweeper_tick w max_age e =
     (let e1 = w_env w 5 e
      in cancel_all w (get_stale_orders (snd (w_clock w 5)) max_age (ee_oms e1)) e1)"

section \<open>Invariants of the coroutines\<close>

text \<open>
  A predicate that the small steps of the engine keep is kept by its coroutines, whatever the
  gateway and the other threads do, as long as these keep it too. Each invariant below is one
  interpretation.
\<close>

definition world_keeps :: "(engine \<Rightarrow> bool) \<Rightarrow> world \<Rightarrow> bool" where
  "world_keeps P w \<longleftrightarrow> (\<forall>req e. P e \<longrightarrow> P (snd (w_net w req e))) \<and> (\<forall>i e. P e \<longrightarrow> P (w_env w i e))"

lemma world_keeps_net: "world_keeps P w \<Longrightarrow> P e \<Longrightarrow> w_net w req e = (ok, e') \<Longrightarrow> P e'"
  by (metis snd_conv world_keeps_def)

lemma world_keeps_env: "world_keeps P w \<Longrightarrow> P e \<Longrightarrow> P (w_env w i e)"
  by (simp add: world_keeps_def)

locale engine_invariant =
  fixes P :: "engine \<Rightarrow> bool"
  assumes keeps_seq: "P e \<Longrightarrow> P (e\<lparr>ee_seq := n\<rparr>)"
    and keeps_sent: "P e \<Longrightarrow> P (e\<lparr>ee_sent := rs\<rparr>)"
    and keeps_pairs: "P e \<Longrightarrow> P (e\<lparr>ee_inflight_pairs := ps\<rparr>)"
    and keeps_symbols: "P e \<Longrightarrow> P (e\<lparr>ee_inflight_symbols := ss\<rparr>)"
    and keeps_logs: "P e \<Longrightarrow> P (e\<lparr>ee_halt_log := l\<rparr>)" "P e \<Longrightarrow> P (e\<lparr>ee_capacity_log := l\<rparr>)"
      "P e \<Longrightarrow> P (e\<lparr>ee_dup_log := l\<rparr>)"
    and keeps_register: "P e \<Longrightarrow> P (engine_register now steady cid symbol side px qty e)"
    and keeps_release: "P e \<Longrightarrow> P (release_terminal key e)"
    and keeps_fill: "P e \<Longrightarrow> P (apply_fill_pnl rec leg e)"
    and keeps_waiter: "P e \<Longrightarrow> get_or_create_waiter key e = (c, e') \<Longrightarrow> P e'"
    and keeps_receive: "P e \<Longrightarrow> receive c e = (r, e') \<Longrightarrow> P e'"
begin

lemma keeps_await:
  assumes "world_keeps P w" "P e" "await (w_net w) req e = (ok, e')"
  shows "P e'"
  using world_keeps_net [OF assms(1) keeps_sent [OF assms(2)] assms(3) [unfolded await_def]] .

lemma keeps_next_client_id: "P e \<Longrightarrow> next_client_id e = (cid, e') \<Longrightarrow> P e'"
  using keeps_seq by (auto simp: next_client_id_def)

lemma keeps_clear: "P e \<Longrightarrow> P (clear_inflight key e)"
  by (simp add: clear_inflight_def Let_def keeps_pairs keeps_symbols)

lemma open_pair_keeps:
  assumes "P e" and "open_pair w leg1 leg2 e = (id1, c1, id2, c2, e')"
  shows "P e'"
  using assms unfolding open_pair_def Let_def
  by (force split: prod.splits intro!: keeps_register keeps_pairs keeps_symbols
      elim!: keeps_waiter [rotated] elim: keeps_next_client_id [rotated])

lemma on_signal_keeps:
  assumes w: "world_keeps P w" and P: "P e" and r: "on_signal w leg1 leg2 e = (res, e')"
  shows "P e'"
proof -
  obtain id1 c1 id2 c2 e1 where o: "open_pair w leg1 leg2 e = (id1, c1, id2, c2, e1)"
    by (metis prod_cases5)
  obtain ok1 e2 where s1: "send_leg w id1 leg1 e1 = (ok1, e2)" by fastforce
  obtain ok2 e3 where s2: "send_leg w id2 leg2 e2 = (ok2, e3)" by fastforce
  have e2: "P e2" using keeps_await [OF w open_pair_keeps [OF P o]] s1 unfolding send_leg_def by blast
  have e3: "P e3" using keeps_await [OF w e2] s2 unfolding send_leg_def by blast
  show ?thesis using r P e2 e3
    by (auto simp: on_signal_def Let_def o s1 s2 split: if_splits intro!: keeps_logs keeps_clear)
qed

lemma timed_race_keeps: "P e \<Longrightarrow> timed_race c t e = (r, e') \<Longrightarrow> P e'"
  by (auto simp: timed_race_def split: prod.splits elim: keeps_receive [rotated])

lemma first_race_keeps: "P e \<Longrightarrow> first_race c1 c2 t e = (r, e') \<Longrightarrow> P e'"
  by (auto simp: first_race_def split: prod.splits option.splits
      elim!: keeps_receive [rotated])

lemma await_authoritative_keeps:
  assumes w: "world_keeps P w" and P: "P e"
    and r: "await_authoritative_after_cancel w c key e = (rec, e')"
  shows "P e'"
  using r P unfolding await_authoritative_after_cancel_def Let_def
  by (auto split: option.splits if_splits prod.splits
      elim!: timed_race_keeps [rotated] intro: world_keeps_env [OF w])

lemma hedge_keeps:
  assumes w: "world_keeps P w" and P: "P e" and r: "hedge_remaining w leg q e = (res, h, e')"
  shows "P e'"
  using r P unfolding hedge_remaining_def Let_def
  by (auto split: if_splits prod.splits
      elim!: keeps_await [OF w, rotated] keeps_waiter [rotated] keeps_next_client_id [rotated]
      intro: keeps_register)

lemma abandon_keeps:
  assumes w: "world_keeps P w" and P: "P e" and r: "abandon_pair w fk c rid leg rk e = (res, h, e')"
  shows "P e'"
  using r keeps_release [OF P, of fk] unfolding abandon_pair_def Let_def
  by (auto split: if_splits prod.splits
      intro!: keeps_release keeps_fill
      elim!: hedge_keeps [OF w, rotated] await_authoritative_keeps [OF w, rotated]
        keeps_await [OF w, rotated])

lemma complete_keeps:
  assumes w: "world_keeps P w" and P: "P e"
    and r: "complete_pair w fr fl fk c rid leg rk e = (res, h, e')"
  shows "P e'"
proof -
  let ?e1 = "release_terminal fk (apply_fill_pnl fr fl e)"
  obtain rr e2 where t: "timed_race c (w_first w 1) (w_env w 1 ?e1) = (rr, e2)" by fastforce
  have e2: "P e2"
    by (rule timed_race_keeps [OF world_keeps_env [OF w] t]) (rule keeps_release [OF keeps_fill [OF P]])
  show ?thesis
  proof (cases rr)
    case None
    then show ?thesis using r e2 unfolding complete_pair_def Let_def t
      by (auto split: if_splits prod.splits intro!: keeps_release keeps_fill
          elim!: hedge_keeps [OF w, rotated] await_authoritative_keeps [OF w, rotated]
            keeps_await [OF w, rotated])
  next
    case (Some rec)
    then show ?thesis using r e2 unfolding complete_pair_def Let_def t
      by (auto split: if_splits intro!: keeps_release keeps_fill elim!: hedge_keeps [OF w, rotated])
  qed
qed

lemma monitor_pair_keeps:
  assumes w: "world_keeps P w" and P: "P e"
    and r: "monitor_pair w id1 leg1 c1 id2 leg2 c2 e = (res, h, e')"
  shows "P e'"
proof -
  obtain fr e1 where f: "first_race c1 c2 (w_first w 0) (w_env w 0 e) = (fr, e1)" by fastforce
  have e1: "P e1" by (rule first_race_keeps [OF world_keeps_env [OF w P] f])
  show ?thesis using r e1 unfolding monitor_pair_def Let_def f
    by (auto split: option.splits prod.splits if_splits
        elim!: abandon_keeps [OF w e1] complete_keeps [OF w e1])
qed

lemma run_pair_keeps:
  assumes w: "world_keeps P w" and P: "P e"
    and r: "run_pair w id1 leg1 c1 id2 leg2 c2 e = (res, h, e')"
  shows "P e'"
proof -
  obtain res1 h1 e1 where m: "monitor_pair w id1 leg1 c1 id2 leg2 c2 e = (res1, h1, e1)"
    using prod_cases3 by blast
  from monitor_pair_keeps [OF w P m] r show ?thesis
    by (auto simp: run_pair_def m keeps_clear split: if_splits)
qed

lemma watch_hedge_keeps:
  assumes w: "world_keeps P w" and P: "P e" and r: "watch_hedge w hid symbol side c e = (res, e')"
  shows "P e'"
proof -
  obtain rr e1 where c: "receive c (w_env w 4 e) = (rr, e1)" by fastforce
  have "P e1" by (rule keeps_receive [OF world_keeps_env [OF w P] c])
  then show ?thesis using r
    by (auto simp: watch_hedge_def c split: option.splits if_splits intro!: keeps_release keeps_fill)
qed

lemma cancel_all_keeps:
  assumes w: "world_keeps P w" and P: "P e" and r: "cancel_all w rs e = (ok, e')"
  shows "P e'"
  using P r by (induction rs arbitrary: e)
    (auto split: prod.splits if_splits dest: keeps_await [OF w])

lemma sweeper_keeps:
  assumes w: "world_keeps P w" and P: "P e" and r: "sweeper_tick w age e = (ok, e')"
  shows "P e'"
  using r cancel_all_keeps [OF w world_keeps_env [OF w P]] by (auto simp: sweeper_tick_def Let_def)

end

section \<open>The halt flag and the structural invariant\<close>

lemma count_status_frame [simp]:
  "ee_oms (count_status st e) = ee_oms e" "ee_pnl (count_status st e) = ee_pnl e"
  "ee_waiters (count_status st e) = ee_waiters e" "ee_chans (count_status st e) = ee_chans e"
  "ee_sent (count_status st e) = ee_sent e"
  "ee_inflight_symbols (count_status st e) = ee_inflight_symbols e"
  "ee_inflight_pairs (count_status st e) = ee_inflight_pairs e"
  "ee_seq (count_status st e) = ee_seq e" "ee_max_open_orders (count_status st e) = ee_max_open_orders e"
  by (simp_all add: count_status_def Let_def)

lemma try_send_frame [simp]:
  "ee_oms (snd (try_send c rec e)) = ee_oms e" "ee_pnl (snd (try_send c rec e)) = ee_pnl e"
  "ee_waiters (snd (try_send c rec e)) = ee_waiters e" "ee_sent (snd (try_send c rec e)) = ee_sent e"
  "ee_halted (snd (try_send c rec e)) = ee_halted e"
  "ee_consecutive_rejects (snd (try_send c rec e)) = ee_consecutive_rejects e"
  "ee_inflight_symbols (snd (try_send c rec e)) = ee_inflight_symbols e"
  "ee_inflight_pairs (snd (try_send c rec e)) = ee_inflight_pairs e"
  "ee_seq (snd (try_send c rec e)) = ee_seq e"
  "ee_max_open_orders (snd (try_send c rec e)) = ee_max_open_orders e"
  by (simp_all add: try_send_def)

lemma dispatch_frame [simp]:
  "ee_oms (dispatch_update rec e) = ee_oms e" "ee_pnl (dispatch_update rec e) = ee_pnl e"
  "ee_waiters (dispatch_update rec e) = ee_waiters e" "ee_sent (dispatch_update rec e) = ee_sent e"
  "ee_inflight_symbols (dispatch_update rec e) = ee_inflight_symbols e"
  "ee_inflight_pairs (dispatch_update rec e) = ee_inflight_pairs e"
  "ee_seq (dispatch_update rec e) = ee_seq e"
  "ee_max_open_orders (dispatch_update rec e) = ee_max_open_orders e"
  "ee_halted (dispatch_update rec e) = ee_halted (count_status (or_status rec) e)"
  "ee_consecutive_rejects (dispatch_update rec e) =
     ee_consecutive_rejects (count_status (or_status rec) e)"
  by (simp_all add: dispatch_update_def Let_def split: option.splits)

lemma dispatch_keeps_halt: "ee_halted e \<Longrightarrow> ee_halted (dispatch_update rec e)"
  by (simp add: count_status_def Let_def)

lemma fold_dispatch_halt: "ee_halted e \<Longrightarrow> ee_halted (fold dispatch_update recs e)"
  by (induction recs arbitrary: e) (simp_all add: dispatch_keeps_halt del: dispatch_frame)

lemma fold_dispatch_frame [simp]:
  "ee_oms (fold dispatch_update recs e) = ee_oms e" "ee_pnl (fold dispatch_update recs e) = ee_pnl e"
  "ee_waiters (fold dispatch_update recs e) = ee_waiters e"
  "ee_sent (fold dispatch_update recs e) = ee_sent e"
  "ee_inflight_symbols (fold dispatch_update recs e) = ee_inflight_symbols e"
  "ee_inflight_pairs (fold dispatch_update recs e) = ee_inflight_pairs e"
  "ee_seq (fold dispatch_update recs e) = ee_seq e"
  "ee_max_open_orders (fold dispatch_update recs e) = ee_max_open_orders e"
  by (induction recs arbitrary: e) simp_all

interpretation halt_sticky: engine_invariant ee_halted
  by unfold_locales
    (auto simp: engine_register_def release_terminal_def apply_fill_pnl_def get_or_create_waiter_def
      receive_def Let_def fold_dispatch_halt split: prod.splits option.splits)

text \<open>
  The structural invariant: the order store's and the book's own invariants, every registered waiter
  names an existing channel, and no channel holds more than \<open>kChanBuffer\<close> messages.
\<close>

definition engine_ok :: "engine \<Rightarrow> bool" where
  "engine_ok e \<longleftrightarrow> oms_inv (ee_oms e) \<and> book_ok (ee_pnl e) \<and>
     (\<forall>k c. ee_waiters e k = Some c \<longrightarrow> c < length (ee_chans e)) \<and>
     (\<forall>buf \<in> set (ee_chans e). length buf \<le> kChanBuffer)"

lemma wait_length: "wait_for_terminal_or_filled buf = (r, rest) \<Longrightarrow> length rest \<le> length buf"
  by (induction buf) (auto split: if_splits)

lemma chans_update_ok:
  assumes "\<forall>buf \<in> set cs. length buf \<le> n" and "length b \<le> n"
  shows "\<forall>buf \<in> set (cs[c := b]). length buf \<le> n"
  using assms set_update_subset_insert [of cs c b] by auto

lemma try_send_ok: "engine_ok e \<Longrightarrow> engine_ok (snd (try_send c rec e))"
  using chans_update_ok [of "ee_chans e" kChanBuffer "ee_chans e ! c @ [rec]" c]
  by (simp add: engine_ok_def try_send_def)

lemma dispatch_ok: "engine_ok e \<Longrightarrow> engine_ok (dispatch_update rec e)"
proof -
  assume "engine_ok e"
  then have "engine_ok (count_status (or_status rec) e)" by (simp add: engine_ok_def)
  then show ?thesis
    by (auto simp: dispatch_update_def Let_def try_send_ok split: option.splits)
qed

lemma fold_dispatch_ok: "engine_ok e \<Longrightarrow> engine_ok (fold dispatch_update recs e)"
  by (induction recs arbitrary: e) (simp_all add: dispatch_ok)

lemma engine_register_ok:
  assumes "engine_ok e"
  shows "engine_ok (engine_register now steady cid sy side px qty e)"
proof -
  obtain k f s' where r: "register_new_order now steady cid sy side px qty (ee_oms e) = (k, f, s')"
    using prod_cases3 by blast
  have "engine_ok (e\<lparr>ee_oms := s'\<rparr>)"
    using assms register_store(1) [OF _ r] by (simp add: engine_ok_def)
  then show ?thesis by (simp add: engine_register_def r fold_dispatch_ok)
qed

lemma engine_update_ok:
  assumes "engine_ok e"
  shows "engine_ok (snd (engine_update key st cum px ex ev com e))"
proof -
  obtain k f s' where r: "apply_update key st cum px ex ev com (ee_oms e) = (k, f, s')"
    using prod_cases3 by blast
  have "engine_ok (e\<lparr>ee_oms := s'\<rparr>)"
    using assms apply_update_store(1) [OF _ r] by (simp add: engine_ok_def)
  then show ?thesis by (simp add: engine_update_def r fold_dispatch_ok)
qed

lemma book_ok_ops:
  "book_ok b \<Longrightarrow> book_ok (apply_fill symbol side d p b)"
  "book_ok b \<Longrightarrow> book_ok (apply_commission symbol c b)"
  using pnl_store.inv_step [of b "Fill symbol side d p"] pnl_store.inv_step [of b "Commission symbol c"]
  by simp_all

interpretation structure_kept: engine_invariant engine_ok
proof unfold_locales
  fix e :: engine and key c e'
  assume ok: "engine_ok e"
  show "engine_ok (release_terminal key e)"
    using ok release_store(1) by (auto simp: engine_ok_def release_terminal_def)
  show "get_or_create_waiter key e = (c, e') \<Longrightarrow> engine_ok e'"
    using ok by (auto simp: engine_ok_def get_or_create_waiter_def less_Suc_eq split: option.splits if_splits)
next
  fix e :: engine and c r e'
  assume ok: "engine_ok e" and rcv: "receive c e = (r, e')"
  obtain buf where w: "wait_for_terminal_or_filled (ee_chans e ! c) = (r, buf)"
    and e': "e' = e\<lparr>ee_chans := (ee_chans e)[c := buf]\<rparr>"
    using rcv by (auto simp: receive_def split: prod.splits)
  have "\<forall>b \<in> set (ee_chans e'). length b \<le> kChanBuffer"
  proof (cases "c < length (ee_chans e)")
    case True
    then have "length (ee_chans e ! c) \<le> kChanBuffer" using ok by (simp add: engine_ok_def)
    with wait_length [OF w] have "length buf \<le> kChanBuffer" by simp
    with ok chans_update_ok [of "ee_chans e" kChanBuffer buf c] show ?thesis
      unfolding e' by (simp add: engine_ok_def)
  next
    case False
    then have "(ee_chans e)[c := buf] = ee_chans e" by (intro list_update_beyond) simp
    with ok show ?thesis by (simp add: e' engine_ok_def)
  qed
  with ok show "engine_ok e'" by (simp add: e' engine_ok_def)
qed (simp_all add: engine_register_ok, simp_all add: engine_ok_def apply_fill_pnl_def Let_def book_ok_ops)

lemma ExecutionEngine_ok [holo_inv]: "oms_inv s \<Longrightarrow> engine_ok (ExecutionEngine s n)"
  by (simp add: engine_ok_def ExecutionEngine_def book_ok_def)

lemma quiet_world_keeps: "world_keeps P \<lparr>w_net = \<lambda>req e. (ok, e), w_env = \<lambda>i e. e, w_first = f, w_clock = k\<rparr>"
  by (simp add: world_keeps_def)

text \<open>
  (C7) Every entry point of the engine keeps its structure sound: order store, profit book, waiter
  registry and bounded channels stay well formed through a signal, a monitored pair, a hedge watch,
  a sweep and an order update, for any gateway and any interleaved threads that do so themselves.
\<close>

theorem engine_structure_kept:
  assumes w: "world_keeps engine_ok w" and ok: "engine_ok e"
  shows "engine_ok (snd (on_signal w leg1 leg2 e)) \<and>
         engine_ok (snd (snd (run_pair w id1 leg1 c1 id2 leg2 c2 e))) \<and>
         engine_ok (snd (watch_hedge w hid symbol side c e)) \<and>
         engine_ok (snd (sweeper_tick w age e)) \<and>
         engine_ok (snd (engine_update key st cum px ex ev com e))"
proof -
  have "engine_ok (snd (on_signal w leg1 leg2 e))"
    by (rule structure_kept.on_signal_keeps [OF w ok]) (rule surjective_pairing)
  moreover have "engine_ok (snd (snd (run_pair w id1 leg1 c1 id2 leg2 c2 e)))"
    using structure_kept.run_pair_keeps [OF w ok, of id1 leg1 c1 id2 leg2 c2]
    by (cases "run_pair w id1 leg1 c1 id2 leg2 c2 e") auto
  moreover have "engine_ok (snd (watch_hedge w hid symbol side c e))"
    by (rule structure_kept.watch_hedge_keeps [OF w ok]) (rule surjective_pairing)
  moreover have "engine_ok (snd (sweeper_tick w age e))"
    by (rule structure_kept.sweeper_keeps [OF w ok]) (rule surjective_pairing)
  ultimately show ?thesis using engine_update_ok [OF ok] by blast
qed

theorem engine_structure_kept_witness:
  "engine_ok (snd (on_signal \<lparr>w_net = \<lambda>req e. (True, e), w_env = \<lambda>i e. e, w_first = \<lambda>_. True,
        w_clock = \<lambda>_. (0, 0)\<rparr>
      \<lparr>leg_symbol = ''BTCUSDT'', leg_side = Buy, leg_qty = 1, leg_price = 100\<rparr>
      \<lparr>leg_symbol = ''ETHUSDT'', leg_side = Sell, leg_qty = 2, leg_price = 50\<rparr>
      (ExecutionEngine OMSCore 40)))"
  by (rule engine_structure_kept [OF quiet_world_keeps ExecutionEngine_ok [OF OMSCore_inv],
        THEN conjunct1])

text \<open>
  (C8) The halt is final until an operator resets it: with the flag set a signal is dropped with no
  order registered and nothing sent, and every other activity of the engine (monitors, hedges,
  sweeps, updates, drawdown checks) leaves the flag set.
\<close>

theorem halt_blocks_orders:
  assumes w: "world_keeps ee_halted w" and h: "ee_halted e"
  shows "fst (on_signal w leg1 leg2 e) = Dropped \<and>
         ee_sent (snd (on_signal w leg1 leg2 e)) = ee_sent e \<and>
         ee_oms (snd (on_signal w leg1 leg2 e)) = ee_oms e \<and>
         ee_halted (snd (on_signal w leg1 leg2 e)) \<and>
         ee_halted (snd (snd (run_pair w id1 leg1 c1 id2 leg2 c2 e))) \<and>
         ee_halted (snd (watch_hedge w hid symbol side c e)) \<and>
         ee_halted (snd (sweeper_tick w age e)) \<and>
         ee_halted (snd (engine_update key st cum px ex ev com e)) \<and>
         ee_halted (check_drawdown pnl limit e)"
proof -
  have "ee_halted (snd (snd (run_pair w id1 leg1 c1 id2 leg2 c2 e)))"
    using halt_sticky.run_pair_keeps [OF w h, of id1 leg1 c1 id2 leg2 c2]
    by (cases "run_pair w id1 leg1 c1 id2 leg2 c2 e") auto
  moreover have "ee_halted (snd (watch_hedge w hid symbol side c e))"
    by (rule halt_sticky.watch_hedge_keeps [OF w h]) (rule surjective_pairing)
  moreover have "ee_halted (snd (sweeper_tick w age e))"
    by (rule halt_sticky.sweeper_keeps [OF w h]) (rule surjective_pairing)
  moreover have "ee_halted (snd (engine_update key st cum px ex ev com e))"
    using h by (auto simp: engine_update_def fold_dispatch_halt split: prod.splits)
  ultimately show ?thesis using h by (simp add: on_signal_def check_drawdown_def Let_def)
qed

theorem halt_blocks_orders_witness:
  "ee_sent (snd (on_signal \<lparr>w_net = \<lambda>req e. (True, e), w_env = \<lambda>i e. e, w_first = \<lambda>_. True,
        w_clock = \<lambda>_. (0, 0)\<rparr>
      \<lparr>leg_symbol = ''BTCUSDT'', leg_side = Buy, leg_qty = 1, leg_price = 100\<rparr>
      \<lparr>leg_symbol = ''ETHUSDT'', leg_side = Sell, leg_qty = 2, leg_price = 50\<rparr>
      (force_halt (ExecutionEngine OMSCore 40)))) = []"
proof -
  let ?e = "force_halt (ExecutionEngine OMSCore 40)"
  have h: "ee_halted ?e" by (simp add: force_halt_def)
  have "ee_sent ?e = []" by (simp add: force_halt_def ExecutionEngine_def)
  then show ?thesis using halt_blocks_orders [OF quiet_world_keeps h] by simp
qed

section \<open>Circuit breaker and drawdown switch\<close>

text \<open>
  The number of rejections before the next record that reports an open or filled order.
\<close>

definition reject_run :: "OrderRecord list \<Rightarrow> nat" where
  "reject_run recs = length (filter (\<lambda>r. or_status r = Rejected)
     (takeWhile (\<lambda>r. or_status r \<noteq> Open \<and> or_status r \<noteq> Filled) recs))"

lemma reject_run_Cons:
  "reject_run (r # recs) =
     (if or_status r = Open \<or> or_status r = Filled then 0
      else (if or_status r = Rejected then 1 else 0) + reject_run recs)"
  by (simp add: reject_run_def)

lemma ex_drop_Cons: "(\<exists>i. Q (drop i (x # xs))) \<longleftrightarrow> Q (x # xs) \<or> (\<exists>i. Q (drop i xs))"
  by (metis drop0 drop_Suc_Cons not0_implies_Suc)

lemma breaker_run:
  assumes "\<not> ee_halted e" and "0 \<le> ee_consecutive_rejects e" and "ee_consecutive_rejects e < 5"
  shows "ee_halted (fold dispatch_update recs e) \<longleftrightarrow>
     5 \<le> ee_consecutive_rejects e + int (reject_run recs) \<or> (\<exists>i. 5 \<le> reject_run (drop i recs))"
  using assms
proof (induction recs arbitrary: e)
  case Nil
  then show ?case by (simp add: reject_run_def)
next
  case (Cons r recs)
  let ?e = "dispatch_update r e"
  show ?case
  proof (cases "or_status r = Rejected \<and> 5 \<le> ee_consecutive_rejects e + 1")
    case True
    then have "ee_halted ?e" using Cons.prems
      by (simp add: count_status_def kMaxConsecutiveRejects_def Let_def)
    then have "ee_halted (fold dispatch_update (r # recs) e)"
      using fold_dispatch_halt [of ?e recs] by (simp del: dispatch_frame)
    moreover have "5 \<le> ee_consecutive_rejects e + int (reject_run (r # recs))"
      using True by (simp add: reject_run_Cons)
    ultimately show ?thesis by blast
  next
    case False
    then have n: "\<not> ee_halted ?e" "ee_consecutive_rejects ?e =
        (if or_status r = Rejected then ee_consecutive_rejects e + 1
         else if or_status r = Open \<or> or_status r = Filled then 0 else ee_consecutive_rejects e)"
      using Cons.prems by (auto simp: count_status_def kMaxConsecutiveRejects_def Let_def)
    moreover have "0 \<le> ee_consecutive_rejects ?e" "ee_consecutive_rejects ?e < 5"
      using n False Cons.prems by (auto split: if_splits simp del: dispatch_frame)
    ultimately have "ee_halted (fold dispatch_update (r # recs) e) \<longleftrightarrow>
        5 \<le> ee_consecutive_rejects ?e + int (reject_run recs) \<or> (\<exists>i. 5 \<le> reject_run (drop i recs))"
      using Cons.IH [of ?e] by (simp del: dispatch_frame)
    also have "\<dots> \<longleftrightarrow> 5 \<le> ee_consecutive_rejects e + int (reject_run (r # recs)) \<or>
        (\<exists>i. 5 \<le> reject_run (drop i (r # recs)))"
      unfolding ex_drop_Cons [of "\<lambda>l. 5 \<le> reject_run l"] n(2) using Cons.prems(2,3)
      by (auto simp: reject_run_Cons intro: exI [of _ 0])
    finally show ?thesis .
  qed
qed

text \<open>
  (C3) The circuit breaker is exact: starting from a fresh count, a sequence of order updates trips
  it if and only if somewhere in the sequence five rejections arrive with no open or filled report
  between them; partial fills, cancellations and registrations neither count nor reset.
\<close>

theorem breaker_exact:
  assumes "\<not> ee_halted e" and "ee_consecutive_rejects e = 0"
  shows "ee_halted (fold dispatch_update recs e) \<longleftrightarrow> (\<exists>i. 5 \<le> reject_run (drop i recs))"
  using breaker_run [OF assms(1), of recs] assms(2) by (auto intro: exI [of _ 0])

theorem breaker_exact_witness:
  "ee_halted (fold dispatch_update (replicate 5 (empty_record\<lparr>or_status := Rejected\<rparr>))
     (ExecutionEngine OMSCore 40)) \<and>
   \<not> ee_halted (fold dispatch_update (replicate 4 (empty_record\<lparr>or_status := Rejected\<rparr>))
     (ExecutionEngine OMSCore 40))"
proof -
  let ?r = "empty_record\<lparr>or_status := Rejected\<rparr>"
  let ?e = "ExecutionEngine OMSCore 40"
  have e: "\<not> ee_halted ?e" "ee_consecutive_rejects ?e = 0" by (simp_all add: ExecutionEngine_def)
  have run: "reject_run (replicate n ?r) = n" for n by (simp add: reject_run_def)
  have "\<exists>i. 5 \<le> reject_run (drop i (replicate 5 ?r))" by (rule exI [of _ 0]) (simp add: run)
  moreover have "\<not> (\<exists>i. 5 \<le> reject_run (drop i (replicate 4 ?r)))" by (auto simp: run)
  ultimately show ?thesis using breaker_exact [OF e] by blast
qed

lemma drawdown_peak:
  "ee_pnl_high_water_mark (check_drawdown p limit e) = max (ee_pnl_high_water_mark e) p"
  by (simp add: check_drawdown_def Let_def)

lemma drawdown_halt:
  "ee_halted (check_drawdown p limit e) \<longleftrightarrow>
     ee_halted e \<or> limit \<le> max (ee_pnl_high_water_mark e) p - p"
  by (simp add: check_drawdown_def Let_def max_def)

lemma drawdown_run:
  "ee_pnl_high_water_mark (fold (\<lambda>p. check_drawdown p limit) ps e) =
     foldl max (ee_pnl_high_water_mark e) ps \<and>
   (ee_halted (fold (\<lambda>p. check_drawdown p limit) ps e) \<longleftrightarrow> ee_halted e \<or>
     (\<exists>i < length ps. limit \<le> foldl max (ee_pnl_high_water_mark e) (take (Suc i) ps) - ps ! i))"
proof (induction ps arbitrary: e)
  case (Cons p ps)
  have ex: "(\<exists>i < length (p # ps). Q i) \<longleftrightarrow> Q 0 \<or> (\<exists>i < length ps. Q (Suc i))" for Q
    by (auto simp: less_Suc_eq_0_disj)
  show ?case
    using Cons.IH [of "check_drawdown p limit e"] unfolding ex fold_simps(2)
    by (simp add: drawdown_peak drawdown_halt disj_assoc)
qed simp

text \<open>
  The drawdown switch is exact: over a series of profit readings with a positive limit, the
  recorded peak is the maximum of zero and the readings so far, and the engine halts if and only if
  some reading lies at least the limit below the peak of the readings up to it.
\<close>

theorem drawdown_exact:
  assumes "e' = fold (\<lambda>p. check_drawdown p limit) ps (ExecutionEngine s n)"
  shows "ee_pnl_high_water_mark e' = foldl max 0 ps \<and>
    (ee_halted e' \<longleftrightarrow> (\<exists>i < length ps. limit \<le> foldl max 0 (take (Suc i) ps) - ps ! i))"
  using drawdown_run [of limit ps "ExecutionEngine s n"] by (simp add: assms ExecutionEngine_def)

theorem drawdown_exact_witness:
  "ee_halted (fold (\<lambda>p. check_drawdown p 1000) [2000, 5000, 4100, 4000] (ExecutionEngine OMSCore 40))"
proof -
  have "\<exists>i < length [2000, 5000, 4100, 4000 :: real].
      1000 \<le> foldl max 0 (take (Suc i) [2000, 5000, 4100, 4000 :: real]) - [2000, 5000, 4100, 4000] ! i"
    by (rule exI [of _ 3]) (simp add: numeral_3_eq_3)
  then show ?thesis using drawdown_exact [OF refl, of 1000 "[2000, 5000, 4100, 4000]" OMSCore 40] by blast
qed

section \<open>Client ids and routing\<close>

lemma client_id_facts:
  assumes "next_client_id e = (cid, e')"
  shows "NUL \<notin> set cid" "length cid \<le> 25" "view (make_client_id cid) = cid"
proof -
  have cid: "cid = ''holo-'' @ to_string (unat (ee_seq e))" using assms by (simp add: next_client_id_def)
  have "\<not> is_digit NUL" by (simp add: is_digit_def)
  then show n: "NUL \<notin> set cid" using to_string_digits [of "unat (ee_seq e)"] by (auto simp: cid)
  have "unat (ee_seq e) < 10 ^ 20" by (rule less_trans [OF unat_lt_64]) simp
  from to_string_length [OF this] show l: "length cid \<le> 25" by (simp add: cid)
  show "view (make_client_id cid) = cid"
    using view_make_buf [OF n, of 40] l by (simp add: make_client_id_def)
qed

lemma record_cid [simp]:
  "or_client_order_id (new_record now steady cid sy side px qty) = make_client_id cid"
  "or_client_order_id (update_record st cum px' ex ev com r) = or_client_order_id r"
  by (simp_all add: new_record_def update_record_def Let_def)

lemma dispatch_delivers:
  assumes "ee_waiters e (fnv1a64 (view (or_client_order_id rec))) = Some c"
    and "c < length (ee_chans e)" and "length (ee_chans e ! c) < kChanBuffer"
  shows "ee_chans (dispatch_update rec e) = (ee_chans e)[c := ee_chans e ! c @ [rec]]"
  using assms by (simp add: dispatch_update_def try_send_def Let_def)

lemma count_pending [simp]: "count_status PendingNew e = e"
  by (simp add: count_status_def)

lemma register_oms_frame:
  "register_new_order now steady cid sy side px qty s = (k, f, s') \<Longrightarrow> oms_on_update s' = oms_on_update s"
  by (auto simp: register_new_order_def alloc_slot_locked_def Let_def split: if_splits)

lemma engine_register_facts:
  assumes "oms_inv (ee_oms e)"
    and e': "e' = engine_register now steady cid sy side px qty e"
  shows "oms_get (ee_oms e') = (oms_get (ee_oms e))(fnv1a64 cid \<mapsto> new_record now steady cid sy side px qty)"
    "oms_inv (ee_oms e')" "oms_on_update (ee_oms e') = oms_on_update (ee_oms e)"
    "ee_pnl e' = ee_pnl e" "ee_waiters e' = ee_waiters e" "ee_sent e' = ee_sent e"
    "ee_inflight_symbols e' = ee_inflight_symbols e" "ee_inflight_pairs e' = ee_inflight_pairs e"
    "ee_seq e' = ee_seq e" "ee_max_open_orders e' = ee_max_open_orders e"
proof -
  obtain k f s' where r: "register_new_order now steady cid sy side px qty (ee_oms e) = (k, f, s')"
    using prod_cases3 by blast
  note st = register_store [OF assms(1) r]
  show "oms_get (ee_oms e') = (oms_get (ee_oms e))(fnv1a64 cid \<mapsto> new_record now steady cid sy side px qty)"
    "oms_inv (ee_oms e')" "oms_on_update (ee_oms e') = oms_on_update (ee_oms e)"
    "ee_pnl e' = ee_pnl e" "ee_waiters e' = ee_waiters e" "ee_sent e' = ee_sent e"
    "ee_inflight_symbols e' = ee_inflight_symbols e" "ee_inflight_pairs e' = ee_inflight_pairs e"
    "ee_seq e' = ee_seq e" "ee_max_open_orders e' = ee_max_open_orders e"
    using st register_oms_frame [OF r] by (simp_all add: e' engine_register_def r)
qed

lemma engine_register_chans:
  assumes "oms_inv (ee_oms e)" and "ee_waiters e (fnv1a64 cid) = None"
    and "view (make_client_id cid) = cid"
  shows "ee_chans (engine_register now steady cid sy side px qty e) = ee_chans e"
proof -
  obtain k f s' where r: "register_new_order now steady cid sy side px qty (ee_oms e) = (k, f, s')"
    using prod_cases3 by blast
  have "f = [] \<or> f = [new_record now steady cid sy side px qty]"
    using register_store(4) [OF assms(1) r] by auto
  then show ?thesis using assms(2,3)
    by (auto simp: engine_register_def r dispatch_update_def Let_def)
qed

lemma waiter_facts:
  assumes "get_or_create_waiter key e = (c, e')"
  shows "ee_oms e' = ee_oms e" "ee_pnl e' = ee_pnl e" "ee_sent e' = ee_sent e"
    "ee_inflight_symbols e' = ee_inflight_symbols e" "ee_inflight_pairs e' = ee_inflight_pairs e"
    "ee_waiters e' = (ee_waiters e)(key \<mapsto> c)" "ee_seq e' = ee_seq e"
    "ee_max_open_orders e' = ee_max_open_orders e"
    "ee_waiters e key = None \<Longrightarrow> ee_chans e' = ee_chans e @ [[]] \<and> c = length (ee_chans e)"
  using assms by (auto simp: get_or_create_waiter_def split: option.splits)

definition client_id :: "u64 \<Rightarrow> string" where
  "client_id n = ''holo-'' @ to_string (unat n)"

lemma open_pair_facts:
  assumes inv: "oms_inv (ee_oms e)" and op: "open_pair w leg1 leg2 e = (id1, c1, id2, c2, e')"
  shows "id1 = client_id (ee_seq e)" "id2 = client_id (ee_seq e + 1)" "ee_seq e' = ee_seq e + 2"
    "ee_sent e' = ee_sent e" "ee_pnl e' = ee_pnl e" "oms_inv (ee_oms e')"
    "ee_inflight_pairs e' = insert (pair_key leg1 leg2) (ee_inflight_pairs e)"
    "ee_inflight_symbols e' =
       insert (leg_symbol leg2) (insert (leg_symbol leg1) (ee_inflight_symbols e))"
    "oms_get (ee_oms e') = (oms_get (ee_oms e))
       (fnv1a64 id1 \<mapsto> new_record (fst (w_clock w 1)) (snd (w_clock w 1)) id1 (leg_symbol leg1)
          (leg_side leg1) (leg_price leg1) (leg_qty leg1),
        fnv1a64 id2 \<mapsto> new_record (fst (w_clock w 2)) (snd (w_clock w 2)) id2 (leg_symbol leg2)
          (leg_side leg2) (leg_price leg2) (leg_qty leg2))"
    "ee_waiters e' = (ee_waiters e)(fnv1a64 id1 \<mapsto> c1, fnv1a64 id2 \<mapsto> c2)"
    "oms_on_update (ee_oms e') = oms_on_update (ee_oms e)"
    "ee_max_open_orders e' = ee_max_open_orders e"
proof -
  define e3 where "e3 = e\<lparr>ee_inflight_pairs := insert (pair_key leg1 leg2) (ee_inflight_pairs e),
      ee_inflight_symbols := insert (leg_symbol leg2) (insert (leg_symbol leg1) (ee_inflight_symbols e)),
      ee_seq := ee_seq e + 2\<rparr>"
  define e4 where "e4 = engine_register (fst (w_clock w 1)) (snd (w_clock w 1)) id1 (leg_symbol leg1)
                 (leg_side leg1) (leg_price leg1) (leg_qty leg1) e3"
  define e5 where "e5 = engine_register (fst (w_clock w 2)) (snd (w_clock w 2)) id2 (leg_symbol leg2)
                 (leg_side leg2) (leg_price leg2) (leg_qty leg2) e4"
  obtain e6 where ids: "id1 = client_id (ee_seq e)" "id2 = client_id (ee_seq e + 1)"
    and g1: "get_or_create_waiter (fnv1a64 id1) e5 = (c1, e6)"
    and g2: "get_or_create_waiter (fnv1a64 id2) e6 = (c2, e')"
    using op by (auto simp: open_pair_def next_client_id_def Let_def client_id_def e3_def e4_def e5_def
        add.assoc split: prod.splits)
  have inv3: "oms_inv (ee_oms e3)" using inv by (simp add: e3_def)
  note r4 = engine_register_facts [OF inv3 e4_def]
  note r5 = engine_register_facts [OF r4(2) e5_def]
  note fr = waiter_facts [OF g1] waiter_facts [OF g2] r5 r4
  show "id1 = client_id (ee_seq e)" "id2 = client_id (ee_seq e + 1)" by (fact ids)+
  show "ee_seq e' = ee_seq e + 2" "ee_sent e' = ee_sent e" "ee_pnl e' = ee_pnl e" "oms_inv (ee_oms e')"
    "ee_inflight_pairs e' = insert (pair_key leg1 leg2) (ee_inflight_pairs e)"
    "ee_inflight_symbols e' =
       insert (leg_symbol leg2) (insert (leg_symbol leg1) (ee_inflight_symbols e))"
    "oms_get (ee_oms e') = (oms_get (ee_oms e))
       (fnv1a64 id1 \<mapsto> new_record (fst (w_clock w 1)) (snd (w_clock w 1)) id1 (leg_symbol leg1)
          (leg_side leg1) (leg_price leg1) (leg_qty leg1),
        fnv1a64 id2 \<mapsto> new_record (fst (w_clock w 2)) (snd (w_clock w 2)) id2 (leg_symbol leg2)
          (leg_side leg2) (leg_price leg2) (leg_qty leg2))"
    "ee_waiters e' = (ee_waiters e)(fnv1a64 id1 \<mapsto> c1, fnv1a64 id2 \<mapsto> c2)"
    "oms_on_update (ee_oms e') = oms_on_update (ee_oms e)"
    "ee_max_open_orders e' = ee_max_open_orders e"
    using fr by (simp_all add: e3_def)
qed

text \<open>
  Updates are routed to the coroutine that waits for them: for an order registered under an id
  of \<open>next_client_id\<close>, an update applied to the store is appended, as the record the store now
  holds, to the channel registered under the order's key, and to no other channel.
\<close>

theorem update_reaches_waiter:
  assumes ok: "engine_ok e" and cb: "oms_on_update (ee_oms e)"
    and cid: "next_client_id e0 = (cid, e1)"
    and order: "oms_get (ee_oms e) (fnv1a64 cid) = Some r" "or_client_order_id r = make_client_id cid"
    and waiter: "ee_waiters e (fnv1a64 cid) = Some c" "length (ee_chans e ! c) < kChanBuffer"
    and upd: "engine_update (fnv1a64 cid) st cum px ex ev com e = (done, e')"
  shows "done \<and> (\<exists>r'. oms_get (ee_oms e') (fnv1a64 cid) = Some r' \<and> or_status r' = st \<and>
           ee_chans e' = (ee_chans e)[c := ee_chans e ! c @ [r']])"
proof -
  obtain f s' where a: "apply_update (fnv1a64 cid) st cum px ex ev com (ee_oms e) = (done, f, s')"
    and e': "e' = fold dispatch_update f (e\<lparr>ee_oms := s'\<rparr>)"
    using upd by (auto simp: engine_update_def split: prod.splits)
  have inv: "oms_inv (ee_oms e)" using ok by (simp add: engine_ok_def)
  let ?r = "update_record st cum px ex ev com r"
  note st = apply_update_store [OF inv a]
  have d: "done" and g: "oms_get s' (fnv1a64 cid) = Some ?r" and f: "f = [?r]"
    using st(2-4) order(1) cb by simp_all
  have key: "fnv1a64 (view (or_client_order_id r)) = fnv1a64 cid"
    using client_id_facts(3) [OF cid] order(2) by simp
  have c: "c < length (ee_chans e)" using ok waiter(1) by (auto simp: engine_ok_def)
  have "ee_chans e' = (ee_chans e)[c := ee_chans e ! c @ [?r]]"
    using dispatch_delivers [of "e\<lparr>ee_oms := s'\<rparr>" ?r c] waiter c by (simp add: e' f key)
  moreover have "or_status ?r = st" by (simp add: update_record_def Let_def)
  ultimately show ?thesis using d g by (simp add: e')
qed

lemma open_pair_chans:
  assumes inv: "oms_inv (ee_oms e)" and op: "open_pair w leg1 leg2 e = (id1, c1, id2, c2, e')"
    and none: "ee_waiters e (fnv1a64 id1) = None" "ee_waiters e (fnv1a64 id2) = None"
    and neq: "fnv1a64 id1 \<noteq> fnv1a64 id2"
  shows "ee_chans e' = ee_chans e @ [[], []] \<and> c1 = length (ee_chans e) \<and> c2 = Suc (length (ee_chans e))"
proof -
  define e1 where "e1 = e\<lparr>ee_inflight_pairs := insert (pair_key leg1 leg2) (ee_inflight_pairs e),
      ee_inflight_symbols := insert (leg_symbol leg2) (insert (leg_symbol leg1) (ee_inflight_symbols e))\<rparr>"
  obtain e2 e3 e6 where n: "next_client_id e1 = (id1, e2)" "next_client_id e2 = (id2, e3)"
    and g1: "get_or_create_waiter (fnv1a64 id1)
        (engine_register (fst (w_clock w 2)) (snd (w_clock w 2)) id2 (leg_symbol leg2)
           (leg_side leg2) (leg_price leg2) (leg_qty leg2)
           (engine_register (fst (w_clock w 1)) (snd (w_clock w 1)) id1 (leg_symbol leg1)
              (leg_side leg1) (leg_price leg1) (leg_qty leg1) e3)) = (c1, e6)"
    and g2: "get_or_create_waiter (fnv1a64 id2) e6 = (c2, e')"
    using op by (auto simp: open_pair_def Let_def e1_def split: prod.splits)
  have e3: "oms_inv (ee_oms e3)" "ee_waiters e3 = ee_waiters e" "ee_chans e3 = ee_chans e"
    using n inv by (auto simp: next_client_id_def e1_def)
  let ?e4 = "engine_register (fst (w_clock w 1)) (snd (w_clock w 1)) id1 (leg_symbol leg1)
              (leg_side leg1) (leg_price leg1) (leg_qty leg1) e3"
  note r4 = engine_register_facts [OF e3(1) refl [of ?e4]]
  let ?e5 = "engine_register (fst (w_clock w 2)) (snd (w_clock w 2)) id2 (leg_symbol leg2)
           (leg_side leg2) (leg_price leg2) (leg_qty leg2) ?e4"
  note r5 = engine_register_facts [OF r4(2) refl [of ?e5]]
  have "ee_chans ?e5 = ee_chans e"
    using engine_register_chans [OF r4(2), of id2] engine_register_chans [OF e3(1), of id1]
      client_id_facts(3) [OF n(1)] client_id_facts(3) [OF n(2)] none e3 r4(5) by simp
  moreover have "ee_waiters ?e5 = ee_waiters e" using r5(5) r4(5) e3(2) by simp
  ultimately have "ee_chans e6 = ee_chans e @ [[]]" "c1 = length (ee_chans e)"
      "ee_waiters e6 (fnv1a64 id2) = None"
    using waiter_facts(6,9) [OF g1] none neq by auto
  then show ?thesis using waiter_facts(9) [OF g2] by simp
qed

lemma one_digit_ids_distinct:
  assumes "m < 10" and "n < 10" and "m \<noteq> n"
  shows "fnv1a64 (client_id (word_of_nat m)) \<noteq> fnv1a64 (client_id (word_of_nat n))"
proof -
  have "unat (word_of_nat k :: u64) = k" if "k < 10" for k
    using that by (simp add: unsigned_of_nat take_bit_nat_eq_self)
  then have "client_id (word_of_nat k) = ''holo-'' @ [digit k]" if "k < 10" for k
    using that by (simp add: client_id_def to_string.simps [of k])
  moreover have "digit m \<noteq> digit n" using assms by (metis add_left_cancel of_char_digit)
  ultimately show ?thesis using assms
    by (simp add: fnv1a64_def fnv_step_inj xor_cancel_left of_char_u64_inj)
qed

lemma first_ids_distinct: "fnv1a64 (client_id 0) \<noteq> fnv1a64 (client_id 1)"
  using one_digit_ids_distinct [of 0 1] by simp

theorem update_reaches_waiter_witness:
  "\<exists>e c. ee_waiters e (fnv1a64 (client_id 0)) = Some c \<and> ee_chans e ! c = [] \<and>
     (\<exists>r'. ee_chans (snd (engine_update (fnv1a64 (client_id 0)) Filled 1 100 77 0 0 e)) ! c = [r'])"
proof -
  let ?w = "\<lparr>w_net = \<lambda>req e. (True, e), w_env = \<lambda>i e. e, w_first = \<lambda>_. True, w_clock = \<lambda>_. (0, 0)\<rparr>"
  let ?l1 = "\<lparr>leg_symbol = ''BTCUSDT'', leg_side = Buy, leg_qty = 1, leg_price = 100\<rparr>"
  let ?l2 = "\<lparr>leg_symbol = ''ETHUSDT'', leg_side = Sell, leg_qty = 2, leg_price = 50\<rparr>"
  let ?e0 = "ExecutionEngine OMSCore 40"
  obtain id1 c1 id2 c2 e where op: "open_pair ?w ?l1 ?l2 ?e0 = (id1, c1, id2, c2, e)"
    by (metis prod_cases5)
  have inv: "oms_inv (ee_oms ?e0)" by (simp add: ExecutionEngine_def)
  note f = open_pair_facts [OF inv op]
  have z: "ee_seq ?e0 = 0" "ee_waiters ?e0 k = None" "ee_chans ?e0 = []" "oms_on_update (ee_oms ?e0)" for k
    by (simp_all add: ExecutionEngine_def set_update_callback_def)
  have ids: "id1 = client_id 0" "id2 = client_id 1" using f(1,2) z by simp_all
  have neq: "fnv1a64 id1 \<noteq> fnv1a64 id2" using first_ids_distinct by (simp add: ids)
  have ch: "ee_chans e = [[], []]" "c1 = 0" using open_pair_chans [OF inv op z(2) z(2) neq] z(3) by simp_all
  have ok: "engine_ok e"
    by (rule structure_kept.open_pair_keeps [OF ExecutionEngine_ok [OF OMSCore_inv] op])
  have cid: "next_client_id ?e0 = (client_id 0, ?e0\<lparr>ee_seq := 1\<rparr>)"
    using z(1) by (simp add: next_client_id_def client_id_def)
  obtain d e' where u: "engine_update (fnv1a64 (client_id 0)) Filled 1 100 77 0 0 e = (d, e')" by fastforce
  have g: "oms_get (ee_oms e) (fnv1a64 (client_id 0)) = Some (new_record 0 0 (client_id 0) ''BTCUSDT'' Buy 100 1)"
    using f(9) neq by (simp add: ids)
  have wt: "ee_waiters e (fnv1a64 (client_id 0)) = Some 0" using f(10) neq ch by (simp add: ids)
  have "\<exists>r'. ee_chans e' = (ee_chans e)[0 := ee_chans e ! 0 @ [r']]"
    using update_reaches_waiter [OF ok _ cid g _ wt _ u] f(11) z(4) ch
    by (auto simp: kChanBuffer_def)
  then have "\<exists>r'. ee_chans (snd (engine_update (fnv1a64 (client_id 0)) Filled 1 100 77 0 0 e)) ! 0 = [r']"
    using u ch by auto
  then show ?thesis using wt ch by (intro exI [of _ e] exI [of _ 0]) simp
qed

section \<open>Admission of signals\<close>

definition calm :: "bool \<Rightarrow> world \<Rightarrow> bool" where
  "calm ok w \<longleftrightarrow> (\<forall>req e. w_net w req e = (ok, e))"

definition signal_blocked :: "ArbLeg \<Rightarrow> ArbLeg \<Rightarrow> engine \<Rightarrow> bool" where
  "signal_blocked leg1 leg2 e \<longleftrightarrow> ee_halted e \<or> is_at_capacity e \<or>
     leg_symbol leg1 \<in> ee_inflight_symbols e \<or> leg_symbol leg2 \<in> ee_inflight_symbols e"

definition limit_request :: "string \<Rightarrow> ArbLeg \<Rightarrow> request" where
  "limit_request cid leg =
     SendLimitPostOnly cid (leg_symbol leg) (leg_side leg) (leg_price leg) (leg_qty leg)"

lemma on_signal_blocked:
  assumes "signal_blocked leg1 leg2 e" and "on_signal w leg1 leg2 e = (res, e')"
  shows "res = Dropped \<and> ee_oms e' = ee_oms e \<and> ee_sent e' = ee_sent e \<and> ee_pnl e' = ee_pnl e \<and>
    ee_inflight_symbols e' = ee_inflight_symbols e \<and> ee_waiters e' = ee_waiters e \<and> ee_seq e' = ee_seq e"
  using assms by (auto simp: on_signal_def signal_blocked_def is_at_capacity_def Let_def split: if_splits)

lemma on_signal_open:
  assumes "\<not> signal_blocked leg1 leg2 e" and "open_pair w leg1 leg2 e = (id1, c1, id2, c2, e1)"
    and "calm ok w"
  shows "on_signal w leg1 leg2 e =
    (if ok then (Launched id1 c1 id2 c2,
        e1\<lparr>ee_sent := ee_sent e1 @ [limit_request id1 leg1, limit_request id2 leg2]\<rparr>)
     else (Failed, clear_inflight (pair_key leg1 leg2)
        (e1\<lparr>ee_sent := ee_sent e1 @ [limit_request id1 leg1]\<rparr>)))"
  using assms by (auto simp: on_signal_def signal_blocked_def is_at_capacity_def Let_def calm_def
      send_leg_def await_def limit_request_def)

text \<open>The new record of a leg, made with the two clock readings of its registration.\<close>

definition leg_record :: "i64 \<times> i64 \<Rightarrow> string \<Rightarrow> ArbLeg \<Rightarrow> OrderRecord" where
  "leg_record clock cid leg =
     new_record (fst clock) (snd clock) cid (leg_symbol leg) (leg_side leg) (leg_price leg) (leg_qty leg)"

text \<open>
  (C17) Admission, on a gateway that accepts or refuses each request by a throw, while no other activity
  changes the engine. A signal whose engine is halted, at its open-order ceiling, or has either symbol in
  flight is dropped without touching orders, requests or positions. Any other signal registers each leg with
  its own symbol, side, price and quantity under the next two client ids and changes no other order; it sends
  the post-only limit order of the first leg and, if that is accepted, the one of the second. It is
  launched, with both symbols in flight, if both are accepted, and has failed otherwise.
\<close>

theorem signal_admission:
  assumes inv: "oms_inv (ee_oms e)" and w: "w_net w = (\<lambda>req e. (accepts req, e))"
    and r: "on_signal w leg1 leg2 e = (res, e')"
    and ids: "id1 = client_id (ee_seq e)" "id2 = client_id (ee_seq e + 1)"
  shows "(signal_blocked leg1 leg2 e \<longrightarrow> res = Dropped \<and> ee_oms e' = ee_oms e \<and> ee_sent e' = ee_sent e \<and>
            ee_pnl e' = ee_pnl e \<and> ee_inflight_symbols e' = ee_inflight_symbols e) \<and>
         (\<not> signal_blocked leg1 leg2 e \<longrightarrow>
            oms_get (ee_oms e') = (oms_get (ee_oms e))
              (fnv1a64 id1 \<mapsto> leg_record (w_clock w 1) id1 leg1, fnv1a64 id2 \<mapsto> leg_record (w_clock w 2) id2 leg2) \<and>
            ee_sent e' = ee_sent e @ (if accepts (limit_request id1 leg1)
              then [limit_request id1 leg1, limit_request id2 leg2] else [limit_request id1 leg1]) \<and>
            (if accepts (limit_request id1 leg1) \<and> accepts (limit_request id2 leg2)
             then (\<exists>c1 c2. res = Launched id1 c1 id2 c2) \<and>
               ee_inflight_symbols e' = {leg_symbol leg1, leg_symbol leg2} \<union> ee_inflight_symbols e
             else res = Failed) \<and>
            ee_pnl e' = ee_pnl e)"
proof (cases "signal_blocked leg1 leg2 e")
  case True
  from on_signal_blocked [OF this r] True show ?thesis by simp
next
  case False
  obtain i1 c1 i2 c2 e1 where op: "open_pair w leg1 leg2 e = (i1, c1, i2, c2, e1)"
    by (metis prod_cases5)
  note f = open_pair_facts [OF inv op]
  let ?a1 = "accepts (limit_request id1 leg1)" and ?a2 = "accepts (limit_request id2 leg2)"
  have "(res, e') =
    (if ?a1 \<and> ?a2 then (Launched id1 c1 id2 c2, e1\<lparr>ee_sent := ee_sent e1 @ [limit_request id1 leg1, limit_request id2 leg2]\<rparr>)
     else (Failed, clear_inflight (pair_key leg1 leg2) (e1\<lparr>ee_sent := ee_sent e1 @
       (if ?a1 then [limit_request id1 leg1, limit_request id2 leg2] else [limit_request id1 leg1])\<rparr>)))"
    using r False op f(1,2)
    by (simp add: on_signal_def signal_blocked_def is_at_capacity_def Let_def send_leg_def await_def limit_request_def w ids
        split: if_splits)
  then show ?thesis
    using f False by (auto simp: insert_commute leg_record_def ids clear_inflight_def Let_def)
qed

theorem signal_admission_witness:
  "\<exists>w e e'. on_signal w \<lparr>leg_symbol = ''BTCUSDT'', leg_side = Buy, leg_qty = 1, leg_price = 100\<rparr>
      \<lparr>leg_symbol = ''ETHUSDT'', leg_side = Sell, leg_qty = 2, leg_price = 50\<rparr> e
        = (Launched (client_id 0) 0 (client_id 1) 1, e') \<and> length (ee_sent e') = 2 \<and>
     map_option (\<lambda>r. (or_side r, or_price r, or_qty r)) (oms_get (ee_oms e') (fnv1a64 (client_id 0))) = Some (Buy, 100, 1) \<and>
     map_option (\<lambda>r. (or_side r, or_price r, or_qty r)) (oms_get (ee_oms e') (fnv1a64 (client_id 1))) = Some (Sell, 50, 2)"
proof -
  let ?w = "\<lparr>w_net = \<lambda>req e. (True, e), w_env = \<lambda>i e. e, w_first = \<lambda>_. True, w_clock = \<lambda>_. (0, 0)\<rparr>"
  let ?l1 = "\<lparr>leg_symbol = ''BTCUSDT'', leg_side = Buy, leg_qty = 1, leg_price = 100\<rparr>"
  let ?l2 = "\<lparr>leg_symbol = ''ETHUSDT'', leg_side = Sell, leg_qty = 2, leg_price = 50\<rparr>"
  let ?e = "ExecutionEngine OMSCore 40"
  obtain res e' where r: "on_signal ?w ?l1 ?l2 ?e = (res, e')" by fastforce
  have inv: "oms_inv (ee_oms ?e)" and calm: "calm True ?w" and net: "w_net ?w = (\<lambda>req e. (True, e))"
    by (simp_all add: ExecutionEngine_def calm_def)
  have nb: "\<not> signal_blocked ?l1 ?l2 ?e"
    by (simp add: signal_blocked_def is_at_capacity_def ExecutionEngine_def set_update_callback_def
        OMSCore_def live_order_count_def)
  have z: "ee_seq ?e = 0" "ee_waiters ?e k = None" "ee_chans ?e = []" "ee_sent ?e = []" for k
    by (simp_all add: ExecutionEngine_def)
  obtain id1 c1 id2 c2 e1 where op: "open_pair ?w ?l1 ?l2 ?e = (id1, c1, id2, c2, e1)"
    by (metis prod_cases5)
  note f = open_pair_facts [OF inv op]
  have neq: "fnv1a64 (client_id 0) \<noteq> fnv1a64 (client_id 1)" by (rule first_ids_distinct)
  then have "fnv1a64 id1 \<noteq> fnv1a64 id2" using f(1,2) z(1) by simp
  from open_pair_chans [OF inv op z(2) z(2) this] have "c1 = 0" "c2 = 1" using z(3) by simp_all
  then have "res = Launched (client_id 0) 0 (client_id 1) 1"
    using on_signal_open [OF nb op calm] r f(1,2) z(1) by simp
  moreover note adm = signal_admission [OF inv net r refl refl, THEN conjunct2, THEN mp, OF nb]
  from adm have "length (ee_sent e') = 2" using z(4) by simp
  moreover from adm have "oms_get (ee_oms e') = (oms_get (ee_oms ?e))
      (fnv1a64 (client_id 0) \<mapsto> leg_record (w_clock ?w 1) (client_id 0) ?l1,
       fnv1a64 (client_id 1) \<mapsto> leg_record (w_clock ?w 2) (client_id 1) ?l2)"
    unfolding z(1) by simp
  ultimately show ?thesis using r neq
    by (intro exI [of _ ?w] exI [of _ ?e] exI [of _ e']) (simp add: leg_record_def new_record_def)
qed

end
