(* ===== verification/Execution_Risk.thy ===== *)
theory Execution_Risk
  imports Execution_Engine
begin

text \<open>
  What the execution engine guarantees about exposure: the ceiling on open orders, the life of the
  in-flight symbols, the release of the orders of a pair, the profit accounting of repeated fill
  reports, and the hedges of a pair that only filled in part. Two theorems record behaviour that
  leaves exposure or capacity behind.
\<close>

section \<open>Open orders and in-flight symbols\<close>

lemma length_update_le: "length (AList.update k v al) \<le> Suc (length al)"
  by (induction al) auto

lemma register_live:
  "live_order_count (ee_oms (engine_register now steady cid sy side px qty e))
     \<le> Suc (live_order_count (ee_oms e))"
proof -
  obtain k f s' where r: "register_new_order now steady cid sy side px qty (ee_oms e) = (k, f, s')"
    using prod_cases3 by blast
  then have "oms_index s' = AList.update (fnv1a64 cid) (fst (alloc_slot_locked (ee_oms e))) (oms_index (ee_oms e))"
    by (auto simp: register_new_order_def alloc_slot_locked_def Let_def)
  then show ?thesis using length_update_le
    by (simp add: engine_register_def r live_order_count_def)
qed

lemma open_pair_live:
  assumes "open_pair w leg1 leg2 e = (id1, c1, id2, c2, e')"
  shows "live_order_count (ee_oms e') \<le> Suc (Suc (live_order_count (ee_oms e)))"
proof -
  have le: "live_order_count (ee_oms (engine_register a b cid sy side px qty
        (engine_register a' b' cid' sy' side' px' qty' e0))) \<le> Suc (Suc (live_order_count (ee_oms e0)))"
    for a b cid sy side px qty a' b' cid' sy' side' px' qty' e0
    using register_live [of a b cid sy side px qty "engine_register a' b' cid' sy' side' px' qty' e0"]
      register_live [of a' b' cid' sy' side' px' qty' e0] by linarith
  show ?thesis using assms
    by (auto simp: open_pair_def next_client_id_def Let_def dest!: waiter_facts(1)
        split: prod.splits intro!: order_trans [OF le])
qed

lemma clear_inflight_frame [simp]:
  "ee_oms (clear_inflight key e) = ee_oms e" "ee_sent (clear_inflight key e) = ee_sent e"
  "ee_pnl (clear_inflight key e) = ee_pnl e" "ee_max_open_orders (clear_inflight key e) = ee_max_open_orders e"
  "ee_waiters (clear_inflight key e) = ee_waiters e"
  by (simp_all add: clear_inflight_def Let_def)

text \<open>
  A world in which nothing else registers orders: what happens during a call of the gateway and while a
  coroutine is suspended may update and release orders, but the store does not grow.
\<close>

definition no_registrations :: "world \<Rightarrow> bool" where
  "no_registrations w \<longleftrightarrow>
     (\<forall>req e. live_order_count (ee_oms (snd (w_net w req e))) \<le> live_order_count (ee_oms e)) \<and>
     (\<forall>i e. live_order_count (ee_oms (w_env w i e)) \<le> live_order_count (ee_oms e))"

lemma await_live:
  assumes "no_registrations w" and "await (w_net w) req e = (ok, e')"
  shows "live_order_count (ee_oms e') \<le> live_order_count (ee_oms e)"
proof -
  let ?e = "e\<lparr>ee_sent := ee_sent e @ [req]\<rparr>"
  have "live_order_count (ee_oms (snd (w_net w req ?e))) \<le> live_order_count (ee_oms ?e)"
    using assms(1) unfolding no_registrations_def by blast
  then show ?thesis using assms(2) by (simp add: await_def)
qed

lemma env_live: "no_registrations w \<Longrightarrow> live_order_count (ee_oms (w_env w i e)) \<le> live_order_count (ee_oms e)"
  by (simp add: no_registrations_def)

lemma release_live: "live_order_count (ee_oms (release_terminal k e)) \<le> live_order_count (ee_oms e)"
  by (simp add: release_terminal_def release_def live_order_count_def Let_def length_delete_le split: option.split)

lemma on_signal_live:
  assumes w: "no_registrations w" and r: "on_signal w leg1 leg2 e = (res, e')"
  shows "if live_order_count (ee_oms e) < ee_max_open_orders e
    then live_order_count (ee_oms e') \<le> live_order_count (ee_oms e) + 2
    else res = Dropped \<and> ee_oms e' = ee_oms e"
proof (cases "signal_blocked leg1 leg2 e")
  case True
  from on_signal_blocked [OF this r] show ?thesis by simp
next
  case False
  obtain id1 c1 id2 c2 e1 where op: "open_pair w leg1 leg2 e = (id1, c1, id2, c2, e1)"
    by (metis prod_cases5)
  obtain ok1 e2 where s1: "send_leg w id1 leg1 e1 = (ok1, e2)" by fastforce
  obtain ok2 e3 where s2: "send_leg w id2 leg2 e2 = (ok2, e3)" by fastforce
  have "ee_oms e' = ee_oms e2 \<or> ee_oms e' = ee_oms e3"
    using r False op s1 s2
    by (auto simp: on_signal_def signal_blocked_def is_at_capacity_def Let_def split: if_splits)
  moreover note await_live [OF w s1 [unfolded send_leg_def]] await_live [OF w s2 [unfolded send_leg_def]]
  ultimately have "live_order_count (ee_oms e') \<le> live_order_count (ee_oms e1)" by auto
  then show ?thesis
    using open_pair_live [OF op] False by (simp add: signal_blocked_def is_at_capacity_def)
qed

lemma receive_live: "receive c e = (r, e') \<Longrightarrow> ee_oms e' = ee_oms e"
  by (auto simp: receive_def split: prod.splits)

lemma race_live:
  "timed_race c b e = (r, e') \<Longrightarrow> ee_oms e' = ee_oms e" "first_race c1 c2 b e = (r', e') \<Longrightarrow> ee_oms e' = ee_oms e"
  by (auto simp: timed_race_def first_race_def dest!: receive_live split: prod.splits option.splits)

lemma authoritative_live:
  assumes w: "no_registrations w" and a: "await_authoritative_after_cancel w c k e = (r, e')"
  shows "live_order_count (ee_oms e') \<le> live_order_count (ee_oms e)"
proof -
  obtain x e1 where t: "timed_race c (w_first w 2) (w_env w 2 e) = (x, e1)" by fastforce
  have "e' = e \<or> e' = e1" using a t by (auto simp: await_authoritative_after_cancel_def Let_def split: option.splits if_splits)
  then show ?thesis using race_live(1) [OF t] env_live [OF w, of 2 e] by auto
qed

lemma pnl_live [simp]: "ee_oms (apply_fill_pnl rec leg e) = ee_oms e"
  by (simp add: apply_fill_pnl_def Let_def)

lemma hedge_live:
  assumes w: "no_registrations w" and h: "hedge_remaining w leg q e = (out, hg, e')"
  shows "live_order_count (ee_oms e') \<le> live_order_count (ee_oms e) + 1"
proof (cases "q \<le> 1 / 10 ^ 12")
  case False
  define e2 where "e2 = engine_register (fst (w_clock w 3)) (snd (w_clock w 3)) (fst (next_client_id e)) (leg_symbol leg)
    (leg_side leg) 0 q (snd (next_client_id e))"
  obtain c e3 where g: "get_or_create_waiter (fnv1a64 (fst (next_client_id e))) e2 = (c, e3)" by fastforce
  obtain ok e4 where s: "await (w_net w) (SendMarket (fst (next_client_id e)) (leg_symbol leg) (leg_side leg) q) e3 = (ok, e4)"
    by fastforce
  have "e' = e4" using h False g s by (auto simp: hedge_remaining_def Let_def e2_def split: prod.splits if_splits)
  moreover have "live_order_count (ee_oms e2) \<le> live_order_count (ee_oms e) + 1"
    using register_live [of _ _ _ _ _ _ _ "snd (next_client_id e)"] unfolding e2_def by (simp add: next_client_id_def)
  ultimately show ?thesis using await_live [OF w s] waiter_facts(1) [OF g] by simp
qed (use h in \<open>simp add: hedge_remaining_def\<close>)

lemma abandon_live:
  assumes w: "no_registrations w" and r: "abandon_pair w k c rid leg rk e = (out, hg, e')"
  shows "live_order_count (ee_oms e') \<le> live_order_count (ee_oms e) + 1"
proof -
  obtain ok e1 where s: "await (w_net w) (CancelOrder (leg_symbol leg) rid) (release_terminal k e) = (ok, e1)" by fastforce
  obtain pf e2 where a: "await_authoritative_after_cancel w c rk e1 = (pf, e2)" by fastforce
  note le = await_live [OF w s] authoritative_live [OF w a] release_live [of k e] release_live [of rk e2]
  show ?thesis
  proof (cases "ok \<and> or_filled_qty pf > 0")
    case True
    then have "hedge_remaining w leg (or_qty pf - or_filled_qty pf) (apply_fill_pnl pf leg (release_terminal rk e2)) = (out, hg, e')"
      using r s a by (simp add: abandon_pair_def Let_def)
    from hedge_live [OF w this] le show ?thesis by simp
  next
    case False
    then have "e' = e1 \<or> e' = release_terminal rk e2" using r s a by (auto simp: abandon_pair_def Let_def split: if_splits)
    then show ?thesis using le by auto
  qed
qed

lemma complete_live:
  assumes w: "no_registrations w" and r: "complete_pair w fr fl k c rid leg rk e = (out, hg, e')"
  shows "live_order_count (ee_oms e') \<le> live_order_count (ee_oms e) + 1"
proof -
  define e0 where "e0 = w_env w 1 (release_terminal k (apply_fill_pnl fr fl e))"
  obtain x e2 where t: "timed_race c (w_first w 1) e0 = (x, e2)" by fastforce
  have e2: "live_order_count (ee_oms e2) \<le> live_order_count (ee_oms e)"
    using race_live(1) [OF t] env_live [OF w, of 1 "release_terminal k (apply_fill_pnl fr fl e)"]
      release_live [of k "apply_fill_pnl fr fl e"] by (simp add: e0_def)
  note released = release_live [of rk]
  show ?thesis
  proof (cases x)
    case (Some rec)
    let ?e3 = "if or_filled_qty rec > 0 then apply_fill_pnl rec leg e2 else e2"
    show ?thesis
    proof (cases "or_status rec = Filled")
      case True
      then show ?thesis using r t Some e2 released [of "apply_fill_pnl rec leg e2"] by (simp add: complete_pair_def e0_def Let_def)
    next
      case False
      then have "hedge_remaining w leg (or_qty rec - or_filled_qty rec) (release_terminal rk ?e3) = (out, hg, e')"
        using r t Some by (simp add: complete_pair_def e0_def Let_def)
      from hedge_live [OF w this] show ?thesis using e2 released [of ?e3] by (simp split: if_splits)
    qed
  next
    case None
    obtain ok e3 where s: "await (w_net w) (CancelOrder (leg_symbol leg) rid) e2 = (ok, e3)" by fastforce
    obtain fin e4 where a: "await_authoritative_after_cancel w c rk e3 = (fin, e4)" by fastforce
    let ?e5 = "release_terminal rk e4"
    note le = await_live [OF w s] authoritative_live [OF w a] released [of e4] e2
    show ?thesis
    proof (cases "ok \<and> or_status fin \<noteq> Filled")
      case True
      then have "hedge_remaining w leg (or_qty fin - or_filled_qty fin)
          (if or_filled_qty fin > 0 then apply_fill_pnl fin leg ?e5 else ?e5) = (out, hg, e')"
        using r t None s a by (simp add: complete_pair_def e0_def Let_def)
      from hedge_live [OF w this] le show ?thesis by (simp split: if_splits)
    next
      case False
      then have "ee_oms e' = ee_oms e3 \<or> ee_oms e' = ee_oms ?e5"
        using r t None s a by (auto simp: complete_pair_def e0_def Let_def split: if_splits)
      then show ?thesis using le by auto
    qed
  qed
qed

lemma run_pair_live:
  assumes w: "no_registrations w" and r: "run_pair w id1 leg1 c1 id2 leg2 c2 e = (out, hg, e')"
  shows "live_order_count (ee_oms e') \<le> live_order_count (ee_oms e) + 1"
proof -
  obtain x e1 where t: "first_race c1 c2 (w_first w 0) (w_env w 0 e) = (x, e1)" by fastforce
  have e1: "live_order_count (ee_oms e1) \<le> live_order_count (ee_oms e)"
    using race_live(2) [OF t] env_live [OF w, of 0 e] by simp
  obtain out' hg' e2 where m: "monitor_pair w id1 leg1 c1 id2 leg2 c2 e = (out', hg', e2)" by (metis prod_cases3)
  have "live_order_count (ee_oms e2) \<le> live_order_count (ee_oms e) + 1"
  proof (cases x)
    case (Some y)
    then obtain b rec where "x = Some (b, rec)" by (cases y) simp
    then show ?thesis
      using m t e1 abandon_live [OF w, of _ _ _ _ _ e1] complete_live [OF w, of _ _ _ _ _ _ _ e1]
      by (fastforce simp: monitor_pair_def Let_def split: if_splits)
  qed (use m t e1 in \<open>auto simp: monitor_pair_def Let_def\<close>)
  then show ?thesis using r m by (auto simp: run_pair_def split: if_splits)
qed

text \<open>
  (C26) The open-order ceiling, while nothing else registers orders: a signal that finds fewer than
  \<open>max_open_orders\<close> orders indexed leaves at most \<open>max_open_orders + 1\<close>, whether its sends succeed or
  throw; a signal that finds the ceiling reached is dropped and leaves the store as it is. The
  monitor of a pair does not look at the ceiling, and adds at most one order, the hedge.
\<close>

theorem open_order_ceiling:
  assumes w: "no_registrations w"
  shows "(on_signal w leg1 leg2 e = (res, e1) \<longrightarrow>
           (if live_order_count (ee_oms e) < ee_max_open_orders e
            then live_order_count (ee_oms e1) \<le> ee_max_open_orders e + 1
            else res = Dropped \<and> ee_oms e1 = ee_oms e)) \<and>
         (run_pair w id1 leg1 c1 id2 leg2 c2 e = (out, hg, e2) \<longrightarrow>
            live_order_count (ee_oms e2) \<le> live_order_count (ee_oms e) + 1)"
  using on_signal_live [OF w, of leg1 leg2 e res e1] run_pair_live [OF w, of id1 leg1 c1 id2 leg2 c2 e out hg e2]
  by (auto split: if_splits)

theorem open_order_ceiling_witness:
  "\<exists>w e1 e2. live_order_count (ee_oms e1) \<le> 2 \<and> live_order_count (ee_oms e2) \<le> live_order_count (ee_oms e1) + 1 \<and>
     (\<exists>res. on_signal w \<lparr>leg_symbol = ''BTCUSDT'', leg_side = Buy, leg_qty = 1, leg_price = 100\<rparr>
      \<lparr>leg_symbol = ''ETHUSDT'', leg_side = Sell, leg_qty = 2, leg_price = 50\<rparr> (ExecutionEngine OMSCore 1) = (res, e1)) \<and>
     (\<exists>out hg. run_pair w ''a'' \<lparr>leg_symbol = ''BTCUSDT'', leg_side = Buy, leg_qty = 1, leg_price = 100\<rparr> 0
      ''b'' \<lparr>leg_symbol = ''ETHUSDT'', leg_side = Sell, leg_qty = 2, leg_price = 50\<rparr> 1 e1 = (out, hg, e2))"
proof -
  let ?w = "\<lparr>w_net = \<lambda>req e. (True, e), w_env = \<lambda>i e. e, w_first = \<lambda>_. True, w_clock = \<lambda>_. (0, 0)\<rparr>"
  let ?l1 = "\<lparr>leg_symbol = ''BTCUSDT'', leg_side = Buy, leg_qty = 1, leg_price = 100\<rparr>"
  let ?l2 = "\<lparr>leg_symbol = ''ETHUSDT'', leg_side = Sell, leg_qty = 2, leg_price = 50\<rparr>"
  have w: "no_registrations ?w" by (simp add: no_registrations_def)
  obtain res e1 where r: "on_signal ?w ?l1 ?l2 (ExecutionEngine OMSCore 1) = (res, e1)" by fastforce
  obtain out hg e2 where p: "run_pair ?w ''a'' ?l1 0 ''b'' ?l2 1 e1 = (out, hg, e2)" by (metis prod_cases3)
  have "live_order_count (ee_oms (ExecutionEngine OMSCore 1)) = 0"
    by (simp add: ExecutionEngine_def OMSCore_def set_update_callback_def live_order_count_def)
  moreover have "ee_max_open_orders (ExecutionEngine OMSCore 1) = 1" by (simp add: ExecutionEngine_def)
  ultimately have "live_order_count (ee_oms e1) \<le> 2" using open_order_ceiling [OF w, THEN conjunct1, THEN mp, OF r] by simp
  moreover have "live_order_count (ee_oms e2) \<le> live_order_count (ee_oms e1) + 1"
    by (rule open_order_ceiling [OF w, THEN conjunct2, THEN mp, OF p])
  ultimately show ?thesis using r p by blast
qed

lemma clear_inflight_symbols:
  assumes "CHR ''|'' \<notin> set (leg_symbol leg1)"
  shows "ee_inflight_symbols (clear_inflight (pair_key leg1 leg2) e) =
           ee_inflight_symbols e - {leg_symbol leg1, leg_symbol leg2}"
    and "ee_inflight_pairs (clear_inflight (pair_key leg1 leg2) e) =
           ee_inflight_pairs e - {pair_key leg1 leg2}"
proof -
  have "takeWhile (\<lambda>c. c \<noteq> CHR ''|'') (pair_key leg1 leg2) = leg_symbol leg1"
    using assms by (auto simp: pair_key_def takeWhile_append)
  moreover have "CHR ''|'' \<in> set (pair_key leg1 leg2)" by (simp add: pair_key_def)
  ultimately show "ee_inflight_symbols (clear_inflight (pair_key leg1 leg2) e) =
           ee_inflight_symbols e - {leg_symbol leg1, leg_symbol leg2}"
    "ee_inflight_pairs (clear_inflight (pair_key leg1 leg2) e) =
           ee_inflight_pairs e - {pair_key leg1 leg2}"
    by (auto simp: clear_inflight_def Let_def pair_key_def)
qed

text \<open>
  (C24) No symbol stays locked: whatever the gateway and other threads do, when a signal fails in its
  sends, and when the monitor of a pair ends, normally or by an exception, neither symbol of the
  pair is in flight; a failed signal on a gateway that only throws restores the in-flight sets.
\<close>

theorem inflight_released:
  assumes bar: "CHR ''|'' \<notin> set (leg_symbol leg1)"
  shows "(on_signal w leg1 leg2 e = (Failed, e1) \<longrightarrow>
            {leg_symbol leg1, leg_symbol leg2} \<inter> ee_inflight_symbols e1 = {}) \<and>
         (run_pair w id1 leg1 c1 id2 leg2 c2 e = (res, h, e2) \<and> res \<noteq> Suspended \<longrightarrow>
            {leg_symbol leg1, leg_symbol leg2} \<inter> ee_inflight_symbols e2 = {}) \<and>
         (oms_inv (ee_oms e) \<and> calm False w \<and> \<not> signal_blocked leg1 leg2 e \<and>
            on_signal w leg1 leg2 e = (res', e3) \<longrightarrow>
            res' = Failed \<and> ee_inflight_symbols e3 = ee_inflight_symbols e)"
proof (intro conjI impI)
  assume "on_signal w leg1 leg2 e = (Failed, e1)"
  then obtain e0 where "e1 = clear_inflight (pair_key leg1 leg2) e0"
    by (auto simp: on_signal_def Let_def split: if_splits prod.splits)
  then show "{leg_symbol leg1, leg_symbol leg2} \<inter> ee_inflight_symbols e1 = {}"
    by (auto simp: clear_inflight_symbols [OF bar])
next
  assume "run_pair w id1 leg1 c1 id2 leg2 c2 e = (res, h, e2) \<and> res \<noteq> Suspended"
  then obtain e0 where "e2 = clear_inflight (pair_key leg1 leg2) e0"
    by (auto simp: run_pair_def split: if_splits prod.splits)
  then show "{leg_symbol leg1, leg_symbol leg2} \<inter> ee_inflight_symbols e2 = {}"
    by (auto simp: clear_inflight_symbols [OF bar])
next
  assume a: "oms_inv (ee_oms e) \<and> calm False w \<and> \<not> signal_blocked leg1 leg2 e \<and>
      on_signal w leg1 leg2 e = (res', e3)"
  obtain id1 c1 id2 c2 e0 where op: "open_pair w leg1 leg2 e = (id1, c1, id2, c2, e0)"
    by (metis prod_cases5)
  have inv: "oms_inv (ee_oms e)" and c: "calm False w" and nb: "\<not> signal_blocked leg1 leg2 e"
    using a by blast+
  note r = on_signal_open [OF nb op c]
  show "res' = Failed" using r a by simp
  have "ee_inflight_symbols e3 = ee_inflight_symbols e0 - {leg_symbol leg1, leg_symbol leg2}"
    using r a by (auto simp: clear_inflight_symbols [OF bar])
  then show "ee_inflight_symbols e3 = ee_inflight_symbols e"
    using nb by (auto simp: open_pair_facts(8) [OF inv op] signal_blocked_def)
qed

theorem inflight_released_witness:
  "CHR ''|'' \<notin> set ''BTCUSDT'' \<and>
   (\<exists>e'. on_signal \<lparr>w_net = \<lambda>req e. (False, e), w_env = \<lambda>i e. e, w_first = \<lambda>_. True, w_clock = \<lambda>_. (0, 0)\<rparr>
      \<lparr>leg_symbol = ''BTCUSDT'', leg_side = Buy, leg_qty = 1, leg_price = 100\<rparr>
      \<lparr>leg_symbol = ''ETHUSDT'', leg_side = Sell, leg_qty = 2, leg_price = 50\<rparr>
      (ExecutionEngine OMSCore 40) = (Failed, e') \<and> ee_inflight_symbols e' = {})"
proof -
  let ?w = "\<lparr>w_net = \<lambda>req e. (False, e), w_env = \<lambda>i e. e, w_first = \<lambda>_. True, w_clock = \<lambda>_. (0, 0)\<rparr>"
  let ?l1 = "\<lparr>leg_symbol = ''BTCUSDT'', leg_side = Buy, leg_qty = 1, leg_price = 100\<rparr>"
  let ?l2 = "\<lparr>leg_symbol = ''ETHUSDT'', leg_side = Sell, leg_qty = 2, leg_price = 50\<rparr>"
  let ?e = "ExecutionEngine OMSCore 40"
  obtain res e' where r: "on_signal ?w ?l1 ?l2 ?e = (res, e')" by fastforce
  have "oms_inv (ee_oms ?e)" "calm False ?w" "\<not> signal_blocked ?l1 ?l2 ?e" "ee_inflight_symbols ?e = {}"
    by (simp_all add: ExecutionEngine_def calm_def signal_blocked_def is_at_capacity_def
        set_update_callback_def OMSCore_def live_order_count_def oms_inv_def)
  then show ?thesis using inflight_released [of ?l1 ?w ?l2 ?e] r by auto
qed

section \<open>Orders left behind by a failed send\<close>

lemma dom_oms_get: "dom (oms_get s) = set (map fst (oms_index s))"
  by (rule set_eqI) (simp add: domIff oms_get_None)

lemma live_card: "oms_inv s \<Longrightarrow> live_order_count s = card (dom (oms_get s))"
  unfolding dom_oms_get live_order_count_def oms_inv_def by (metis distinct_card length_map)

text \<open>
  A signal whose send throws leaves both of its orders registered: the in-flight guard is undone
  but the two records stay in the order store as pending, and each failure takes two places of the
  open-order ceiling that nothing in this path gives back.
\<close>

theorem failed_send_keeps_orders:
  assumes inv: "oms_inv (ee_oms e)" and w: "calm False w" and nb: "\<not> signal_blocked leg1 leg2 e"
    and r: "on_signal w leg1 leg2 e = (res, e')"
    and k: "k1 = fnv1a64 (client_id (ee_seq e))" "k2 = fnv1a64 (client_id (ee_seq e + 1))"
    and fresh: "k1 \<noteq> k2" "oms_get (ee_oms e) k1 = None" "oms_get (ee_oms e) k2 = None"
  shows "res = Failed \<and> live_order_count (ee_oms e') = live_order_count (ee_oms e) + 2 \<and>
         map_option or_status (oms_get (ee_oms e') k1) = Some PendingNew \<and>
         map_option or_status (oms_get (ee_oms e') k2) = Some PendingNew"
proof -
  obtain id1 c1 id2 c2 e1 where op: "open_pair w leg1 leg2 e = (id1, c1, id2, c2, e1)"
    by (metis prod_cases5)
  note f = open_pair_facts [OF inv op]
  have res: "res = Failed" "ee_oms e' = ee_oms e1"
    using on_signal_open [OF nb op w] r by auto
  have "dom (oms_get (ee_oms e1)) = insert k2 (insert k1 (dom (oms_get (ee_oms e))))"
    using f(1,2,9) k by auto
  moreover have "finite (dom (oms_get (ee_oms e)))"
    by (simp only: dom_oms_get finite_set)
  ultimately have "live_order_count (ee_oms e1) = live_order_count (ee_oms e) + 2"
    using fresh by (simp add: live_card [OF inv] live_card [OF f(6)] domIff)
  moreover have "map_option or_status (oms_get (ee_oms e1) k1) = Some PendingNew"
    "map_option or_status (oms_get (ee_oms e1) k2) = Some PendingNew"
    using f(1,2,9) k fresh(1) by (simp_all add: new_record_def)
  ultimately show ?thesis using res by simp
qed

theorem failed_send_keeps_orders_witness:
  "\<exists>e'. on_signal \<lparr>w_net = \<lambda>req e. (False, e), w_env = \<lambda>i e. e, w_first = \<lambda>_. True, w_clock = \<lambda>_. (0, 0)\<rparr>
      \<lparr>leg_symbol = ''BTCUSDT'', leg_side = Buy, leg_qty = 1, leg_price = 100\<rparr>
      \<lparr>leg_symbol = ''ETHUSDT'', leg_side = Sell, leg_qty = 2, leg_price = 50\<rparr>
      (ExecutionEngine OMSCore 2) = (Failed, e') \<and> is_at_capacity e' \<and> ee_inflight_symbols e' = {}"
proof -
  let ?w = "\<lparr>w_net = \<lambda>req e. (False, e), w_env = \<lambda>i e. e, w_first = \<lambda>_. True, w_clock = \<lambda>_. (0, 0)\<rparr>"
  let ?l1 = "\<lparr>leg_symbol = ''BTCUSDT'', leg_side = Buy, leg_qty = 1, leg_price = 100\<rparr>"
  let ?l2 = "\<lparr>leg_symbol = ''ETHUSDT'', leg_side = Sell, leg_qty = 2, leg_price = 50\<rparr>"
  let ?e = "ExecutionEngine OMSCore 2"
  have c: "calm False ?w" by (simp add: calm_def)
  have e: "oms_inv (ee_oms ?e)" "\<not> signal_blocked ?l1 ?l2 ?e" "ee_seq ?e = 0"
    "ee_max_open_orders ?e = 2" "live_order_count (ee_oms ?e) = 0" "ee_inflight_symbols ?e = {}"
    by (simp_all add: ExecutionEngine_def signal_blocked_def is_at_capacity_def
        set_update_callback_def OMSCore_def live_order_count_def oms_inv_def)
  have none: "oms_get (ee_oms ?e) k = None" for k
    by (simp add: ExecutionEngine_def set_update_callback_def OMSCore_def oms_get_def)
  obtain id1 c1 id2 c2 e1 where op: "open_pair ?w ?l1 ?l2 ?e = (id1, c1, id2, c2, e1)"
    by (metis prod_cases5)
  obtain res e' where r: "on_signal ?w ?l1 ?l2 ?e = (res, e')" by fastforce
  have neq: "fnv1a64 (client_id (ee_seq ?e)) \<noteq> fnv1a64 (client_id (ee_seq ?e + 1))"
    using first_ids_distinct by (simp add: e(3))
  have "res = Failed \<and> live_order_count (ee_oms e') = 2"
    using failed_send_keeps_orders [OF e(1) c e(2) r refl refl neq none none] e(5) by simp
  moreover have e': "e' = clear_inflight (pair_key ?l1 ?l2)
      (e1\<lparr>ee_sent := ee_sent e1 @ [limit_request id1 ?l1]\<rparr>)"
    using on_signal_open [OF e(2) op c] r by simp
  moreover have "ee_max_open_orders e' = 2" using open_pair_facts(12) [OF e(1) op] e(4) by (simp add: e')
  moreover have "ee_inflight_symbols e' = {}"
    using open_pair_facts(8) [OF e(1) op] e(6) clear_inflight_symbols(1) [of ?l1] by (simp add: e')
  ultimately show ?thesis using r by (simp add: is_at_capacity_def)
qed

section \<open>Hedges of a pair\<close>

text \<open>
  The total quantity of the market orders for one symbol and side in a list of requests, and worlds
  in which every send succeeds and other threads send nothing.
\<close>

fun market_qty :: "string \<Rightarrow> Side \<Rightarrow> request list \<Rightarrow> dbl" where
  "market_qty symbol side [] = 0"
| "market_qty symbol side (SendMarket cid sy sd q # rs) =
     (if sy = symbol \<and> sd = side then q else 0) + market_qty symbol side rs"
| "market_qty symbol side (r # rs) = market_qty symbol side rs"

definition silent :: "world \<Rightarrow> bool" where
  "silent w \<longleftrightarrow> calm True w \<and> (\<forall>i e. ee_sent (w_env w i e) = ee_sent e)"

lemma sent_frame [simp]:
  "ee_sent (release_terminal key e) = ee_sent e" "ee_sent (apply_fill_pnl rec leg e) = ee_sent e"
  by (simp_all add: release_terminal_def apply_fill_pnl_def Let_def)

lemma receive_sent: "receive c e = (r, e') \<Longrightarrow> ee_sent e' = ee_sent e"
  by (auto simp: receive_def split: prod.splits)

lemma timed_race_sent: "timed_race c t e = (r, e') \<Longrightarrow> ee_sent e' = ee_sent e"
  by (auto simp: timed_race_def split: prod.splits dest: receive_sent)

lemma first_race_sent: "first_race c1 c2 t e = (r, e') \<Longrightarrow> ee_sent e' = ee_sent e"
  by (auto simp: first_race_def split: prod.splits option.splits dest!: receive_sent)

lemma await_silent: "silent w \<Longrightarrow> await (w_net w) req e = (True, e\<lparr>ee_sent := ee_sent e @ [req]\<rparr>)"
  by (simp add: silent_def calm_def await_def)

lemma await_authoritative_sent:
  "silent w \<Longrightarrow> await_authoritative_after_cancel w c key e = (r, e') \<Longrightarrow> ee_sent e' = ee_sent e"
  by (auto simp: await_authoritative_after_cancel_def Let_def silent_def
      split: option.splits if_splits prod.splits dest!: timed_race_sent)

lemma register_sent [simp]: "ee_sent (engine_register now steady cid sy side px qty e) = ee_sent e"
  by (auto simp: engine_register_def split: prod.splits)

lemma hedge_sent:
  assumes "silent w" and "hedge_remaining w leg q e = (res, h, e')"
  shows "res = Done \<and> (\<exists>cid. ee_sent e' = ee_sent e @
    (if q \<le> 1 / 10 ^ 12 then [] else [SendMarket cid (leg_symbol leg) (leg_side leg) q]))"
  using assms by (auto simp: hedge_remaining_def Let_def next_client_id_def await_silent
      dest!: waiter_facts(3) split: if_splits prod.splits)

text \<open>The record of the resting leg that the monitor ends up acting on after the first leg filled.\<close>

definition resting_final :: "world \<Rightarrow> nat \<Rightarrow> string \<Rightarrow> string \<Rightarrow> u64 \<Rightarrow> engine \<Rightarrow> OrderRecord" where
  "resting_final w c symbol cid key e =
     (case timed_race c (w_first w 1) (w_env w 1 e) of
        (Some r, e1) \<Rightarrow> r
      | (None, e1) \<Rightarrow>
          fst (await_authoritative_after_cancel w c key
                (snd (await (w_net w) (CancelOrder symbol cid) e1))))"

lemma complete_pair_sent:
  assumes w: "silent w" and r: "complete_pair w fr fl fk c rid leg rk e = (res, h, e')"
    and fin: "r = resting_final w c (leg_symbol leg) rid rk (release_terminal fk (apply_fill_pnl fr fl e))"
  shows "res = Done \<and> (\<exists>cid cancels. ee_sent e' = ee_sent e @ cancels @
     (if or_status r = Filled \<or> or_qty r - or_filled_qty r \<le> 1 / 10 ^ 12 then []
      else [SendMarket cid (leg_symbol leg) (leg_side leg) (or_qty r - or_filled_qty r)]) \<and>
     cancels \<in> {[], [CancelOrder (leg_symbol leg) rid]})"
proof -
  let ?e1 = "release_terminal fk (apply_fill_pnl fr fl e)"
  have env: "ee_sent (w_env w i x) = ee_sent x" for i x using w by (simp add: silent_def)
  obtain rr e2 where t: "timed_race c (w_first w (Suc 0)) (w_env w (Suc 0) ?e1) = (rr, e2)" by fastforce
  have e2: "ee_sent e2 = ee_sent e" using timed_race_sent [OF t] by (simp add: env)
  show ?thesis
  proof (cases rr)
    case (Some rec)
    then have rec: "r = rec" by (simp add: fin resting_final_def t)
    show ?thesis
    proof (cases "or_status rec = Filled")
      case True
      then show ?thesis using r e2 by (auto simp: complete_pair_def t Some rec)
    next
      case False
      then have "hedge_remaining w leg (or_qty rec - or_filled_qty rec) (release_terminal rk
          (if or_filled_qty rec > 0 then apply_fill_pnl rec leg e2 else e2)) = (res, h, e')"
        using r by (simp add: complete_pair_def t Some)
      from hedge_sent [OF w this] False e2 rec show ?thesis by auto
    qed
  next
    case None
    let ?e3 = "e2\<lparr>ee_sent := ee_sent e2 @ [CancelOrder (leg_symbol leg) rid]\<rparr>"
    obtain rec e4 where a: "await_authoritative_after_cancel w c rk ?e3 = (rec, e4)" by fastforce
    have rec: "r = rec" by (simp add: fin resting_final_def t None await_silent [OF w] a)
    have e4: "ee_sent e4 = ee_sent e @ [CancelOrder (leg_symbol leg) rid]"
      using await_authoritative_sent [OF w a] e2 by simp
    show ?thesis
    proof (cases "or_status rec = Filled")
      case True
      then show ?thesis using r e4 by (auto simp: complete_pair_def t None await_silent [OF w] a rec)
    next
      case False
      then have "hedge_remaining w leg (or_qty rec - or_filled_qty rec)
          (if or_filled_qty rec > 0 then apply_fill_pnl rec leg (release_terminal rk e4)
           else release_terminal rk e4) = (res, h, e')"
        using r by (simp add: complete_pair_def t None await_silent [OF w] a Let_def)
      from hedge_sent [OF w this] False e4 rec show ?thesis by auto
    qed
  qed
qed

lemma market_qty_cancel_hedge:
  "cancels \<in> {[], [CancelOrder sy rid]} \<Longrightarrow>
     market_qty symbol side (cancels @ (if b then [] else [SendMarket cid sy' sd' q])) =
       (if b \<or> sy' \<noteq> symbol \<or> sd' \<noteq> side then 0 else q)"
  by auto

text \<open>
  (C5) A pair whose first leg filled is completed: with a gateway that accepts every request, the
  monitor ends, and the market orders it sends are exactly the unfilled remainder of the resting leg,
  on its own symbol and side, sized from its settled record: nothing if that record is filled or
  lacks at most 1e-12, so that filled plus hedged quantity is the quantity of the leg.
\<close>

theorem filled_pair_is_hedged:
  assumes w: "silent w"
    and f: "first_race c1 c2 (w_first w 0) (w_env w 0 e) = (Some (is1, fr), e1)" "or_status fr = Filled"
    and m: "monitor_pair w id1 leg1 c1 id2 leg2 c2 e = (res, h, e')"
    and legs: "(rl, rid, rc, fl, fid) = (if is1 then (leg2, id2, c2, leg1, id1) else (leg1, id1, c1, leg2, id2))"
    and fin: "r = resting_final w rc (leg_symbol rl) rid (fnv1a64 rid)
                    (release_terminal (fnv1a64 fid) (apply_fill_pnl fr fl e1))"
  shows "res = Done \<and> (\<exists>new. ee_sent e' = ee_sent e @ new \<and>
     (\<forall>symbol side. market_qty symbol side new =
        (if symbol = leg_symbol rl \<and> side = leg_side rl \<and> or_status r \<noteq> Filled \<and>
            1 / 10 ^ 12 < or_qty r - or_filled_qty r
         then or_qty r - or_filled_qty r else 0)))"
proof -
  have "complete_pair w fr fl (fnv1a64 fid) rc rid rl (fnv1a64 rid) e1 = (res, h, e')"
    using m f legs by (simp add: monitor_pair_def split: if_splits)
  from complete_pair_sent [OF w this fin] obtain cid cancels where
    s: "res = Done" "ee_sent e' = ee_sent e1 @ cancels @
     (if or_status r = Filled \<or> or_qty r - or_filled_qty r \<le> 1 / 10 ^ 12 then []
      else [SendMarket cid (leg_symbol rl) (leg_side rl) (or_qty r - or_filled_qty r)])"
     "cancels \<in> {[], [CancelOrder (leg_symbol rl) rid]}" by blast
  have "ee_sent e1 = ee_sent e"
    using first_race_sent [OF f(1)] w by (simp add: silent_def)
  with s show ?thesis
    by (intro conjI exI [of _ "cancels @ _"]) (auto simp: market_qty_cancel_hedge [OF s(3)])
qed

text \<open>The record of the partner that the monitor acts on after the first leg settled unfilled.\<close>

definition partner_final :: "world \<Rightarrow> nat \<Rightarrow> string \<Rightarrow> string \<Rightarrow> u64 \<Rightarrow> engine \<Rightarrow> OrderRecord" where
  "partner_final w c symbol cid key e =
     fst (await_authoritative_after_cancel w c key (snd (await (w_net w) (CancelOrder symbol cid) e)))"

lemma abandon_pair_sent:
  assumes w: "silent w" and r: "abandon_pair w fk c rid leg rk e = (res, h, e')"
    and fin: "p = partner_final w c (leg_symbol leg) rid rk (release_terminal fk e)"
  shows "res = Done \<and> (\<exists>cid. ee_sent e' = ee_sent e @ [CancelOrder (leg_symbol leg) rid] @
     (if or_filled_qty p \<le> 0 \<or> or_qty p - or_filled_qty p \<le> 1 / 10 ^ 12 then []
      else [SendMarket cid (leg_symbol leg) (leg_side leg) (or_qty p - or_filled_qty p)]))"
proof -
  let ?e1 = "(release_terminal fk e)\<lparr>ee_sent := ee_sent e @ [CancelOrder (leg_symbol leg) rid]\<rparr>"
  obtain rec e2 where a: "await_authoritative_after_cancel w c rk ?e1 = (rec, e2)" by fastforce
  have p: "p = rec" using a by (simp add: fin partner_final_def await_silent [OF w])
  have e2: "ee_sent e2 = ee_sent e @ [CancelOrder (leg_symbol leg) rid]"
    using await_authoritative_sent [OF w a] by simp
  show ?thesis
  proof (cases "0 < or_filled_qty rec")
    case True
    then have "hedge_remaining w leg (or_qty rec - or_filled_qty rec)
        (apply_fill_pnl rec leg (release_terminal rk e2)) = (res, h, e')"
      using r a by (simp add: abandon_pair_def await_silent [OF w] Let_def)
    from hedge_sent [OF w this] True e2 p show ?thesis by auto
  next
    case False
    then show ?thesis using r a e2 p by (auto simp: abandon_pair_def await_silent [OF w] Let_def)
  qed
qed

text \<open>
  (C39) A pair whose first leg settles without filling is not flattened: when the partner has filled
  any quantity, the monitor sends no order on the opposite side; it buys (or sells) the partner's
  unfilled remainder in the partner's own direction. The open quantity on the partner's symbol ends
  at the full order quantity, or stays as filled if that was complete, with no leg against it.
\<close>

theorem abandoned_partner_stays_exposed:
  assumes w: "silent w"
    and f: "first_race c1 c2 (w_first w 0) (w_env w 0 e) = (Some (is1, fr), e1)" "or_status fr \<noteq> Filled"
    and m: "monitor_pair w id1 leg1 c1 id2 leg2 c2 e = (res, h, e')"
    and legs: "(rl, rid, rc, fid) = (if is1 then (leg2, id2, c2, id1) else (leg1, id1, c1, id2))"
    and fin: "p = partner_final w rc (leg_symbol rl) rid (fnv1a64 rid) (release_terminal (fnv1a64 fid) e1)"
    and filled: "0 < or_filled_qty p"
  shows "res = Done \<and> (\<exists>new. ee_sent e' = ee_sent e @ new \<and>
     or_filled_qty p + market_qty (leg_symbol rl) (leg_side rl) new
       - market_qty (leg_symbol rl) (opposite (leg_side rl)) new
     = (if or_qty p - or_filled_qty p \<le> 1 / 10 ^ 12 then or_filled_qty p else or_qty p))"
proof -
  have "abandon_pair w (fnv1a64 fid) rc rid rl (fnv1a64 rid) e1 = (res, h, e')"
    using m f legs by (simp add: monitor_pair_def split: if_splits)
  from abandon_pair_sent [OF w this fin] obtain cid where
    s: "res = Done" "ee_sent e' = ee_sent e1 @ [CancelOrder (leg_symbol rl) rid] @
     (if or_filled_qty p \<le> 0 \<or> or_qty p - or_filled_qty p \<le> 1 / 10 ^ 12 then []
      else [SendMarket cid (leg_symbol rl) (leg_side rl) (or_qty p - or_filled_qty p)])" by blast
  have e1: "ee_sent e1 = ee_sent e"
    using first_race_sent [OF f(1)] w by (simp add: silent_def)
  have neq: "leg_side rl \<noteq> opposite (leg_side rl)" by (cases "leg_side rl") (simp_all add: opposite_def)
  let ?new = "[CancelOrder (leg_symbol rl) rid] @
     (if or_filled_qty p \<le> 0 \<or> or_qty p - or_filled_qty p \<le> 1 / 10 ^ 12 then []
      else [SendMarket cid (leg_symbol rl) (leg_side rl) (or_qty p - or_filled_qty p)])"
  have "or_filled_qty p + market_qty (leg_symbol rl) (leg_side rl) ?new
       - market_qty (leg_symbol rl) (opposite (leg_side rl)) ?new
     = (if or_qty p - or_filled_qty p \<le> 1 / 10 ^ 12 then or_filled_qty p else or_qty p)"
    using filled neq by auto
  moreover have "ee_sent e' = ee_sent e @ ?new" by (simp only: s(2) e1)
  ultimately show ?thesis using s(1) by blast
qed

text \<open>A pair on a gateway that accepts everything, whose second leg reports \<open>rec\<close> while waited for.\<close>

definition demo_world :: "OrderRecord \<Rightarrow> world" where
  "demo_world rec = \<lparr>w_net = \<lambda>req e. (True, e),
     w_env = \<lambda>i e. if i = 0 then e else e\<lparr>ee_chans := [[], [rec]]\<rparr>,
     w_first = \<lambda>_. False, w_clock = \<lambda>_. (0, 0)\<rparr>"

definition demo_engine :: "OrderStatus \<Rightarrow> engine" where
  "demo_engine st = (ExecutionEngine OMSCore 40)\<lparr>ee_chans := [[empty_record\<lparr>or_status := st\<rparr>], []]\<rparr>"

lemma demo_silent: "silent (demo_world rec)"
  by (simp add: silent_def calm_def demo_world_def)

lemma demo_first_race:
  assumes "is_terminal st"
  shows "first_race 0 1 (w_first (demo_world rec) 0) (w_env (demo_world rec) 0 (demo_engine st)) =
    (Some (True, empty_record\<lparr>or_status := st\<rparr>), (demo_engine st)\<lparr>ee_chans := [[], []]\<rparr>)"
  using assms by (simp add: first_race_def receive_def demo_world_def demo_engine_def)

lemma demo_oms_get: "oms_get (release key (set_update_callback b OMSCore)) k = None"
  by (simp add: oms_get_def release_def set_update_callback_def OMSCore_def)

theorem filled_pair_is_hedged_witness:
  "\<exists>w e e' new. silent w \<and> ee_sent e' = ee_sent e @ new \<and>
     (\<exists>h. monitor_pair w ''a'' \<lparr>leg_symbol = ''BTCUSDT'', leg_side = Buy, leg_qty = 1, leg_price = 100\<rparr> 0
        ''b'' \<lparr>leg_symbol = ''ETHUSDT'', leg_side = Sell, leg_qty = 2, leg_price = 50\<rparr> 1 e = (Done, h, e')) \<and>
     market_qty ''ETHUSDT'' Sell new = 3 / 2"
proof -
  let ?l1 = "\<lparr>leg_symbol = ''BTCUSDT'', leg_side = Buy, leg_qty = 1, leg_price = 100 :: real\<rparr>"
  let ?l2 = "\<lparr>leg_symbol = ''ETHUSDT'', leg_side = Sell, leg_qty = 2, leg_price = 50 :: real\<rparr>"
  define rec where "rec = empty_record\<lparr>or_status := Canceled, or_qty := 2, or_filled_qty := 1 / 2\<rparr>"
  let ?w = "demo_world rec"
  obtain res h e' where m: "monitor_pair ?w ''a'' ?l1 0 ''b'' ?l2 1 (demo_engine Filled) = (res, h, e')"
    using prod_cases3 by blast
  have f: "first_race 0 1 (w_first ?w 0) (w_env ?w 0 (demo_engine Filled)) =
    (Some (True, empty_record\<lparr>or_status := Filled\<rparr>), (demo_engine Filled)\<lparr>ee_chans := [[], []]\<rparr>)"
    by (rule demo_first_race) (simp add: is_terminal_def)
  have r: "rec = resting_final ?w 1 (leg_symbol ?l2) ''b'' (fnv1a64 ''b'')
      (release_terminal (fnv1a64 ''a'') (apply_fill_pnl (empty_record\<lparr>or_status := Filled\<rparr>) ?l1
        ((demo_engine Filled)\<lparr>ee_chans := [[], []]\<rparr>)))"
    by (simp add: resting_final_def timed_race_def receive_def demo_world_def)
      (simp add: rec_def is_terminal_def)
  have legs: "(?l2, ''b'', 1 :: nat, ?l1, ''a'') =
      (if True then (?l2, ''b'', 1, ?l1, ''a'') else (?l1, ''a'', 0, ?l2, ''b''))" by simp
  from filled_pair_is_hedged [OF demo_silent f _ m legs r]
  obtain new where "res = Done" "ee_sent e' = ee_sent (demo_engine Filled) @ new"
    "market_qty ''ETHUSDT'' Sell new = 3 / 2" by (auto simp: rec_def)
  then show ?thesis using m demo_silent [of rec] by blast
qed

theorem abandoned_partner_stays_exposed_witness:
  "\<exists>w e e' new (p :: OrderRecord). silent w \<and> ee_sent e' = ee_sent e @ new \<and>
     (\<exists>h. monitor_pair w ''a'' \<lparr>leg_symbol = ''BTCUSDT'', leg_side = Buy, leg_qty = 1, leg_price = 100\<rparr> 0
        ''b'' \<lparr>leg_symbol = ''ETHUSDT'', leg_side = Sell, leg_qty = 2, leg_price = 50\<rparr> 1 e = (Done, h, e')) \<and>
     or_filled_qty p = 1 / 2 \<and>
     or_filled_qty p + market_qty ''ETHUSDT'' Sell new - market_qty ''ETHUSDT'' Buy new = 2"
proof -
  let ?l1 = "\<lparr>leg_symbol = ''BTCUSDT'', leg_side = Buy, leg_qty = 1, leg_price = 100 :: real\<rparr>"
  let ?l2 = "\<lparr>leg_symbol = ''ETHUSDT'', leg_side = Sell, leg_qty = 2, leg_price = 50 :: real\<rparr>"
  define rec where "rec = empty_record\<lparr>or_status := Canceled, or_qty := 2, or_filled_qty := 1 / 2\<rparr>"
  let ?w = "demo_world rec"
  obtain res h e' where m: "monitor_pair ?w ''a'' ?l1 0 ''b'' ?l2 1 (demo_engine Rejected) = (res, h, e')"
    using prod_cases3 by blast
  have f: "first_race 0 1 (w_first ?w 0) (w_env ?w 0 (demo_engine Rejected)) =
    (Some (True, empty_record\<lparr>or_status := Rejected\<rparr>), (demo_engine Rejected)\<lparr>ee_chans := [[], []]\<rparr>)"
    by (rule demo_first_race) (simp add: is_terminal_def)
  have r: "rec = partner_final ?w 1 (leg_symbol ?l2) ''b'' (fnv1a64 ''b'')
      (release_terminal (fnv1a64 ''a'') ((demo_engine Rejected)\<lparr>ee_chans := [[], []]\<rparr>))"
    by (simp add: partner_final_def await_def timed_race_def receive_def demo_world_def
        await_authoritative_after_cancel_def release_terminal_def demo_engine_def ExecutionEngine_def
        demo_oms_get) (simp add: rec_def is_terminal_def)
  have legs: "(?l2, ''b'', 1 :: nat, ''a'') =
      (if True then (?l2, ''b'', 1, ''a'') else (?l1, ''a'', 0, ''b''))" by simp
  have "0 < or_filled_qty rec" by (simp add: rec_def)
  from abandoned_partner_stays_exposed [OF demo_silent f _ m legs r this]
  obtain new where "res = Done" "ee_sent e' = ee_sent (demo_engine Rejected) @ new"
    "or_filled_qty rec + market_qty ''ETHUSDT'' Sell new - market_qty ''ETHUSDT'' Buy new = 2"
    by (auto simp: rec_def opposite_def)
  moreover have "or_filled_qty rec = 1 / 2" by (simp add: rec_def)
  moreover note m demo_silent [of rec]
  ultimately have "silent ?w \<and> ee_sent e' = ee_sent (demo_engine Rejected) @ new \<and>
      (\<exists>h. monitor_pair ?w ''a'' ?l1 0 ''b'' ?l2 1 (demo_engine Rejected) = (Done, h, e')) \<and>
      or_filled_qty rec = 1 / 2 \<and>
      or_filled_qty rec + market_qty ''ETHUSDT'' Sell new - market_qty ''ETHUSDT'' Buy new = 2"
    by simp
  then show ?thesis by blast
qed

section \<open>Fills into the book\<close>

lemma snapshot_fill:
  "0 < d \<Longrightarrow> 0 < p \<Longrightarrow>
     ps_qty (snapshot sy (apply_fill sy side d p b)) = ps_qty (snapshot sy b) + signed_dir side * d"
  by (simp add: snapshot_def apply_fill_def update_conv' fill_position_qty book_entry_def)

lemma snapshot_commission: "ps_qty (snapshot sy (apply_commission sy' c b)) = ps_qty (snapshot sy b)"
  by (auto simp: snapshot_def apply_commission_def update_conv' book_entry_def Let_def split: option.splits)

text \<open>
  Reports of one order whose cumulative quantity grows, from a quantity already accounted for, in
  steps that are zero or larger than the threshold of \<open>apply_fill_pnl\<close>.
\<close>

fun fill_steps :: "i64 \<Rightarrow> dbl \<Rightarrow> OrderRecord list \<Rightarrow> bool" where
  "fill_steps ex prev [] \<longleftrightarrow> True"
| "fill_steps ex prev (r # rs) \<longleftrightarrow> or_exchange_order_id r = ex \<and>
     (or_filled_qty r = prev \<or> 1 / 10 ^ 12 < or_filled_qty r - prev \<and> 0 < or_avg_fill_price r) \<and>
     fill_steps ex (or_filled_qty r) rs"

definition accounted :: "engine \<Rightarrow> i64 \<Rightarrow> dbl" where
  "accounted e ex = (case ee_last_filled e ex of None \<Rightarrow> 0 | Some q \<Rightarrow> q)"

lemma apply_fill_pnl_qty:
  assumes "or_exchange_order_id r = ex"
    and "or_filled_qty r = accounted e ex \<or>
      1 / 10 ^ 12 < or_filled_qty r - accounted e ex \<and> 0 < or_avg_fill_price r"
  shows "ps_qty (snapshot (leg_symbol leg) (ee_pnl (apply_fill_pnl r leg e))) =
      ps_qty (snapshot (leg_symbol leg) (ee_pnl e)) +
        signed_dir (leg_side leg) * (or_filled_qty r - accounted e ex) \<and>
    accounted (apply_fill_pnl r leg e) ex = or_filled_qty r"
proof -
  have pos: "(0 :: real) < 1 / 10 ^ 12" by simp
  have "0 < d" if "1 / 10 ^ 12 < d" for d :: real using that less_trans [OF pos] by blast
  then show ?thesis
    using assms by (auto simp: apply_fill_pnl_def accounted_def Let_def snapshot_commission snapshot_fill
        split: option.splits)
qed

text \<open>
  Repeated reports of one order are counted once: over any sequence of cumulative reports of an
  exchange order, duplicates included, the position of the leg's symbol moves by exactly the
  difference between the last reported quantity and the quantity accounted for before.
\<close>

theorem fill_reports_counted_once:
  assumes "fill_steps ex (accounted e ex) rs"
    and "e' = fold (\<lambda>r. apply_fill_pnl r leg) rs e"
  shows "ps_qty (snapshot (leg_symbol leg) (ee_pnl e')) =
      ps_qty (snapshot (leg_symbol leg) (ee_pnl e)) +
        signed_dir (leg_side leg) * (last (accounted e ex # map or_filled_qty rs) - accounted e ex)"
  using assms
proof (induction rs arbitrary: e)
  case (Cons r rs)
  let ?e = "apply_fill_pnl r leg e"
  have st: "ps_qty (snapshot (leg_symbol leg) (ee_pnl ?e)) =
      ps_qty (snapshot (leg_symbol leg) (ee_pnl e)) +
        signed_dir (leg_side leg) * (or_filled_qty r - accounted e ex)"
    "accounted ?e ex = or_filled_qty r"
    using apply_fill_pnl_qty [of r ex e leg] Cons.prems(1) by auto
  have "fill_steps ex (accounted ?e ex) rs" "e' = fold (\<lambda>r. apply_fill_pnl r leg) rs ?e"
    using Cons.prems st(2) by simp_all
  from Cons.IH [OF this] show ?case
    by (simp add: st) (simp add: algebra_simps)
qed simp

theorem fill_reports_counted_once_witness:
  "\<exists>e'. e' = fold (\<lambda>r. apply_fill_pnl r \<lparr>leg_symbol = ''BTCUSDT'', leg_side = Sell, leg_qty = 3, leg_price = 100\<rparr>)
      [empty_record\<lparr>or_exchange_order_id := 7, or_filled_qty := 1, or_avg_fill_price := 100\<rparr>,
       empty_record\<lparr>or_exchange_order_id := 7, or_filled_qty := 1, or_avg_fill_price := 100\<rparr>,
       empty_record\<lparr>or_exchange_order_id := 7, or_filled_qty := 3, or_avg_fill_price := 101\<rparr>]
      (ExecutionEngine OMSCore 40) \<and> ps_qty (snapshot ''BTCUSDT'' (ee_pnl e')) = - 3"
proof -
  let ?rs = "[empty_record\<lparr>or_exchange_order_id := 7, or_filled_qty := 1, or_avg_fill_price := 100\<rparr>,
       empty_record\<lparr>or_exchange_order_id := 7, or_filled_qty := 1, or_avg_fill_price := 100\<rparr>,
       empty_record\<lparr>or_exchange_order_id := 7, or_filled_qty := 3, or_avg_fill_price := 101\<rparr>]"
  let ?e = "ExecutionEngine OMSCore 40"
  let ?leg = "\<lparr>leg_symbol = ''BTCUSDT'', leg_side = Sell, leg_qty = 3, leg_price = 100 :: real\<rparr>"
  have a: "accounted ?e 7 = 0" "ps_qty (snapshot ''BTCUSDT'' (ee_pnl ?e)) = 0"
    by (simp_all add: accounted_def ExecutionEngine_def snapshot_def flat_def)
  have "fill_steps 7 (accounted ?e 7) ?rs" unfolding a by (simp add: field_simps)
  from fill_reports_counted_once [OF this refl, of ?leg] show ?thesis
    by (simp add: a signed_dir_def)
qed

end
