(* ===== verification/Memory_Arena.thy ===== *)
theory Memory_Arena
  imports Prelude
begin

text \<open>
  The bump allocator \<open>MemoryArena\<close> of \<open>engine/core/memory_arena.hpp\<close>. The state is the capacity,
  the base address and the cursor of the class; addresses and sizes are \<open>u64\<close> and wrap like
  \<open>std::size_t\<close>. A C++ type is what \<open>alloc<T>\<close> uses of it, its size and alignment; the address
  \<open>::operator new\<close> returned is an argument of the constructor. The asserts of the source are
  compiled out of the release build, so they are no branch of the model.

  The interface of the allocator is the locale \<open>region_allocator\<close>, whose client lemma
  says that any sequence of requests is served with pairwise disjoint regions.
\<close>

section \<open>Model\<close>

definition k_cache_line :: u64 where
  "k_cache_line = 64"

definition k_page_size :: u64 where
  "k_page_size = 4096"

definition k_arena_align :: u64 where
  "k_arena_align = k_page_size"

record ctype =
  sizeof :: u64
  alignof :: u64

record arena =
  ar_capacity :: u64
  ar_base :: u64
  ar_cursor :: u64

definition align_up :: "u64 \<Rightarrow> u64 \<Rightarrow> u64" where
  "align_up v alignment = (v + alignment - 1) AND NOT (alignment - 1)"

definition MemoryArena :: "u64 \<Rightarrow> u64 \<Rightarrow> arena" where
  "MemoryArena new_addr capacity_bytes =
     \<lparr>ar_capacity = align_up capacity_bytes k_arena_align, ar_base = new_addr, ar_cursor = 0\<rparr>"

definition alloc_alignment :: "ctype \<Rightarrow> u64" where
  "alloc_alignment T = (if alignof T < k_cache_line then alignof T else k_cache_line)"

definition alloc :: "ctype \<Rightarrow> u64 \<Rightarrow> arena \<Rightarrow> u64 option \<times> arena" where
  "alloc T count a =
     (let alignment = alloc_alignment T;
          aligned_cursor = align_up (ar_cursor a) alignment;
          required = sizeof T * count
      in if aligned_cursor + required > ar_capacity a then (None, a)
         else (Some (ar_base a + aligned_cursor), a\<lparr>ar_cursor := aligned_cursor + required\<rparr>))"

text \<open>A \<open>std::span\<close> is its first address and its length; the default span is \<open>(0, 0)\<close>.\<close>

definition alloc_span :: "ctype \<Rightarrow> u64 \<Rightarrow> arena \<Rightarrow> (u64 \<times> u64) \<times> arena" where
  "alloc_span T count a =
     (case alloc T count a of
        (None, a') \<Rightarrow> ((0, 0), a')
      | (Some ptr, a') \<Rightarrow> ((ptr, count), a'))"

definition emplace :: "ctype \<Rightarrow> arena \<Rightarrow> u64 option \<times> arena" where
  "emplace T a = alloc T 1 a"

definition reset :: "arena \<Rightarrow> arena" where
  "reset a = a\<lparr>ar_cursor := 0\<rparr>"

definition used :: "arena \<Rightarrow> u64" where
  "used a = ar_cursor a"

definition remaining :: "arena \<Rightarrow> u64" where
  "remaining a = ar_capacity a - ar_cursor a"

definition utilization :: "arena \<Rightarrow> dbl" where
  "utilization a = real (unat (ar_cursor a)) / real (unat (ar_capacity a))"

text \<open>
  A request is a type and a count; \<open>alloc_at\<close> is \<open>alloc\<close> on requests with the address as a number,
  and \<open>serve\<close> runs a list of requests against any allocator and keeps what was granted.
\<close>

type_synonym alloc_request = "ctype \<times> u64"

definition request_bytes :: "alloc_request \<Rightarrow> nat" where
  "request_bytes r = unat (sizeof (fst r)) * unat (snd r)"

definition request_align :: "alloc_request \<Rightarrow> nat" where
  "request_align r = min (unat (alignof (fst r))) 64"

definition request_ok :: "alloc_request \<Rightarrow> bool" where
  "request_ok r \<longleftrightarrow> is_pow2 (alignof (fst r)) \<and> request_bytes r \<le> 2 ^ 62"

definition alloc_at :: "alloc_request \<Rightarrow> arena \<Rightarrow> nat option \<times> arena" where
  "alloc_at r a = map_prod (map_option unat) id (alloc (fst r) (snd r) a)"

fun serve :: "('r \<Rightarrow> 's \<Rightarrow> nat option \<times> 's) \<Rightarrow> 'r list \<Rightarrow> 's \<Rightarrow> (nat \<times> 'r) list \<times> 's" where
  "serve step [] s = ([], s)"
| "serve step (r # rs) s =
     (case step r s of
        (None, s') \<Rightarrow> serve step rs s'
      | (Some p, s') \<Rightarrow> map_prod (Cons (p, r)) id (serve step rs s'))"

definition arena_inv :: "arena \<Rightarrow> bool" where
  "arena_inv a \<longleftrightarrow>
     unat (ar_cursor a) \<le> unat (ar_capacity a) \<and> unat (ar_capacity a) \<le> 2 ^ 62 \<and>
     unat (ar_base a) + unat (ar_capacity a) < 2 ^ 64 \<and> 4096 dvd unat (ar_base a)"

lemmas [holo_simps] = k_cache_line_def k_page_size_def k_arena_align_def used_def remaining_def
  reset_def emplace_def alloc_span_def

section \<open>Rounding up\<close>

lemma align_up_pow2: "align_up v (2 ^ k) = (v + (2 ^ k - 1)) AND NOT (mask k)"
  by (simp add: align_up_def mask_pow2 [symmetric] algebra_simps)

lemma unat_align_up:
  assumes "is_pow2 al" and "unat v + unat al \<le> 2 ^ 64"
  shows "unat (align_up v al) = (unat v + (unat al - 1)) div unat al * unat al"
proof -
  obtain k where k: "k < 64" "al = 2 ^ k" "unat al = 2 ^ k"
    using assms(1) by (rule is_pow2_cases)
  have "unat ((2 :: u64) ^ k - 1) = 2 ^ k - 1"
    using k by (simp add: unat_sub word_le_nat_alt unat_pow2)
  then have "unat (v + (2 ^ k - 1)) = unat v + (2 ^ k - 1)"
    using assms(2) k(3) by (simp add: unat_add_no_wrap)
  then show ?thesis
    by (simp add: k align_up_pow2 unat_and_not_mask minus_mod_eq_div_mult unat_pow2)
qed

text \<open>
  Alignment rounding: for a power of two \<open>al\<close>, and as long as \<open>v + al - 1\<close> does not wrap,
  \<open>align_up v al\<close> is the least multiple of \<open>al\<close> that is at least \<open>v\<close>.
\<close>

theorem align_up_least_multiple:
  assumes "is_pow2 al" and "unat v + unat al \<le> 2 ^ 64"
  shows "unat al dvd unat (align_up v al) \<and> unat v \<le> unat (align_up v al) \<and>
         (\<forall>m. unat al dvd m \<longrightarrow> unat v \<le> m \<longrightarrow> unat (align_up v al) \<le> m)"
proof -
  have pos: "0 < unat al"
    using assms(1) by (auto elim: is_pow2_cases)
  show ?thesis
    unfolding unat_align_up [OF assms]
    using round_up_bounds [OF pos] round_up_least [OF pos] by (auto simp del: One_nat_def)
qed

section \<open>Sequences of requests\<close>

text \<open>
  What the engine relies on: a granted region starts at or after the first free address, satisfies
  \<open>fits\<close> (the alignment), and moves the first free address past its end but not past the limit; a
  refused request changes nothing.
\<close>

locale region_allocator =
  fixes step :: "'r \<Rightarrow> 's \<Rightarrow> nat option \<times> 's"
    and inv :: "'s \<Rightarrow> bool"
    and ok :: "'r \<Rightarrow> bool"
    and bytes :: "'r \<Rightarrow> nat"
    and fits :: "nat \<Rightarrow> 'r \<Rightarrow> bool"
    and low :: "'s \<Rightarrow> nat"
    and high :: "'s \<Rightarrow> nat"
  assumes step_None: "inv s \<Longrightarrow> ok r \<Longrightarrow> step r s = (None, s') \<Longrightarrow> s' = s"
    and step_Some: "inv s \<Longrightarrow> ok r \<Longrightarrow> step r s = (Some p, s') \<Longrightarrow>
          inv s' \<and> low s \<le> p \<and> p + bytes r \<le> low s' \<and> fits p r \<and> high s' = high s"
    and low_high: "inv s \<Longrightarrow> low s \<le> high s"
begin

lemma serve_regions:
  assumes "inv s" and "\<forall>r \<in> set rs. ok r" and "serve step rs s = (gs, s')"
  shows "inv s' \<and> high s' = high s \<and> low s \<le> low s' \<and>
         (\<forall>(p, r) \<in> set gs. low s \<le> p \<and> p + bytes r \<le> low s' \<and> fits p r) \<and>
         sorted_wrt (\<lambda>(p, r) (q, r'). p + bytes r \<le> q) gs"
  using assms
proof (induction rs arbitrary: s gs)
  case Nil
  then show ?case by simp
next
  case (Cons r rs)
  obtain res t where st: "step r s = (res, t)" by fastforce
  show ?case
  proof (cases res)
    case None
    with Cons.prems st have "t = s" by (auto dest: step_None)
    with Cons.prems st None show ?thesis by (auto dest: Cons.IH)
  next
    case (Some p)
    with Cons.prems st have t: "inv t" "low s \<le> p" "p + bytes r \<le> low t" "fits p r"
        "high t = high s"
      by (auto dest: step_Some)
    obtain gs' where gs: "gs = (p, r) # gs'" and sv: "serve step rs t = (gs', s')"
      using Cons.prems(3) st Some by (cases "serve step rs t") auto
    have "\<forall>r \<in> set rs. ok r" using Cons.prems(2) by simp
    from Cons.IH [OF t(1) this sv] t show ?thesis by (fastforce simp: gs)
  qed
qed

lemma serve_within:
  assumes "inv s" and "\<forall>r \<in> set rs. ok r" and "serve step rs s = (gs, s')"
    and "(p, r) \<in> set gs"
  shows "low s \<le> p \<and> p + bytes r \<le> high s \<and> fits p r"
  using serve_regions [OF assms(1-3)] assms(4) low_high [of s'] by fastforce

end

lemma request_align_pow2:
  assumes "is_pow2 (alignof T)"
  defines "al \<equiv> alloc_alignment T"
  shows "is_pow2 al" and "unat al = min (unat (alignof T)) 64" and "unat al dvd 4096"
proof -
  obtain k where k: "k < 64" "alignof T = 2 ^ k" "unat (alignof T) = 2 ^ k"
    using assms(1) by (rule is_pow2_cases)
  show "unat al = min (unat (alignof T)) 64"
    by (simp add: al_def alloc_alignment_def word_less_nat_alt k_cache_line_def min_def)
  show p: "is_pow2 al"
    using assms(1) is_pow2I [of 6] by (simp add: al_def alloc_alignment_def k_cache_line_def)
  have "unat al = 2 ^ (min k 6)"
    using k power_strict_increasing_iff [of "2 :: nat" k 6]
    by (auto simp: al_def alloc_alignment_def k_cache_line_def word_less_nat_alt min_def)
  then show "unat al dvd 4096"
    using le_imp_power_dvd [of "min k 6" 12 "2 :: nat"] by simp
qed

lemma alloc_step:
  assumes inv: "arena_inv a" and ok: "request_ok (T, c)"
  defines "al \<equiv> alloc_alignment T"
  shows "alloc T c a =
           (if unat (align_up (ar_cursor a) al) + request_bytes (T, c) > unat (ar_capacity a)
            then (None, a)
            else (Some (ar_base a + align_up (ar_cursor a) al),
                  a\<lparr>ar_cursor := align_up (ar_cursor a) al + sizeof T * c\<rparr>))"
    and "unat (align_up (ar_cursor a) al + sizeof T * c) =
           unat (align_up (ar_cursor a) al) + request_bytes (T, c)"
    and "unat (ar_cursor a) \<le> unat (align_up (ar_cursor a) al)"
    and "unat al dvd unat (align_up (ar_cursor a) al)"
proof -
  have al: "is_pow2 al" "unat al \<le> 64"
    using request_align_pow2 [of T] ok by (simp_all add: al_def request_ok_def)
  have "unat (ar_cursor a) + unat al \<le> 2 ^ 64"
    using inv al(2) by (simp add: arena_inv_def)
  note ac = unat_align_up [OF al(1) this]
  have pos: "0 < unat al" using al(1) by (auto elim: is_pow2_cases)
  show up: "unat (ar_cursor a) \<le> unat (align_up (ar_cursor a) al)"
    and "unat al dvd unat (align_up (ar_cursor a) al)"
    unfolding ac using round_up_bounds(1) [OF pos] by simp_all
  have "unat (align_up (ar_cursor a) al) < unat (ar_cursor a) + unat al"
    unfolding ac by (rule round_up_bounds(2) [OF pos])
  with inv al(2) have small: "unat (align_up (ar_cursor a) al) < 2 ^ 63"
    by (simp add: arena_inv_def)
  have req: "unat (sizeof T * c) = request_bytes (T, c)"
    using ok by (simp add: request_ok_def request_bytes_def unat_mult_no_wrap)
  show sum: "unat (align_up (ar_cursor a) al + sizeof T * c) =
      unat (align_up (ar_cursor a) al) + request_bytes (T, c)"
    using small ok by (simp add: request_ok_def req unat_add_no_wrap)
  show "alloc T c a =
      (if unat (align_up (ar_cursor a) al) + request_bytes (T, c) > unat (ar_capacity a)
       then (None, a)
       else (Some (ar_base a + align_up (ar_cursor a) al),
             a\<lparr>ar_cursor := align_up (ar_cursor a) al + sizeof T * c\<rparr>))"
    using sum by (simp add: alloc_def Let_def al_def word_less_nat_alt)
qed

interpretation arena_alloc: region_allocator alloc_at arena_inv request_ok request_bytes
  "\<lambda>p r. request_align r dvd p" "\<lambda>a. unat (ar_base a) + unat (ar_cursor a)"
  "\<lambda>a. unat (ar_base a) + unat (ar_capacity a)"
proof unfold_locales
  fix a :: arena and r :: alloc_request and a'
  assume "arena_inv a" "request_ok r" "alloc_at r a = (None, a')"
  then show "a' = a"
    using alloc_step(1) [of a "fst r" "snd r"] by (auto simp: alloc_at_def split: if_splits)
next
  fix a :: arena and r :: alloc_request and p a'
  assume inv: "arena_inv a" and ok: "request_ok r" and st: "alloc_at r a = (Some p, a')"
  let ?T = "fst r" and ?c = "snd r"
  let ?ac = "align_up (ar_cursor a) (alloc_alignment ?T)"
  have ok': "request_ok (?T, ?c)" using ok by simp
  note step = alloc_step [OF inv ok']
  have le: "unat ?ac + request_bytes r \<le> unat (ar_capacity a)"
    and p: "p = unat (ar_base a + ?ac)"
    and a': "a' = a\<lparr>ar_cursor := ?ac + sizeof ?T * ?c\<rparr>"
    using st step(1) by (auto simp: alloc_at_def split: if_splits)
  have base: "unat (ar_base a + ?ac) = unat (ar_base a) + unat ?ac"
    using inv le by (intro unat_add_no_wrap) (auto simp: arena_inv_def)
  have al: "request_align r = unat (alloc_alignment ?T)" "unat (alloc_alignment ?T) dvd 4096"
    using request_align_pow2 [of ?T] ok by (simp_all add: request_align_def request_ok_def)
  have "request_align r dvd unat (ar_base a)"
    using al inv by (auto simp: arena_inv_def intro: dvd_trans)
  then show "arena_inv a' \<and> unat (ar_base a) + unat (ar_cursor a) \<le> p \<and>
      p + request_bytes r \<le> unat (ar_base a') + unat (ar_cursor a') \<and> request_align r dvd p \<and>
      unat (ar_base a') + unat (ar_capacity a') = unat (ar_base a) + unat (ar_capacity a)"
    using inv le step(2-4) base al by (simp add: a' p arena_inv_def)
qed (simp add: arena_inv_def)

lemma MemoryArena_inv [holo_inv]:
  assumes "4096 dvd unat b" and "unat cap \<le> 2 ^ 62" and "unat b + 2 ^ 62 < 2 ^ 64"
  shows "arena_inv (MemoryArena b cap)"
proof -
  have p: "is_pow2 (4096 :: u64)" using is_pow2I [of 12] by simp
  have h: "unat cap + unat (4096 :: u64) \<le> 2 ^ 64" using assms(2) by simp
  have "unat (align_up cap 4096) = (unat cap + 4095) div 4096 * 4096"
    using unat_align_up [OF p h] by simp
  also have "\<dots> \<le> 2 ^ 62"
    using round_up_least [of 4096 "2 ^ 62" "unat cap"] assms(2) by simp
  finally show ?thesis
    using assms by (simp add: arena_inv_def MemoryArena_def holo_simps)
qed

text \<open>
  (C15) Any sequence of \<open>alloc\<close> calls on a fresh arena is served with regions that lie inside the
  arena's memory, are aligned to the smaller of the type's alignment and a cache line, and do not
  overlap: each region ends before the next one granted starts. The arena and the requests are
  at most 2^62 bytes.
\<close>

theorem arena_regions_disjoint:
  assumes base: "4096 dvd unat b" "unat b + 2 ^ 62 < 2 ^ 64" and cap: "unat cap \<le> 2 ^ 62"
    and ok: "\<forall>r \<in> set rs. request_ok r"
    and run: "serve alloc_at rs (MemoryArena b cap) = (gs, a')"
  shows "sorted_wrt (\<lambda>(p, r) (q, r'). p + request_bytes r \<le> q) gs \<and>
         (\<forall>(p, r) \<in> set gs. request_align r dvd p \<and> unat b \<le> p \<and>
            p + request_bytes r \<le> unat b + unat (ar_capacity (MemoryArena b cap)))"
proof -
  note inv = MemoryArena_inv [OF base(1) cap base(2)]
  have "low_b \<le> p \<and> p + request_bytes r \<le> high_b \<and> request_align r dvd p"
    if "(p, r) \<in> set gs" "low_b = unat b" "high_b = unat b + unat (ar_capacity (MemoryArena b cap))"
    for p r low_b high_b
    using arena_alloc.serve_within [OF inv ok run that(1)] that(2,3)
    by (simp add: MemoryArena_def)
  then show ?thesis
    using arena_alloc.serve_regions [OF inv ok run] by auto
qed

theorem arena_regions_disjoint_witness:
  "\<exists>gs a'. serve alloc_at [(\<lparr>sizeof = 24, alignof = 8\<rparr>, 3), (\<lparr>sizeof = 64, alignof = 64\<rparr>, 1)]
       (MemoryArena 4096 100) = (gs, a') \<and>
     map fst gs = [4096, 4224] \<and>
     sorted_wrt (\<lambda>(p, r) (q, r'). p + request_bytes r \<le> q) gs"
proof -
  let ?rs = "[(\<lparr>sizeof = 24, alignof = 8\<rparr>, 3), (\<lparr>sizeof = 64, alignof = 64\<rparr>, 1)] :: alloc_request list"
  obtain gs a' where run: "serve alloc_at ?rs (MemoryArena 4096 100) = (gs, a')" by fastforce
  have "map fst gs = [4096, 4224]"
    using run by (auto simp: alloc_at_def alloc_def MemoryArena_def align_up_def
        alloc_alignment_def holo_simps Let_def)
  moreover have "is_pow2 8" "is_pow2 64"
    using is_pow2I [of 3] is_pow2I [of 6] by simp_all
  then have "\<forall>r \<in> set ?rs. request_ok r" by (simp add: request_ok_def request_bytes_def)
  from arena_regions_disjoint [OF _ _ _ this run]
  have "sorted_wrt (\<lambda>(p, r) (q, r'). p + request_bytes r \<le> q) gs" by simp
  ultimately show ?thesis using run by (intro exI conjI)
qed

text \<open>
  The size computation of \<open>alloc\<close> can wrap: whatever the arena's remaining space, a request
  for \<open>2^61\<close> objects of 24 bytes (the size of a \<open>LobUpdate\<close>) multiplies to 0 in 64 bits and is
  granted, and the next request for one object is granted the very same address.
\<close>

theorem alloc_size_wraps:
  assumes "arena_inv a" and "unat (ar_cursor a) + 56 \<le> unat (ar_capacity a)"
    and "8 dvd unat (ar_cursor a)"
    and T: "T = \<lparr>sizeof = 24, alignof = 8\<rparr>"
  shows "\<exists>p a' a''. alloc T (2 ^ 61) a = (Some p, a') \<and> alloc T 1 a' = (Some p, a'')"
proof -
  have p: "is_pow2 (8 :: u64)" using is_pow2I [of 3] by simp
  have "unat (ar_cursor a) + unat (8 :: u64) \<le> 2 ^ 64"
    using assms(1) by (simp add: arena_inv_def)
  from unat_align_up [OF p this] assms(3)
  have "unat (align_up (ar_cursor a) 8) = unat (ar_cursor a)"
    by (auto elim!: dvdE)
  then have up: "align_up (ar_cursor a) 8 = ar_cursor a" by (simp add: word_unat_eq_iff)
  have wrap: "(55340232221128654848 :: u64) = 0" by simp
  have "unat (ar_cursor a + 24) = unat (ar_cursor a) + 24"
    using assms(1) by (simp add: arena_inv_def unat_add_no_wrap)
  then have "\<not> ar_capacity a < ar_cursor a + 24" "\<not> ar_capacity a < ar_cursor a"
    using assms(2) by (simp_all add: word_less_nat_alt)
  then show ?thesis
    using up by (simp add: wrap T alloc_def alloc_alignment_def holo_simps Let_def)
qed

end
