(* ===== verification/Ring_Buffer.thy ===== *)
theory Ring_Buffer
  imports Memory_Arena
begin

text \<open>
  The single-producer single-consumer rings of \<open>engine/core/lockfree_ring_buffer.hpp\<close>:
  \<open>SpscRingBuffer<T, Capacity>\<close>, whose slots are a member array, and \<open>DynamicSpscRingBuffer<T>\<close>,
  whose slots come from the arena. Both keep a power-of-two capacity, the mask, the slots and two
  indices; one slot always stays free. Here each operation is one atomic call; the interleaving
  of the producer's and the consumer's memory accesses is the theory \<open>Ring_Concurrency\<close>.

  The interface is the locale \<open>bounded_fifo\<close>: \<open>contents\<close> is the queue as a list, a push appends
  to it unless it holds \<open>room\<close> elements, a pop takes its first element.
\<close>

section \<open>Model\<close>

record 'a ring =
  rb_capacity :: u64
  rb_mask :: u64
  rb_slots :: "'a list"
  rb_head :: u64
  rb_tail :: u64

text \<open>
  The slots of the dynamic ring are zero bytes of the arena: \<open>z\<close> is the value such a slot holds. A
  failed arena allocation leaves an empty span.
\<close>

definition DynamicSpscRingBuffer :: "ctype \<Rightarrow> 'a \<Rightarrow> arena \<Rightarrow> u64 \<Rightarrow> 'a ring \<times> arena" where
  "DynamicSpscRingBuffer T z a capacity =
     (case alloc_span T capacity a of
        ((ptr, n), a') \<Rightarrow>
          (\<lparr>rb_capacity = capacity, rb_mask = capacity - 1, rb_slots = replicate (unat n) z,
            rb_head = 0, rb_tail = 0\<rparr>, a'))"

definition try_push :: "'a \<Rightarrow> 'a ring \<Rightarrow> bool \<times> 'a ring" where
  "try_push item r =
     (let head = rb_head r;
          nxt = (head + 1) AND rb_mask r
      in if nxt = rb_tail r then (False, r)
         else (True, r\<lparr>rb_slots := (rb_slots r)[unat head := item], rb_head := nxt\<rparr>))"

definition try_pop :: "'a ring \<Rightarrow> 'a option \<times> 'a ring" where
  "try_pop r =
     (let tail = rb_tail r
      in if tail = rb_head r then (None, r)
         else (Some (rb_slots r ! unat tail), r\<lparr>rb_tail := (tail + 1) AND rb_mask r\<rparr>))"

text \<open>
  The blocking calls spin on the non-blocking ones. What the other thread does to the ring between
  two attempts is the argument \<open>env\<close>, indexed by the attempt; \<open>None\<close> is a spin that never ends.
\<close>

partial_function (option) push_blocking ::
    "(nat \<Rightarrow> 'a ring \<Rightarrow> 'a ring) \<Rightarrow> nat \<Rightarrow> 'a \<Rightarrow> 'a ring \<Rightarrow> 'a ring option" where
  "push_blocking env i item r =
     (case try_push item r of
        (ok, r') \<Rightarrow> if ok then Some r' else push_blocking env (Suc i) item (env i r'))"

partial_function (option) pop_blocking ::
    "(nat \<Rightarrow> 'a ring \<Rightarrow> 'a ring) \<Rightarrow> nat \<Rightarrow> 'a ring \<Rightarrow> ('a \<times> 'a ring) option" where
  "pop_blocking env i r =
     (case try_pop r of
        (Some x, r') \<Rightarrow> Some (x, r')
      | (None, r') \<Rightarrow> pop_blocking env (Suc i) (env i r'))"

definition ring_empty :: "'a ring \<Rightarrow> bool" where
  "ring_empty r \<longleftrightarrow> rb_tail r = rb_head r"

definition usable_capacity :: "'a ring \<Rightarrow> u64" where
  "usable_capacity r = rb_capacity r - 1"

text \<open>
  The static ring: capacity and mask are template constants, the members are the slots and the two
  indices. The constructor leaves the slots uninitialised (\<open>z\<close> is what they happen to hold).
\<close>

record 'a spsc =
  sp_slots :: "'a list"
  sp_head :: u64
  sp_tail :: u64

definition SpscRingBuffer :: "u64 \<Rightarrow> 'a list \<Rightarrow> 'a spsc" where
  "SpscRingBuffer Capacity z = \<lparr>sp_slots = take (unat Capacity) z, sp_head = 0, sp_tail = 0\<rparr>"

definition k_mask :: "u64 \<Rightarrow> u64" where
  "k_mask Capacity = Capacity - 1"

definition spsc_try_push :: "u64 \<Rightarrow> 'a \<Rightarrow> 'a spsc \<Rightarrow> bool \<times> 'a spsc" where
  "spsc_try_push Capacity item r =
     (let head = sp_head r;
          nxt = (head + 1) AND k_mask Capacity
      in if nxt = sp_tail r then (False, r)
         else (True, r\<lparr>sp_slots := (sp_slots r)[unat head := item], sp_head := nxt\<rparr>))"

definition spsc_try_pop :: "u64 \<Rightarrow> 'a spsc \<Rightarrow> 'a option \<times> 'a spsc" where
  "spsc_try_pop Capacity r =
     (let tail = sp_tail r
      in if tail = sp_head r then (None, r)
         else (Some (sp_slots r ! unat tail), r\<lparr>sp_tail := (tail + 1) AND k_mask Capacity\<rparr>))"

definition spsc_empty :: "'a spsc \<Rightarrow> bool" where
  "spsc_empty r \<longleftrightarrow> sp_tail r = sp_head r"

definition size_approx :: "u64 \<Rightarrow> 'a spsc \<Rightarrow> u64" where
  "size_approx Capacity r = (sp_head r - sp_tail r + Capacity) AND k_mask Capacity"

definition spsc_capacity :: "u64 \<Rightarrow> u64" where
  "spsc_capacity Capacity = Capacity - 1"

text \<open>The static ring read as a dynamic one of the same capacity.\<close>

definition as_dynamic :: "u64 \<Rightarrow> 'a spsc \<Rightarrow> 'a ring" where
  "as_dynamic Capacity r =
     \<lparr>rb_capacity = Capacity, rb_mask = k_mask Capacity, rb_slots = sp_slots r,
      rb_head = sp_head r, rb_tail = sp_tail r\<rparr>"

section \<open>Contents and well-formedness\<close>

definition ring_ok :: "'a ring \<Rightarrow> bool" where
  "ring_ok r \<longleftrightarrow>
     (\<exists>k \<ge> 1. k < 64 \<and> rb_capacity r = 2 ^ k \<and> length (rb_slots r) = 2 ^ k \<and>
        unat (rb_head r) < 2 ^ k \<and> unat (rb_tail r) < 2 ^ k) \<and>
     rb_mask r = rb_capacity r - 1"

definition slot_count :: "'a ring \<Rightarrow> nat" where
  "slot_count r = length (rb_slots r)"

definition ring_len :: "'a ring \<Rightarrow> nat" where
  "ring_len r = (unat (rb_head r) + slot_count r - unat (rb_tail r)) mod slot_count r"

definition ring_list :: "'a ring \<Rightarrow> 'a list" where
  "ring_list r =
     map (\<lambda>i. rb_slots r ! ((unat (rb_tail r) + i) mod slot_count r)) [0 ..< ring_len r]"

lemma ring_okE:
  assumes "ring_ok r"
  obtains k where "1 \<le> k" "k < 64" "rb_capacity r = 2 ^ k" "rb_mask r = mask k"
    "slot_count r = 2 ^ k" "unat (rb_head r) < slot_count r" "unat (rb_tail r) < slot_count r"
    "unat (rb_capacity r) = slot_count r" "2 \<le> slot_count r"
proof -
  from assms obtain k where k: "1 \<le> k" "k < 64" "rb_capacity r = 2 ^ k"
      "length (rb_slots r) = 2 ^ k" "unat (rb_head r) < 2 ^ k" "unat (rb_tail r) < 2 ^ k"
      "rb_mask r = rb_capacity r - 1"
    by (auto simp: ring_ok_def)
  moreover from k(1) have "(2 :: nat) ^ 1 \<le> 2 ^ k" by (rule power_increasing) simp
  ultimately show ?thesis
    by (intro that [of k]) (auto simp: slot_count_def mask_pow2 unat_pow2)
qed

lemma next_index:
  assumes "ring_ok r" and "unat x < slot_count r"
  shows "unat ((x + 1) AND rb_mask r) = (unat x + 1) mod slot_count r"
proof -
  obtain k where k: "1 \<le> k" "k < 64" "rb_mask r = mask k" "slot_count r = 2 ^ k"
    using assms(1) by (rule ring_okE)
  have "(2 :: nat) ^ k < 2 ^ 64" using k(2) by (rule power_strict_increasing) simp
  then have "unat x + unat (1 :: u64) < 2 ^ 64" using assms(2) k(4) by simp
  then have "unat (x + 1) = unat x + 1" by (simp add: unat_add_no_wrap del: unat_1) 
  then show ?thesis by (simp add: k unat_and_mask)
qed

text \<open>Arithmetic of a circular buffer with \<open>n\<close> slots, over the natural numbers.\<close>

lemma circ_dist:
  fixes h t n :: nat
  assumes "h < n" and "t < n"
  shows "(h + n - t) mod n = (if t \<le> h then h - t else h + n - t)"
proof (cases "t \<le> h")
  case True
  then have "h + n - t = (h - t) + n" by simp
  then have "(h + n - t) mod n = (h - t) mod n" by (simp only: mod_add_self2)
  then show ?thesis using True assms by simp
qed (use assms in simp)

lemma circ_wrap:
  fixes x i n :: nat
  assumes "x < n" and "i \<le> n"
  shows "(x + i) mod n = (if x + i < n then x + i else x + i - n)"
  using assms by (simp add: le_mod_geq)

lemma circ_len_push:
  fixes h t n :: nat
  assumes "h < n" and "t < n" and "(h + 1) mod n \<noteq> t"
  shows "((h + 1) mod n + n - t) mod n = Suc ((h + n - t) mod n)"
    and "Suc ((h + n - t) mod n) < n"
  using assms circ_wrap [of h n 1] by (auto simp: circ_dist split: if_splits)

lemma circ_len_pop:
  fixes h t n :: nat
  assumes "h < n" and "t < n" and "t \<noteq> h"
  shows "0 < (h + n - t) mod n"
    and "(h + n - (t + 1) mod n) mod n = (h + n - t) mod n - 1"
  using assms circ_wrap [of t n 1] by (auto simp: circ_dist split: if_splits)

lemma circ_full:
  fixes h t n :: nat
  assumes "2 \<le> n" and "h < n" and "t < n"
  shows "(h + 1) mod n = t \<longleftrightarrow> (h + n - t) mod n = n - 1"
    and "t = h \<longleftrightarrow> (h + n - t) mod n = 0"
  using assms circ_wrap [of h n 1] by (auto simp: circ_dist split: if_splits)

lemma circ_index_head:
  fixes h t n :: nat
  assumes "h < n" and "t < n"
  shows "(t + (h + n - t) mod n) mod n = h"
    and "i < (h + n - t) mod n \<Longrightarrow> (t + i) mod n \<noteq> h"
  using assms circ_wrap [of t n i] circ_wrap [of t n "(h + n - t) mod n"]
  by (auto simp: circ_dist split: if_splits)

lemma circ_shift:
  fixes t n i :: nat
  assumes "t < n"
  shows "((t + 1) mod n + i) mod n = (t + Suc i) mod n"
  by (simp add: mod_add_left_eq)

section \<open>The operations on the contents\<close>

lemma ring_len_lt: "ring_ok r \<Longrightarrow> ring_len r < slot_count r"
  by (auto simp: ring_len_def elim: ring_okE)

lemma length_ring_list [simp]: "length (ring_list r) = ring_len r"
  by (simp add: ring_list_def)

lemma full_iff:
  assumes "ring_ok r"
  shows "(rb_head r + 1) AND rb_mask r = rb_tail r \<longleftrightarrow> ring_len r = slot_count r - 1"
    and "rb_tail r = rb_head r \<longleftrightarrow> ring_len r = 0"
proof -
  have b: "2 \<le> slot_count r" "unat (rb_head r) < slot_count r" "unat (rb_tail r) < slot_count r"
    using assms by (auto elim: ring_okE)
  show "(rb_head r + 1) AND rb_mask r = rb_tail r \<longleftrightarrow> ring_len r = slot_count r - 1"
    using circ_full(1) [OF b] next_index [OF assms b(2)]
    by (simp add: word_unat_eq_iff ring_len_def)
  show "rb_tail r = rb_head r \<longleftrightarrow> ring_len r = 0"
    using circ_full(2) [OF b] by (simp add: word_unat_eq_iff ring_len_def)
qed

lemma try_push_full:
  "ring_ok r \<Longrightarrow> ring_len r = slot_count r - 1 \<Longrightarrow> try_push x r = (False, r)"
  by (simp add: try_push_def full_iff)

lemma try_pop_empty:
  "ring_ok r \<Longrightarrow> ring_len r = 0 \<Longrightarrow> try_pop r = (None, r)"
  by (simp add: try_pop_def full_iff(2) [symmetric])

lemma try_push_room:
  assumes ok: "ring_ok r" and room: "ring_len r < slot_count r - 1"
  obtains r' where "try_push x r = (True, r')" "ring_ok r'" "slot_count r' = slot_count r"
    "ring_list r' = ring_list r @ [x]" "rb_tail r' = rb_tail r"
    "rb_head r' = (rb_head r + 1) AND rb_mask r"
proof -
  let ?n = "slot_count r" and ?h = "unat (rb_head r)" and ?t = "unat (rb_tail r)"
  let ?nxt = "(rb_head r + 1) AND rb_mask r"
  let ?r = "r\<lparr>rb_slots := (rb_slots r)[?h := x], rb_head := ?nxt\<rparr>"
  have b: "?h < ?n" "?t < ?n" using ok by (auto elim: ring_okE)
  have nxt: "unat ?nxt = (?h + 1) mod ?n" by (rule next_index [OF ok b(1)])
  have ne: "?nxt \<noteq> rb_tail r" using room full_iff(1) [OF ok] by simp
  then have ne': "(?h + 1) mod ?n \<noteq> ?t" using nxt by (metis word_unat_eq_iff)
  have n: "slot_count ?r = ?n" by (simp add: slot_count_def)
  have len: "ring_len ?r = Suc (ring_len r)"
    using circ_len_push(1) [OF b ne'] n nxt by (simp add: ring_len_def)
  have "ring_list ?r = ring_list r @ [x]"
  proof (rule nth_equalityI)
    fix i assume "i < length (ring_list ?r)"
    then have "i \<le> ring_len r" by (simp add: len)
    moreover have "(?t + ring_len r) mod ?n = ?h"
      using circ_index_head(1) [OF b] by (simp add: ring_len_def)
    moreover have "(?t + i) mod ?n \<noteq> ?h" if "i < ring_len r"
      using circ_index_head(2) [OF b] that by (simp add: ring_len_def)
    ultimately show "ring_list ?r ! i = (ring_list r @ [x]) ! i"
      using b n len by (auto simp: ring_list_def nth_append slot_count_def le_less)
  qed (simp add: len)
  moreover have "ring_ok ?r"
    using ok nxt b unfolding ring_ok_def by (auto simp: slot_count_def)
  ultimately show ?thesis
    using that [of ?r] ne n by (simp add: try_push_def Let_def)
qed

lemma try_pop_nonempty:
  assumes ok: "ring_ok r" and "ring_len r \<noteq> 0"
  obtains r' where "try_pop r = (Some (hd (ring_list r)), r')" "ring_ok r'"
    "slot_count r' = slot_count r" "ring_list r' = tl (ring_list r)" "rb_head r' = rb_head r"
    "rb_tail r' = (rb_tail r + 1) AND rb_mask r"
proof -
  let ?n = "slot_count r" and ?h = "unat (rb_head r)" and ?t = "unat (rb_tail r)"
  let ?nxt = "(rb_tail r + 1) AND rb_mask r"
  let ?r = "r\<lparr>rb_tail := ?nxt\<rparr>"
  have b: "?h < ?n" "?t < ?n" using ok by (auto elim: ring_okE)
  have ne: "rb_tail r \<noteq> rb_head r" using assms(2) full_iff(2) [OF ok] by simp
  then have ne': "?t \<noteq> ?h" by (simp add: word_unat_eq_iff)
  have nxt: "unat ?nxt = (?t + 1) mod ?n" by (rule next_index [OF ok b(2)])
  have n: "slot_count ?r = ?n" by (simp add: slot_count_def)
  have len: "ring_len ?r = ring_len r - 1" and pos: "0 < ring_len r"
    using circ_len_pop [OF b ne'] n nxt by (simp_all add: ring_len_def)
  have "ring_list ?r = tl (ring_list r)"
  proof (rule nth_equalityI)
    fix i assume "i < length (ring_list ?r)"
    then have "Suc i < ring_len r" by (simp add: len)
    then show "ring_list ?r ! i = tl (ring_list r) ! i"
      using pos len n nxt circ_shift [OF b(2), of i] by (simp add: ring_list_def nth_tl)
  qed (simp add: len)
  moreover have "hd (ring_list r) = rb_slots r ! ?t"
    using pos b by (simp add: ring_list_def hd_map upt_conv_Cons)
  moreover have "ring_ok ?r"
    using ok nxt b unfolding ring_ok_def by (auto simp: slot_count_def)
  ultimately show ?thesis
    using that [of ?r] ne n by (simp add: try_pop_def Let_def)
qed

section \<open>The queue interface\<close>

text \<open>
  What producers and consumers rely on. \<open>run_ops\<close> runs a sequence of calls and returns the items
  whose push was accepted and the items popped.
\<close>

datatype 'a queue_op = Push 'a | Pop

fun run_ops :: "('a \<Rightarrow> 'q \<Rightarrow> bool \<times> 'q) \<Rightarrow> ('q \<Rightarrow> 'a option \<times> 'q) \<Rightarrow> 'a queue_op list \<Rightarrow> 'q \<Rightarrow>
    'a list \<times> 'a list \<times> 'q" where
  "run_ops push pop [] q = ([], [], q)"
| "run_ops push pop (Push x # ops) q =
     (case push x q of
        (ok, q') \<Rightarrow> (case run_ops push pop ops q' of
           (acc, out, q'') \<Rightarrow> (if ok then x # acc else acc, out, q'')))"
| "run_ops push pop (Pop # ops) q =
     (case pop q of
        (res, q') \<Rightarrow> (case run_ops push pop ops q' of
           (acc, out, q'') \<Rightarrow> (acc, case res of None \<Rightarrow> out | Some y \<Rightarrow> y # out, q'')))"

locale bounded_fifo =
  fixes push :: "'a \<Rightarrow> 'q \<Rightarrow> bool \<times> 'q"
    and pop :: "'q \<Rightarrow> 'a option \<times> 'q"
    and inv :: "'q \<Rightarrow> bool"
    and contents :: "'q \<Rightarrow> 'a list"
    and room :: "'q \<Rightarrow> nat"
  assumes push_room: "inv q \<Longrightarrow> length (contents q) < room q \<Longrightarrow>
      \<exists>q'. push x q = (True, q') \<and> inv q' \<and> contents q' = contents q @ [x] \<and> room q' = room q"
    and push_full: "inv q \<Longrightarrow> \<not> length (contents q) < room q \<Longrightarrow> push x q = (False, q)"
    and pop_Nil: "inv q \<Longrightarrow> contents q = [] \<Longrightarrow> pop q = (None, q)"
    and pop_Cons: "inv q \<Longrightarrow> contents q = y # ys \<Longrightarrow>
      \<exists>q'. pop q = (Some y, q') \<and> inv q' \<and> contents q' = ys \<and> room q' = room q"
    and bounded: "inv q \<Longrightarrow> length (contents q) \<le> room q"
begin

lemma push_cases:
  assumes "inv q" and "push x q = (ok, q')"
  shows "inv q' \<and> room q' = room q \<and> ok = (length (contents q) < room q) \<and>
         contents q' = (if ok then contents q @ [x] else contents q)"
  using assms push_room [of q x] push_full [of q x]
  by (cases "length (contents q) < room q") auto

lemma pop_cases:
  assumes "inv q" and "pop q = (res, q')"
  shows "inv q' \<and> room q' = room q \<and>
         contents q = (case res of None \<Rightarrow> contents q' | Some y \<Rightarrow> y # contents q') \<and>
         (res = None \<longleftrightarrow> contents q = [])"
  using assms pop_Nil [of q] pop_Cons [of q] by (cases "contents q") auto

lemma run_fifo:
  assumes "inv q" and "run_ops push pop ops q = (acc, out, q')"
  shows "inv q' \<and> room q' = room q \<and> contents q @ acc = out @ contents q'"
  using assms
proof (induction ops arbitrary: q acc out)
  case Nil
  then show ?case by simp
next
  case (Cons op ops)
  show ?case
  proof (cases op)
    case (Push x)
    obtain ok q1 acc1 out1 where st: "push x q = (ok, q1)"
      and rn: "run_ops push pop ops q1 = (acc1, out1, q')"
      and eq: "acc = (if ok then x # acc1 else acc1)" "out = out1"
      using Cons.prems(2) Push by (auto split: prod.splits)
    note q1 = push_cases [OF Cons.prems(1) st]
    then have "inv q1" by simp
    from Cons.IH [OF this rn] q1 show ?thesis by (auto simp: eq split: if_splits)
  next
    case Pop
    obtain res q1 acc1 out1 where st: "pop q = (res, q1)"
      and rn: "run_ops push pop ops q1 = (acc1, out1, q')"
      and eq: "acc = acc1" "out = (case res of None \<Rightarrow> out1 | Some y \<Rightarrow> y # out1)"
      using Cons.prems(2) Pop by (auto split: prod.splits)
    note q1 = pop_cases [OF Cons.prems(1) st]
    then have "inv q1" by simp
    from Cons.IH [OF this rn] q1 show ?thesis by (cases res) (simp_all add: eq)
  qed
qed

end

interpretation dyn_ring: bounded_fifo try_push try_pop ring_ok ring_list "\<lambda>r. slot_count r - 1"
proof unfold_locales
  fix r :: "'a ring" and x
  assume "ring_ok r" "length (ring_list r) < slot_count r - 1"
  then show "\<exists>r'. try_push x r = (True, r') \<and> ring_ok r' \<and> ring_list r' = ring_list r @ [x] \<and>
      slot_count r' - 1 = slot_count r - 1"
    by (auto elim: try_push_room [of r x])
next
  fix r :: "'a ring" and x
  assume ok: "ring_ok r" and "\<not> length (ring_list r) < slot_count r - 1"
  then have "ring_len r = slot_count r - 1" using ring_len_lt [OF ok] by simp
  then show "try_push x r = (False, r)" by (rule try_push_full [OF ok])
next
  fix r :: "'a ring"
  assume ok: "ring_ok r" and "ring_list r = []"
  then have "ring_len r = 0" by (metis length_ring_list list.size(3))
  then show "try_pop r = (None, r)" by (rule try_pop_empty [OF ok])
next
  fix r :: "'a ring" and y ys
  assume ok: "ring_ok r" and eq: "ring_list r = y # ys"
  then have "ring_len r \<noteq> 0" by (metis length_0_conv length_ring_list list.distinct(1))
  then obtain r' where "try_pop r = (Some (hd (ring_list r)), r')" "ring_ok r'"
      "slot_count r' = slot_count r" "ring_list r' = tl (ring_list r)"
    using try_pop_nonempty [OF ok] by blast
  then show "\<exists>r'. try_pop r = (Some y, r') \<and> ring_ok r' \<and> ring_list r' = ys \<and>
      slot_count r' - 1 = slot_count r - 1"
    using eq by simp
next
  fix r :: "'a ring"
  assume "ring_ok r"
  then show "length (ring_list r) \<le> slot_count r - 1" using ring_len_lt by fastforce
qed

lemma usable_capacity_slots: "ring_ok r \<Longrightarrow> unat (usable_capacity r) = slot_count r - 1"
  by (auto simp: usable_capacity_def word_le_nat_alt unat_sub elim!: ring_okE)

text \<open>
  First in, first out: over any sequence of \<open>try_push\<close> and \<open>try_pop\<close> calls, what was in the
  ring followed by the accepted items equals the popped items followed by what is left; nothing is
  lost, duplicated or reordered, and the ring never holds more than \<open>capacity()\<close> items.
\<close>

theorem ring_run_fifo:
  assumes "ring_ok r" and "run_ops try_push try_pop ops r = (acc, out, r')"
  shows "ring_ok r' \<and> ring_list r @ acc = out @ ring_list r' \<and>
         length (ring_list r') \<le> unat (usable_capacity r')"
  using dyn_ring.run_fifo [OF assms] dyn_ring.bounded usable_capacity_slots by metis

lemma DynamicSpscRingBuffer_ok:
  assumes "1 \<le> k" and "k < 64" and "alloc T (2 ^ k) a = (Some p, a')"
    and "DynamicSpscRingBuffer T z a (2 ^ k) = (r, a'')"
  shows "ring_ok r \<and> ring_list r = [] \<and> slot_count r = 2 ^ k"
proof -
  have "(0 :: nat) < 2 ^ k" by simp
  then show ?thesis
    using assms by (auto simp: DynamicSpscRingBuffer_def alloc_span_def ring_ok_def unat_pow2
        ring_list_def ring_len_def slot_count_def intro!: exI [of _ k])
qed

theorem ring_run_fifo_witness:
  "\<exists>r a'. DynamicSpscRingBuffer \<lparr>sizeof = 24, alignof = 8\<rparr> 0 (MemoryArena 4096 4096) 4 = (r, a') \<and>
     ring_ok r \<and>
     (\<exists>r'. run_ops try_push try_pop [Push 7, Push 8, Push 9, Push (1 :: nat), Pop, Push 2, Pop] r
        = ([7, 8, 9, 2], [7, 8], r') \<and> ring_list r' = [9, 2])"
proof -
  let ?T = "\<lparr>sizeof = 24, alignof = 8\<rparr>"
  let ?ops = "[Push 7, Push 8, Push 9, Push (1 :: nat), Pop, Push 2, Pop]"
  obtain r a' where r: "DynamicSpscRingBuffer ?T (0 :: nat) (MemoryArena 4096 4096) 4 = (r, a')"
    by fastforce
  have al: "alloc ?T 4 (MemoryArena 4096 4096) =
      (Some 4096, (MemoryArena 4096 4096)\<lparr>ar_cursor := 96\<rparr>)"
    by (simp add: alloc_def MemoryArena_def align_up_def alloc_alignment_def holo_simps)
  then have ok: "ring_ok r" "ring_list r = []"
    using DynamicSpscRingBuffer_ok [of 2 ?T "MemoryArena 4096 4096" 4096 _ 0 r a'] r by auto
  have rep: "replicate 4 (0 :: nat) = [0, 0, 0, 0]" by (simp add: numeral_eq_Suc)
  have rv: "r = \<lparr>rb_capacity = 4, rb_mask = 3, rb_slots = [0, 0, 0, 0], rb_head = 0, rb_tail = 0\<rparr>"
    using r al by (auto simp: DynamicSpscRingBuffer_def alloc_span_def rep)
  obtain acc out r' where run: "run_ops try_push try_pop ?ops r = (acc, out, r')"
    by (metis prod_cases3)
  have "acc = [7, 8, 9, 2]" "out = [7, 8]"
    using run by (auto simp: rv try_push_def try_pop_def)
  then show ?thesis
    using r run ok ring_run_fifo [OF ok(1) run] by auto
qed

text \<open>
  The blocking push does return: if the consumer completes one \<open>try_pop\<close> between the first and
  the second attempt, \<open>push_blocking\<close> terminates with the item at the end of the queue, whether or
  not the ring was full when it was called.
\<close>

theorem push_blocking_returns:
  assumes ok: "ring_ok r" and env: "\<And>q. env i q = snd (try_pop q)"
  shows "\<exists>r'. push_blocking env i x r = Some r' \<and> ring_ok r' \<and>
           (ring_list r' = ring_list r @ [x] \<or> ring_list r' = tl (ring_list r) @ [x])"
proof -
  obtain b r1 where p1: "try_push x r = (b, r1)" by fastforce
  note c1 = dyn_ring.push_cases [OF ok p1]
  show ?thesis
  proof (cases b)
    case True
    with p1 c1 show ?thesis by (simp add: push_blocking.simps)
  next
    case False
    with c1 p1 have r1: "ring_ok r1" "ring_list r1 = ring_list r"
        "\<not> length (ring_list r1) < slot_count r1 - 1" by auto
    have "2 \<le> slot_count r1" using r1(1) by (auto elim: ring_okE)
    with r1(3) have "0 < length (ring_list r1)" by simp
    then have "ring_list r1 \<noteq> []" by (rule length_greater_0_conv [THEN iffD1])
    then obtain y ys where eq: "ring_list r1 = y # ys" by (cases "ring_list r1") auto
    obtain r2 where r2: "try_pop r1 = (Some y, r2)" "ring_ok r2" "ring_list r2 = ys"
        "slot_count r2 - 1 = slot_count r1 - 1"
      using dyn_ring.pop_Cons [OF r1(1) eq] by auto
    have "length ys < slot_count r2 - 1"
      using dyn_ring.bounded [OF r1(1)] eq r2(4) by simp
    then obtain r3 where "try_push x r2 = (True, r3)" "ring_ok r3" "ring_list r3 = ys @ [x]"
      using dyn_ring.push_room [OF r2(2), of x] r2(3) by auto
    moreover have "env i r1 = r2" using env [of r1] r2(1) by simp
    ultimately show ?thesis
      using False p1 r1(2) [symmetric] eq by (simp add: push_blocking.simps [of env i] push_blocking.simps [of env "Suc i"])
  qed
qed

theorem push_blocking_returns_witness:
  "\<exists>r'. push_blocking (\<lambda>_ q. snd (try_pop q)) 0 (9 :: nat)
      \<lparr>rb_capacity = 2, rb_mask = 1, rb_slots = [5, 6], rb_head = 1, rb_tail = 0\<rparr> = Some r' \<and>
    ring_ok r'"
proof -
  have "ring_ok \<lparr>rb_capacity = 2, rb_mask = 1, rb_slots = [5, 6 :: nat], rb_head = 1, rb_tail = 0\<rparr>"
    by (auto simp: ring_ok_def intro!: exI [of _ 1])
  from push_blocking_returns [OF this, of "\<lambda>_ q. snd (try_pop q)" 0 9] show ?thesis by auto
qed

text \<open>
  The compile-time ring \<open>SpscRingBuffer\<close> and the arena-backed \<open>DynamicSpscRingBuffer\<close> are the
  same queue: read as a dynamic ring of its template capacity, the static ring's push, pop and empty
  test are the dynamic ones, and \<open>size_approx\<close> is exactly the number of queued items.
\<close>

theorem static_ring_is_dynamic:
  assumes "ring_ok (as_dynamic C r)"
  shows "map_prod id (as_dynamic C) (spsc_try_push C x r) = try_push x (as_dynamic C r) \<and>
         map_prod id (as_dynamic C) (spsc_try_pop C r) = try_pop (as_dynamic C r) \<and>
         spsc_empty r = ring_empty (as_dynamic C r) \<and>
         unat (size_approx C r) = length (ring_list (as_dynamic C r))"
proof -
  let ?d = "as_dynamic C r"
  obtain k where k: "k < 64" "rb_capacity ?d = 2 ^ k" "rb_mask ?d = mask k"
      "slot_count ?d = 2 ^ k" "unat (rb_head ?d) < slot_count ?d"
      "unat (rb_tail ?d) < slot_count ?d" "unat (rb_capacity ?d) = slot_count ?d"
    using assms by (rule ring_okE)
  have "(2 :: nat) ^ k \<le> 2 ^ 63" using k(1) by (intro power_increasing) auto
  then have "unat (rb_head ?d + C) = unat (rb_head ?d) + 2 ^ k"
    using k by (subst unat_add_no_wrap) (auto simp: as_dynamic_def)
  moreover from this have "rb_tail ?d \<le> rb_head ?d + C"
    using k by (simp only: word_le_nat_alt)
  moreover have "sp_head r - sp_tail r + C = (rb_head ?d + C) - rb_tail ?d"
    by (simp add: as_dynamic_def)
  ultimately have "unat (sp_head r - sp_tail r + C) = unat (rb_head ?d) + 2 ^ k - unat (rb_tail ?d)"
    by (simp only: unat_sub)
  then have "unat (size_approx C r) = ring_len ?d"
    using k by (simp add: size_approx_def ring_len_def as_dynamic_def unat_and_mask)
  then show ?thesis
    by (simp add: spsc_try_push_def try_push_def spsc_try_pop_def try_pop_def Let_def
        spsc_empty_def ring_empty_def) (simp add: as_dynamic_def)
qed

end
