(* ===== verification/Lob_Core.thy ===== *)
theory Lob_Core
  imports Memory_Arena
begin

text \<open>
  The limit order book of \<open>engine/core/lob_core.hpp\<close>: flat arrays of prices and quantities for every
  instrument and depth level, the per-slot sequence numbers, the last timestamps, the counters and
  the sequence-lock counter. \<open>apply\<close> is one atomic call here; its single memory accesses, and a
  reader that races them, are the theory \<open>Lob_Mirror\<close>. The element counts are natural numbers:
  the arrays exist in memory, so the products that index them do not wrap.

  The book is an instance of the locale \<open>keyed_store\<close>, keyed by side, instrument and level.
\<close>

section \<open>Model\<close>

definition k_max_instruments :: nat where "k_max_instruments = 512"
definition k_max_depth :: nat where "k_max_depth = 16"
definition k_sides :: nat where "k_sides = 2"
definition k_invalid_seq :: u32 where "k_invalid_seq = 4294967295"

datatype BookSide = Bid | Ask

definition side_index :: "BookSide \<Rightarrow> nat" where
  "side_index s = (case s of Bid \<Rightarrow> 0 | Ask \<Rightarrow> 1)"

record LobUpdate =
  lu_timestamp_ns :: u64
  lu_price :: flt
  lu_quantity :: flt
  lu_instrument_id :: u32
  lu_depth_level :: u8
  lu_side :: BookSide

record LobStats =
  ls_total_updates :: u64
  ls_bid_updates :: u64
  ls_ask_updates :: u64
  ls_dropped_updates :: u64

record lob =
  lb_n_instruments :: nat
  lb_depth :: nat
  lb_total_slots :: nat
  lb_bid_prices :: "flt list"
  lb_ask_prices :: "flt list"
  lb_bid_qtys :: "flt list"
  lb_ask_qtys :: "flt list"
  lb_seq_nos :: "u32 list"
  lb_last_ts_ns :: "u64 list"
  lb_stats :: LobStats
  lb_seq :: u64

text \<open>
  The constructor takes its arrays from the arena; \<open>None\<close> is an arena too small for one of them or
  for the two counter blocks, which the code then dereferences.
\<close>

definition float_type :: ctype where "float_type = \<lparr>sizeof = 4, alignof = 4\<rparr>"
definition u32_type :: ctype where "u32_type = \<lparr>sizeof = 4, alignof = 4\<rparr>"
definition u64_type :: ctype where "u64_type = \<lparr>sizeof = 8, alignof = 8\<rparr>"
definition line_type :: ctype where "line_type = \<lparr>sizeof = 64, alignof = 64\<rparr>"

fun alloc_all :: "(ctype \<times> u64) list \<Rightarrow> arena \<Rightarrow> arena option" where
  "alloc_all [] a = Some a"
| "alloc_all ((T, n) # rs) a =
     (case alloc T n a of (None, a') \<Rightarrow> None | (Some p, a') \<Rightarrow> alloc_all rs a')"

definition LobSoA :: "arena \<Rightarrow> nat \<Rightarrow> nat \<Rightarrow> (lob \<times> arena) option" where
  "LobSoA a n_instruments depth =
     (let cells = n_instruments * depth;
          w = word_of_nat cells
      in case alloc_all [(float_type, w), (float_type, w), (float_type, w), (float_type, w),
                (u32_type, w * 2), (u64_type, word_of_nat n_instruments), (line_type, 1), (line_type, 1)] a of
           None \<Rightarrow> None
         | Some a' \<Rightarrow> Some
            (\<lparr>lb_n_instruments = n_instruments, lb_depth = depth, lb_total_slots = cells * k_sides,
              lb_bid_prices = replicate cells 100, lb_ask_prices = replicate cells 100,
              lb_bid_qtys = replicate cells 0, lb_ask_qtys = replicate cells 0,
              lb_seq_nos = replicate (cells * k_sides) k_invalid_seq,
              lb_last_ts_ns = replicate n_instruments 0,
              lb_stats = \<lparr>ls_total_updates = 0, ls_bid_updates = 0, ls_ask_updates = 0,
                ls_dropped_updates = 0\<rparr>, lb_seq = 0\<rparr>, a'))"

definition drop_update :: "lob \<Rightarrow> lob" where
  "drop_update s = s\<lparr>lb_stats := (lb_stats s)\<lparr>ls_dropped_updates := ls_dropped_updates (lb_stats s) + 1\<rparr>\<rparr>"

definition apply_lob :: "LobUpdate \<Rightarrow> lob \<Rightarrow> lob" where
  "apply_lob u s =
     (let instr = unat (lu_instrument_id u); depth = unat (lu_depth_level u) in
      if instr \<ge> lb_n_instruments s then drop_update s
      else if depth \<ge> lb_depth s then drop_update s
      else
        (let base = instr * lb_depth s + depth;
             s1 = s\<lparr>lb_seq := lb_seq s + 1\<rparr>;
             s2 = (if lu_side u = Bid
                   then s1\<lparr>lb_bid_prices := (lb_bid_prices s1)[base := lu_price u],
                           lb_bid_qtys := (lb_bid_qtys s1)[base := lu_quantity u],
                           lb_stats := (lb_stats s1)\<lparr>ls_bid_updates := ls_bid_updates (lb_stats s1) + 1\<rparr>\<rparr>
                   else s1\<lparr>lb_ask_prices := (lb_ask_prices s1)[base := lu_price u],
                           lb_ask_qtys := (lb_ask_qtys s1)[base := lu_quantity u],
                           lb_stats := (lb_stats s1)\<lparr>ls_ask_updates := ls_ask_updates (lb_stats s1) + 1\<rparr>\<rparr>);
             seq_base = instr * lb_depth s * k_sides + depth * k_sides + side_index (lu_side u);
             s3 = s2\<lparr>lb_seq_nos := (lb_seq_nos s2)[seq_base := ucast (ls_total_updates (lb_stats s2))],
                     lb_last_ts_ns := (lb_last_ts_ns s2)[instr := lu_timestamp_ns u]\<rparr>;
             s4 = s3\<lparr>lb_seq := lb_seq s3 + 1\<rparr>
         in s4\<lparr>lb_stats := (lb_stats s4)\<lparr>ls_total_updates := ls_total_updates (lb_stats s4) + 1\<rparr>\<rparr>))"

definition best_bid :: "lob \<Rightarrow> nat \<Rightarrow> flt" where
  "best_bid s i = lb_bid_prices s ! (i * lb_depth s)"

definition best_ask :: "lob \<Rightarrow> nat \<Rightarrow> flt" where
  "best_ask s i = lb_ask_prices s ! (i * lb_depth s)"

definition mid_price :: "lob \<Rightarrow> nat \<Rightarrow> flt" where
  "mid_price s i = (let base = i * lb_depth s in (lb_bid_prices s ! base + lb_ask_prices s ! base) * (1 / 2))"

definition spread :: "lob \<Rightarrow> nat \<Rightarrow> flt" where
  "spread s i =
     (let base = i * lb_depth s; sp = lb_ask_prices s ! base - lb_bid_prices s ! base
      in if sp > 0 then sp else mid_price s i * (2 / 10 ^ 4))"

definition subspan :: "'a list \<Rightarrow> nat \<Rightarrow> nat \<Rightarrow> 'a list" where
  "subspan xs offset count = take count (drop offset xs)"

definition bid_prices :: "lob \<Rightarrow> nat \<Rightarrow> flt list" where
  "bid_prices s i = subspan (lb_bid_prices s) (i * lb_depth s) (lb_depth s)"

definition ask_prices :: "lob \<Rightarrow> nat \<Rightarrow> flt list" where
  "ask_prices s i = subspan (lb_ask_prices s) (i * lb_depth s) (lb_depth s)"

definition bid_qtys :: "lob \<Rightarrow> nat \<Rightarrow> flt list" where
  "bid_qtys s i = subspan (lb_bid_qtys s) (i * lb_depth s) (lb_depth s)"

definition ask_qtys :: "lob \<Rightarrow> nat \<Rightarrow> flt list" where
  "ask_qtys s i = subspan (lb_ask_qtys s) (i * lb_depth s) (lb_depth s)"

section \<open>Levels of the book\<close>

definition lob_ok :: "lob \<Rightarrow> bool" where
  "lob_ok s \<longleftrightarrow>
     length (lb_bid_prices s) = lb_n_instruments s * lb_depth s \<and>
     length (lb_ask_prices s) = lb_n_instruments s * lb_depth s \<and>
     length (lb_bid_qtys s) = lb_n_instruments s * lb_depth s \<and>
     length (lb_ask_qtys s) = lb_n_instruments s * lb_depth s \<and>
     length (lb_seq_nos s) = lb_n_instruments s * lb_depth s * k_sides \<and>
     length (lb_last_ts_ns s) = lb_n_instruments s"

type_synonym level_key = "BookSide \<times> nat \<times> nat"

definition in_book :: "lob \<Rightarrow> nat \<Rightarrow> nat \<Rightarrow> bool" where
  "in_book s i d \<longleftrightarrow> i < lb_n_instruments s \<and> d < lb_depth s"

definition level :: "lob \<Rightarrow> level_key \<Rightarrow> (flt \<times> flt) option" where
  "level s k = (case k of (side, i, d) \<Rightarrow>
     if in_book s i d then
       (let base = i * lb_depth s + d in
        Some (case side of
                Bid \<Rightarrow> (lb_bid_prices s ! base, lb_bid_qtys s ! base)
              | Ask \<Rightarrow> (lb_ask_prices s ! base, lb_ask_qtys s ! base)))
     else None)"

definition update_key :: "LobUpdate \<Rightarrow> level_key" where
  "update_key u = (lu_side u, unat (lu_instrument_id u), unat (lu_depth_level u))"

definition update_effect :: "LobUpdate \<Rightarrow> (flt \<times> flt) option \<Rightarrow> (flt \<times> flt) option" where
  "update_effect u r = map_option (\<lambda>_. (lu_price u, lu_quantity u)) r"

lemma base_lt: "i < n \<Longrightarrow> d < k \<Longrightarrow> i * k + d < n * (k :: nat)"
proof -
  assume "i < n" "d < k"
  then have "i * k + d < i * k + k" by simp
  also have "\<dots> \<le> n * k" using mult_le_mono1 [of "Suc i" n k] \<open>i < n\<close> by simp
  finally show ?thesis .
qed

lemma base_inj: "d < k \<Longrightarrow> d' < k \<Longrightarrow> i * k + d = i' * k + d' \<longleftrightarrow> i = i' \<and> d = (d' :: nat)"
  by (metis add.commute div_mult_self1 div_less mod_mult_self1 mod_less mult.commute add_0
      less_nat_zero_code)

lemma apply_drops:
  "\<not> in_book s (unat (lu_instrument_id u)) (unat (lu_depth_level u)) \<Longrightarrow> apply_lob u s = drop_update s"
  by (auto simp: apply_lob_def in_book_def Let_def)

lemma apply_frame:
  "lb_n_instruments (apply_lob u s) = lb_n_instruments s" "lb_depth (apply_lob u s) = lb_depth s"
  by (simp_all add: apply_lob_def drop_update_def Let_def)

lemma apply_ok: "lob_ok s \<Longrightarrow> lob_ok (apply_lob u s)"
  by (simp add: lob_ok_def apply_lob_def drop_update_def Let_def)

lemma level_apply:
  assumes ok: "lob_ok s"
  shows "level (apply_lob u s) = (level s)(update_key u := update_effect u (level s (update_key u)))"
proof
  fix k :: level_key
  obtain side i d where k: "k = (side, i, d)" using prod_cases3 by blast
  let ?ui = "unat (lu_instrument_id u)" and ?ud = "unat (lu_depth_level u)"
  show "level (apply_lob u s) k = ((level s)(update_key u := update_effect u (level s (update_key u)))) k"
  proof (cases "in_book s ?ui ?ud")
    case False
    then have "level s (update_key u) = None" by (simp add: level_def update_key_def)
    moreover have "level (apply_lob u s) k = level s k"
      using False by (cases side) (simp_all add: apply_drops level_def drop_update_def in_book_def k Let_def)
    ultimately show ?thesis by (simp add: update_effect_def)
  next
    case True
    then have lt: "?ui * lb_depth s + ?ud < lb_n_instruments s * lb_depth s"
      using base_lt by (simp add: in_book_def)
    show ?thesis
    proof (cases "in_book s i d")
      case False
      with True show ?thesis
        by (auto simp: level_def update_key_def k in_book_def apply_frame)
    next
      case ib: True
      have eq: "i * lb_depth s + d = ?ui * lb_depth s + ?ud \<longleftrightarrow> i = ?ui \<and> d = ?ud"
        using True ib base_inj by (simp add: in_book_def)
      from True ib eq lt ok show ?thesis
        by (cases "lu_side u"; cases side)
          (auto simp: level_def update_key_def update_effect_def k in_book_def lob_ok_def
            apply_lob_def Let_def nth_list_update)
    qed
  qed
qed

interpretation lob_store: keyed_store apply_lob update_key update_effect lob_ok level
  by unfold_locales (simp_all add: apply_ok level_apply)

lemma LobSoA_ok:
  "LobSoA a n depth = Some (s, a') \<Longrightarrow> lob_ok s \<and> lb_n_instruments s = n \<and> lb_depth s = depth"
  by (auto simp: LobSoA_def lob_ok_def Let_def split: option.splits)

text \<open>The last update of a list that addresses a level.\<close>

fun last_update :: "level_key \<Rightarrow> LobUpdate list \<Rightarrow> LobUpdate option" where
  "last_update k [] = None"
| "last_update k (u # us) =
     (case last_update k us of Some v \<Rightarrow> Some v | None \<Rightarrow> if update_key u = k then Some u else None)"

lemma fold_update_effect:
  "fold update_effect (filter (\<lambda>u. update_key u = k) us) (Some r) =
     Some (case last_update k us of None \<Rightarrow> r | Some u \<Rightarrow> (lu_price u, lu_quantity u))"
  by (induction us arbitrary: r) (auto simp: update_effect_def split: option.splits)

text \<open>
  (C30) The book shows the last update of every level: after any sequence of \<open>apply\<close> calls on a fresh
  book, each side, instrument and depth inside the book holds price and quantity of the last update
  that addressed it, or the initial 100 and 0; updates outside the book change no level.
\<close>

theorem book_shows_last_update:
  assumes new: "LobSoA a n depth = Some (s, a')" and i: "i < n" "d < depth"
  shows "level (fold apply_lob us s) (side, i, d) =
     Some (case last_update (side, i, d) us of None \<Rightarrow> (100, 0) | Some u \<Rightarrow> (lu_price u, lu_quantity u))"
proof -
  note ok = LobSoA_ok [OF new]
  have "i * depth + d < n * depth" using i by (rule base_lt)
  then have "level s (side, i, d) = Some (100, 0)"
    using new i by (cases side) (auto simp: LobSoA_def level_def in_book_def Let_def split: option.splits)
  then show ?thesis
    using lob_store.run_lookup [of s us "(side, i, d)"] ok fold_update_effect by simp
qed

theorem book_shows_last_update_witness:
  "\<exists>s a'. LobSoA (MemoryArena 4096 4096) 2 2 = Some (s, a') \<and>
     level (fold apply_lob [\<lparr>lu_timestamp_ns = 1, lu_price = 99, lu_quantity = 5,
        lu_instrument_id = 1, lu_depth_level = 0, lu_side = Bid\<rparr>] s) (Bid, 1, 0) = Some (99, 5)"
proof -
  let ?u = "\<lparr>lu_timestamp_ns = 1, lu_price = 99 :: real, lu_quantity = 5 :: real,
        lu_instrument_id = 1, lu_depth_level = 0, lu_side = Bid\<rparr>"
  obtain s a' where new: "LobSoA (MemoryArena 4096 4096) 2 2 = Some (s, a')"
    by (simp add: LobSoA_def alloc_def MemoryArena_def align_up_def alloc_alignment_def holo_simps
        float_type_def u32_type_def u64_type_def line_type_def Let_def)
  have "last_update (Bid, 1, 0) [?u] = Some ?u" by (simp add: update_key_def)
  with book_shows_last_update [OF new, of 1 0 "[?u]" Bid] show ?thesis using new by auto
qed

definition counters_ok :: "nat \<Rightarrow> lob \<Rightarrow> bool" where
  "counters_ok n s \<longleftrightarrow>
     ls_total_updates (lb_stats s) = ls_bid_updates (lb_stats s) + ls_ask_updates (lb_stats s) \<and>
     word_of_nat n = ls_total_updates (lb_stats s) + ls_dropped_updates (lb_stats s) \<and>
     lb_seq s = 2 * ls_total_updates (lb_stats s)"

lemma counters_step: "counters_ok n s \<Longrightarrow> counters_ok (Suc n) (apply_lob u s)"
  by (auto simp: counters_ok_def apply_lob_def drop_update_def Let_def algebra_simps)

lemma counters_run: "counters_ok n s \<Longrightarrow> counters_ok (n + length us) (fold apply_lob us s)"
proof (induction us arbitrary: n s)
  case (Cons u us)
  from Cons.IH [OF counters_step [OF Cons.prems]] show ?case by simp
qed simp

text \<open>
  The counters add up: over any sequence of updates, modulo 2^64, the bid and ask counters sum to
  the total, total and dropped together grow by the number of calls, and the sequence-lock counter
  is twice the total, so it is even whenever no call is running.
\<close>

theorem lob_counters:
  assumes "LobSoA a n depth = Some (s, a')"
  shows "counters_ok (length us) (fold apply_lob us s) \<and> \<not> bit (lb_seq (fold apply_lob us s)) 0"
proof -
  have "counters_ok 0 s"
    using assms by (auto simp: LobSoA_def counters_ok_def Let_def split: option.splits)
  from counters_run [OF this, of us] have c: "counters_ok (length us) (fold apply_lob us s)" by simp
  then have "even (lb_seq (fold apply_lob us s))" by (auto simp: counters_ok_def)
  with c show ?thesis by (simp add: bit_0)
qed

text \<open>
  The spread used for pricing is always positive: for an instrument whose best bid and ask sum
  to a positive number the spread is positive, also when the book is crossed or still at its
  defaults, and it is ask minus bid whenever that is positive.
\<close>

lemma spread_positive:
  assumes "0 < best_bid s i + best_ask s i"
  shows "0 < spread s i \<and> (best_bid s i < best_ask s i \<longrightarrow> spread s i = best_ask s i - best_bid s i)"
  using assms by (simp add: spread_def mid_price_def best_bid_def best_ask_def Let_def)

end
