(* ===== verification/Lob_Mirror.thy ===== *)
theory Lob_Mirror
  imports Lob_Core
begin

text \<open>
  The reader side of the order book's sequence lock, \<open>GpuLobMirror\<close> of \<open>engine/math/gpu_lob_mirror.cu\<close>,
  against the writer \<open>LobSoA::apply\<close>.

  The first part is \<open>stage_snapshot\<close> as the loop it is: what each attempt observes (the counter
  before, the copied cells, the counter after) is an argument, indexed by the attempt. The second
  part is the race itself: a step relation in which the writer's increments and cell stores and the
  reader's counter reads and cell copies interleave in any order. The memory is sequentially
  consistent, which the fences of both sides are there to provide. The counter is a 64-bit word; a
  ghost natural number counts its increments.
\<close>

section \<open>The retry loop\<close>

record mirror_metrics =
  mm_retries :: u64
  mm_forced_after_max_retries :: u64
  mm_snapshots_taken :: u64

definition k_max_seqlock_retries :: nat where "k_max_seqlock_retries = 64"

function stage_loop ::
    "(nat \<Rightarrow> u64 \<times> 'a \<times> u64) \<Rightarrow> nat \<Rightarrow> 'a \<Rightarrow> mirror_metrics \<Rightarrow> 'a \<times> mirror_metrics" where
  "stage_loop obs attempt stage m =
     (let seq1 = fst (obs attempt); copied = fst (snd (obs attempt)); seq2 = snd (snd (obs attempt));
          writer_busy = (seq1 AND 1 \<noteq> 0);
          give_up = (attempt \<ge> k_max_seqlock_retries);
          again = m\<lparr>mm_retries := mm_retries m + 1\<rparr>
      in if \<not> writer_busy \<or> give_up then
           (if give_up \<and> (writer_busy \<or> seq1 \<noteq> seq2)
            then (copied, m\<lparr>mm_forced_after_max_retries := mm_forced_after_max_retries m + 1\<rparr>)
            else if \<not> writer_busy \<and> seq1 = seq2 then (copied, m)
            else stage_loop obs (Suc attempt) copied again)
         else stage_loop obs (Suc attempt) stage again)"
  by pat_completeness auto
termination
  by (relation "measure (\<lambda>(obs, attempt, stage, m). Suc k_max_seqlock_retries - attempt)")
    (auto simp: not_le)

declare stage_loop.simps [simp del]

definition stage_snapshot ::
    "(nat \<Rightarrow> u64 \<times> 'a \<times> u64) \<Rightarrow> 'a \<Rightarrow> mirror_metrics \<Rightarrow> 'a \<times> mirror_metrics" where
  "stage_snapshot obs stage m =
     (case stage_loop obs 0 stage m of
        (st, m') \<Rightarrow> (st, m'\<lparr>mm_snapshots_taken := mm_snapshots_taken m' + 1\<rparr>))"

text \<open>The mirror: staging and device copies of the four arrays, and the generation of the last push.\<close>

record 'a mirror =
  mr_stage :: 'a
  mr_device :: 'a
  mr_generation :: u64
  mr_metrics :: mirror_metrics

definition GpuLobMirror :: "'a \<Rightarrow> 'a \<Rightarrow> 'a mirror" where
  "GpuLobMirror pinned zeroes = \<lparr>mr_stage = pinned, mr_device = zeroes, mr_generation = 0,
     mr_metrics = \<lparr>mm_retries = 0, mm_forced_after_max_retries = 0, mm_snapshots_taken = 0\<rparr>\<rparr>"

definition async_push :: "(nat \<Rightarrow> u64 \<times> 'a \<times> u64) \<Rightarrow> u64 \<Rightarrow> 'a mirror \<Rightarrow> 'a mirror" where
  "async_push obs current_generation r =
     (case stage_snapshot obs (mr_stage r) (mr_metrics r) of
        (st, m) \<Rightarrow> r\<lparr>mr_stage := st, mr_device := st, mr_generation := current_generation, mr_metrics := m\<rparr>)"

definition mirror_snapshot :: "'a mirror \<Rightarrow> 'a \<times> u64" where
  "mirror_snapshot r = (mr_device r, mr_generation r)"

definition clean_observation :: "u64 \<times> 'a \<times> u64 \<Rightarrow> bool" where
  "clean_observation ob \<longleftrightarrow> even (fst ob) \<and> fst ob = snd (snd ob)"

lemma and_one_odd: "(x :: u64) AND 1 \<noteq> 0 \<longleftrightarrow> odd x"
  by (simp add: and_one_eq odd_iff_mod_2_eq_one even_iff_mod_2_eq_zero)

text \<open>What a loop entered at some attempt leaves when it stops at attempt \<open>i\<close>.\<close>

definition settled ::
    "(nat \<Rightarrow> u64 \<times> 'a \<times> u64) \<Rightarrow> nat \<Rightarrow> mirror_metrics \<Rightarrow> nat \<Rightarrow> 'a \<times> mirror_metrics \<Rightarrow> bool" where
  "settled obs attempt m i r \<longleftrightarrow> attempt \<le> i \<and> i \<le> k_max_seqlock_retries \<and> fst r = fst (snd (obs i)) \<and>
     (\<forall>j. attempt \<le> j \<and> j < i \<longrightarrow> \<not> clean_observation (obs j)) \<and>
     mm_retries (snd r) = mm_retries m + word_of_nat (i - attempt) \<and>
     mm_snapshots_taken (snd r) = mm_snapshots_taken m \<and>
     (if clean_observation (obs i)
      then mm_forced_after_max_retries (snd r) = mm_forced_after_max_retries m
      else i = k_max_seqlock_retries \<and>
        mm_forced_after_max_retries (snd r) = mm_forced_after_max_retries m + 1)"

lemma settled_later:
  assumes "settled obs (Suc attempt) (m\<lparr>mm_retries := mm_retries m + 1\<rparr>) i r" and "\<not> clean_observation (obs attempt)"
  shows "settled obs attempt m i r"
proof -
  have "Suc attempt \<le> i" using assms by (simp add: settled_def)
  then have "i - attempt = Suc (i - Suc attempt)" by simp
  then have "word_of_nat (i - attempt) = (1 :: u64) + word_of_nat (i - Suc attempt)" by simp
  moreover have "\<not> clean_observation (obs j)" if "attempt \<le> j" "j < i" for j
    using assms that by (cases "j = attempt") (auto simp: settled_def)
  ultimately show ?thesis using assms(1) by (auto simp: settled_def add.assoc)
qed

lemma stage_loop_outcome:
  "attempt \<le> k_max_seqlock_retries \<Longrightarrow> \<exists>i. settled obs attempt m i (stage_loop obs attempt stage m)"
proof (induction "k_max_seqlock_retries - attempt" arbitrary: attempt stage m)
  case 0
  then have "settled obs attempt m attempt (stage_loop obs attempt stage m)"
    by (subst stage_loop.simps) (auto simp: settled_def clean_observation_def Let_def and_one_odd)
  then show ?case by blast
next
  case (Suc d)
  let ?again = "m\<lparr>mm_retries := mm_retries m + 1\<rparr>"
  let ?st = "if fst (obs attempt) AND 1 \<noteq> 0 then stage else fst (snd (obs attempt))"
  show ?case
  proof (cases "clean_observation (obs attempt)")
    case True
    then have "settled obs attempt m attempt (stage_loop obs attempt stage m)" using Suc.prems
      by (subst stage_loop.simps) (auto simp: settled_def clean_observation_def Let_def and_one_odd)
    then show ?thesis by blast
  next
    case False
    have lt: "Suc attempt \<le> k_max_seqlock_retries" using Suc.hyps(2) by simp
    have "stage_loop obs attempt stage m = stage_loop obs (Suc attempt) ?st ?again"
      using False lt by (subst stage_loop.simps) (auto simp: clean_observation_def Let_def and_one_odd)
    moreover obtain i where "settled obs (Suc attempt) ?again i (stage_loop obs (Suc attempt) ?st ?again)"
      using Suc.hyps(1) [of "Suc attempt"] Suc.hyps(2) lt by fastforce
    ultimately show ?thesis using settled_later False by metis
  qed
qed

text \<open>
  (C37) Taking a snapshot always ends, after at most 64 retries, with the first clean copy: the staged data
  is the copy of one attempt, and no attempt before it was clean; either that attempt saw an even
  counter that did not change across the copy, or it was attempt 64 and the forced counter was
  incremented; every earlier attempt counts as a retry.
\<close>

theorem stage_snapshot_outcome:
  "\<exists>i \<le> 64. (\<forall>j < i. \<not> clean_observation (obs j)) \<and> fst (stage_snapshot obs stage m) = fst (snd (obs i)) \<and>
     mm_retries (snd (stage_snapshot obs stage m)) = mm_retries m + word_of_nat i \<and>
     mm_snapshots_taken (snd (stage_snapshot obs stage m)) = mm_snapshots_taken m + 1 \<and>
     (if clean_observation (obs i)
      then mm_forced_after_max_retries (snd (stage_snapshot obs stage m)) = mm_forced_after_max_retries m
      else i = 64 \<and>
        mm_forced_after_max_retries (snd (stage_snapshot obs stage m)) = mm_forced_after_max_retries m + 1)"
proof -
  obtain i where "settled obs 0 m i (stage_loop obs 0 stage m)" using stage_loop_outcome [OF le0, of obs m stage] by blast
  then show ?thesis
    by (intro exI [of _ i]) (auto simp: settled_def stage_snapshot_def k_max_seqlock_retries_def
        split: prod.splits)
qed

text \<open>A torn copy, a busy writer, then a clean copy: the third attempt is staged after two retries.\<close>

definition demo_attempts :: "nat \<Rightarrow> u64 \<times> nat \<times> u64" where
  "demo_attempts i = (if i = 0 then (2, 10, 4) else if i = 1 then (5, 20, 5) else (6, 30, 6))"

definition no_snapshots :: mirror_metrics where
  "no_snapshots = \<lparr>mm_retries = 0, mm_forced_after_max_retries = 0, mm_snapshots_taken = 0\<rparr>"

theorem stage_snapshot_outcome_witness:
  "fst (stage_snapshot demo_attempts 0 no_snapshots) = 30 \<and> mm_retries (snd (stage_snapshot demo_attempts 0 no_snapshots)) = 2 \<and>
     mm_forced_after_max_retries (snd (stage_snapshot demo_attempts 0 no_snapshots)) = 0"
proof -
  have clean: "clean_observation (demo_attempts i) \<longleftrightarrow> 2 \<le> i" for i
    by (auto simp: clean_observation_def demo_attempts_def)
  obtain i where i: "\<forall>j < i. \<not> clean_observation (demo_attempts j)"
    and r: "fst (stage_snapshot demo_attempts 0 no_snapshots) = fst (snd (demo_attempts i))"
      "mm_retries (snd (stage_snapshot demo_attempts 0 no_snapshots)) = mm_retries no_snapshots + word_of_nat i"
      "if clean_observation (demo_attempts i)
        then mm_forced_after_max_retries (snd (stage_snapshot demo_attempts 0 no_snapshots)) = mm_forced_after_max_retries no_snapshots
        else i = 64 \<and> mm_forced_after_max_retries (snd (stage_snapshot demo_attempts 0 no_snapshots)) =
          mm_forced_after_max_retries no_snapshots + 1"
    using stage_snapshot_outcome [of demo_attempts 0 no_snapshots] by blast
  have "2 \<le> i" using r(3) clean [of i] by (auto split: if_splits)
  moreover have "i \<le> 2" using i clean [of 2] by (meson linorder_not_le order_refl)
  ultimately have "i = 2" by simp
  then show ?thesis using r clean [of 2] by (simp add: demo_attempts_def no_snapshots_def)
qed

section \<open>The race\<close>

datatype reader = RIdle | RCopy nat u64 nat | RClean nat

record 'a race =
  rc_count :: nat
  rc_mem :: "nat \<Rightarrow> 'a"
  rc_writer :: "(nat \<times> 'a) list option"
  rc_stage :: "nat \<Rightarrow> 'a"
  rc_reader :: reader
  rc_stable :: "nat \<Rightarrow> nat \<Rightarrow> 'a"

text \<open>
  \<open>rc_writer\<close> holds the stores the running \<open>apply\<close> has still to make; \<open>rc_stable\<close> is a ghost: the
  memory each completed write left, by counter. \<open>RCopy c s k\<close>: the reader saw the counter word
  \<open>s\<close> when it stood at \<open>c\<close>, and has copied \<open>k\<close> of the \<open>N\<close> cells.
\<close>

definition rc_seq :: "'a race \<Rightarrow> u64" where
  "rc_seq s = word_of_nat (rc_count s)"

inductive race_step :: "nat \<Rightarrow> 'a race \<Rightarrow> 'a race \<Rightarrow> bool" for N where
  w_begin: "rc_writer s = None \<Longrightarrow>
     race_step N s (s\<lparr>rc_writer := Some stores, rc_count := Suc (rc_count s)\<rparr>)"
| w_store: "rc_writer s = Some ((i, v) # stores) \<Longrightarrow>
     race_step N s (s\<lparr>rc_writer := Some stores, rc_mem := (rc_mem s)(i := v)\<rparr>)"
| w_end: "rc_writer s = Some [] \<Longrightarrow>
     race_step N s (s\<lparr>rc_writer := None, rc_count := Suc (rc_count s),
       rc_stable := (rc_stable s)(Suc (rc_count s) := rc_mem s)\<rparr>)"
| r_start: "rc_reader s = RIdle \<Longrightarrow> even (rc_seq s) \<Longrightarrow>
     race_step N s (s\<lparr>rc_reader := RCopy (rc_count s) (rc_seq s) 0\<rparr>)"
| r_cell: "rc_reader s = RCopy c q k \<Longrightarrow> k < N \<Longrightarrow>
     race_step N s (s\<lparr>rc_reader := RCopy c q (Suc k), rc_stage := (rc_stage s)(k := rc_mem s k)\<rparr>)"
| r_clean: "rc_reader s = RCopy c q k \<Longrightarrow> k = N \<Longrightarrow> rc_seq s = q \<Longrightarrow>
     race_step N s (s\<lparr>rc_reader := RClean c\<rparr>)"
| r_retry: "rc_reader s = RCopy c q k \<Longrightarrow> k = N \<Longrightarrow> rc_seq s \<noteq> q \<Longrightarrow>
     race_step N s (s\<lparr>rc_reader := RIdle\<rparr>)"
| r_again: "rc_reader s = RClean c \<Longrightarrow> race_step N s (s\<lparr>rc_reader := RIdle\<rparr>)"

inductive_cases race_stepE: "race_step N s s'"

definition race_init :: "(nat \<Rightarrow> 'a) \<Rightarrow> (nat \<Rightarrow> 'a) \<Rightarrow> 'a race" where
  "race_init mem stage = \<lparr>rc_count = 0, rc_mem = mem, rc_writer = None, rc_stage = stage,
     rc_reader = RIdle, rc_stable = (\<lambda>_. mem)\<rparr>"

definition race_inv :: "nat \<Rightarrow> 'a race \<Rightarrow> bool" where
  "race_inv N s \<longleftrightarrow>
     (rc_writer s = None \<longleftrightarrow> even (rc_count s)) \<and>
     (rc_writer s = None \<longrightarrow> rc_stable s (rc_count s) = rc_mem s) \<and>
     (case rc_reader s of
        RIdle \<Rightarrow> True
      | RCopy c q k \<Rightarrow> even c \<and> c \<le> rc_count s \<and> q = word_of_nat c \<and> k \<le> N \<and>
          (rc_count s = c \<longrightarrow> (\<forall>j < k. rc_stage s j = rc_mem s j))
      | RClean c \<Rightarrow> even c \<and> c \<le> rc_count s \<and> (\<forall>j < N. rc_stage s j = rc_stable s c j))"

lemma even_word_of_nat: "even (word_of_nat n :: u64) \<longleftrightarrow> even n"
  using bit_of_nat_iff [of n 0, where ?'a = "64 word"] by (simp add: bit_0 possible_bit_def)

lemma race_inv_step:
  assumes "race_step N s s'" and "race_inv N s" and "rc_count s' < 2 ^ 64"
  shows "race_inv N s'"
  using assms
proof (cases rule: race_step.cases)
  case (r_clean c q k)
  then have "word_of_nat (rc_count s) = (word_of_nat c :: u64)" "c \<le> rc_count s"
    using assms(2) by (auto simp: race_inv_def rc_seq_def)
  then have "rc_count s = c"
    using assms(3) r_clean(1) by (simp add: word_of_nat_eq_iff take_bit_nat_eq_self)
  with r_clean assms(2) show ?thesis by (auto simp: race_inv_def)
qed (auto simp: race_inv_def rc_seq_def even_word_of_nat less_Suc_eq split: reader.splits)

lemma race_count_mono: "race_step N s s' \<Longrightarrow> rc_count s \<le> rc_count s'"
  by (auto elim: race_stepE)

lemma race_reach_inv:
  assumes "(race_step N)\<^sup>*\<^sup>* (race_init mem stage) s" and "rc_count s < 2 ^ 64"
  shows "race_inv N s"
  using assms
proof (induction rule: rtranclp_induct)
  case base
  then show ?case by (simp add: race_inv_def race_init_def)
next
  case (step s s')
  then show ?case using race_count_mono [OF step(2)] race_inv_step [OF step(2)] by simp
qed

text \<open>
  (C13) A clean snapshot is never torn: in every interleaving of the writer's and the reader's memory
  accesses, with fewer than 2^64 counter increments, a reader that accepts its copy holds, in every
  cell, the value that one completed write left, all from the same write, although other writes may
  have started and finished since.
\<close>

theorem clean_snapshot_not_torn:
  assumes "(race_step N)\<^sup>*\<^sup>* (race_init mem stage) s" and "rc_count s < 2 ^ 64"
    and "rc_reader s = RClean c"
  shows "even c \<and> c \<le> rc_count s \<and> (\<forall>j < N. rc_stage s j = rc_stable s c j)"
  using race_reach_inv [OF assms(1,2)] assms(3) by (simp add: race_inv_def)

theorem clean_snapshot_not_torn_witness:
  "\<exists>s :: nat race. (race_step 2)\<^sup>*\<^sup>* (race_init (\<lambda>_. 7) (\<lambda>_. 0)) s \<and> rc_reader s = RClean 0 \<and>
     rc_count s = 1 \<and> rc_stage s 1 = 7"
proof -
  let ?s0 = "race_init (\<lambda>_. 7 :: nat) (\<lambda>_. 0)"
  let ?s1 = "?s0\<lparr>rc_reader := RCopy 0 0 0\<rparr>"
  let ?s2 = "?s1\<lparr>rc_reader := RCopy 0 0 1, rc_stage := (rc_stage ?s1)(0 := 7)\<rparr>"
  let ?s3 = "?s2\<lparr>rc_reader := RCopy 0 0 2, rc_stage := (rc_stage ?s2)(1 := 7)\<rparr>"
  let ?s4 = "?s3\<lparr>rc_reader := RClean 0\<rparr>"
  let ?s5 = "?s4\<lparr>rc_writer := Some [(1, 9)], rc_count := 1\<rparr>"
  have a1: "race_step 2 ?s0 ?s1" using r_start [of ?s0 2] by (simp add: race_init_def rc_seq_def)
  have a2: "race_step 2 ?s1 ?s2" using r_cell [of ?s1 0 0 0 2] by (simp add: race_init_def)
  have a3: "race_step 2 ?s2 ?s3" using r_cell [of ?s2 0 0 1 2] by (simp add: race_init_def numeral_2_eq_2)
  have a4: "race_step 2 ?s3 ?s4" using r_clean [of ?s3 0 0 2 2] by (simp add: race_init_def rc_seq_def)
  have a5: "race_step 2 ?s4 ?s5" using w_begin [of ?s4 2 "[(1, 9)]"] by (simp add: race_init_def)
  note step = converse_rtranclp_into_rtranclp [of "race_step 2"]
  have reach: "(race_step 2)\<^sup>*\<^sup>* ?s0 ?s5"
    by (rule step [OF a1 step [OF a2 step [OF a3 step [OF a4 step [OF a5 rtranclp.rtrancl_refl]]]]])
  have "rc_count ?s5 < 2 ^ 64" "rc_reader ?s5 = RClean 0" by simp_all
  from clean_snapshot_not_torn [OF reach this] have "rc_stage ?s5 1 = rc_stable ?s5 0 1"
    by (simp add: race_init_def)
  then show ?thesis using reach by (intro exI [of _ ?s5]) (simp add: race_init_def)
qed

end
