(* ===== verification/Latency_Trace.thy ===== *)
theory Latency_Trace
  imports Prelude
begin

text \<open>
  The latency histogram of \<open>engine/core/latency_trace.hpp\<close>: per pipeline stage 40 buckets by the
  binary logarithm of the sample in nanoseconds, a count and a maximum. The counters are 64-bit
  words; the compare-and-swap loop of the maximum is taken as uncontended. \<open>dump\<close> returns the rows
  it prints and the reset histogram.
\<close>

section \<open>Model\<close>

datatype Stage = WsRecvToRingPush | RingPopToLobApply | GpuRunOnce | SignalToOrderSend | PollWakeToSignalNoticed

definition stage_index :: "Stage \<Rightarrow> nat" where
  "stage_index s = (case s of WsRecvToRingPush \<Rightarrow> 0 | RingPopToLobApply \<Rightarrow> 1 | GpuRunOnce \<Rightarrow> 2
     | SignalToOrderSend \<Rightarrow> 3 | PollWakeToSignalNoticed \<Rightarrow> 4)"

definition stage_count :: nat where "stage_count = 5"

definition stage_name :: "Stage \<Rightarrow> string" where
  "stage_name s = (case s of WsRecvToRingPush \<Rightarrow> ''ws_recv_to_ring_push''
     | RingPopToLobApply \<Rightarrow> ''ring_pop_to_lob_apply'' | GpuRunOnce \<Rightarrow> ''gpu_run_once''
     | SignalToOrderSend \<Rightarrow> ''signal_to_order_send''
     | PollWakeToSignalNoticed \<Rightarrow> ''poll_wake_to_signal_noticed'')"

definition k_buckets :: nat where "k_buckets = 40"

record histogram =
  lh_buckets :: "u64 list"
  lh_count :: u64
  lh_max :: u64

definition no_samples :: histogram where
  "no_samples = \<lparr>lh_buckets = replicate k_buckets 0, lh_count = 0, lh_max = 0\<rparr>"

definition LatencyHistogram :: "histogram list" where
  "LatencyHistogram = replicate stage_count no_samples"

function bucket_loop :: "u64 \<Rightarrow> nat \<Rightarrow> nat" where
  "bucket_loop ns b = (if ns > 1 \<and> b < k_buckets - 1 then bucket_loop (drop_bit 1 ns) (Suc b) else b)"
  by pat_completeness auto
termination
  by (relation "measure (\<lambda>(ns, b). k_buckets - b)") auto

declare bucket_loop.simps [simp del]

definition bucket_for :: "u64 \<Rightarrow> nat" where
  "bucket_for ns = (if ns < 1 then 0 else bucket_loop ns 0)"

definition record_sample :: "u64 \<Rightarrow> histogram \<Rightarrow> histogram" where
  "record_sample ns h =
     (let bucket = bucket_for ns
      in h\<lparr>lh_buckets := (lh_buckets h)[bucket := lh_buckets h ! bucket + 1],
           lh_count := lh_count h + 1,
           lh_max := (if ns > lh_max h then ns else lh_max h)\<rparr>)"

definition record_stage :: "Stage \<Rightarrow> u64 \<Rightarrow> histogram list \<Rightarrow> histogram list" where
  "record_stage stage ns hs =
     (let s = stage_index stage
      in if s \<ge> stage_count then hs else hs[s := record_sample ns (hs ! s)])"

text \<open>The scan of \<open>percentile_ns\<close> from bucket \<open>b\<close> with \<open>cum\<close> samples counted so far.\<close>

fun percentile_scan :: "u64 list \<Rightarrow> nat \<Rightarrow> u64 \<Rightarrow> u64 \<Rightarrow> u64" where
  "percentile_scan [] b cum target = 2 ^ (k_buckets - 1)"
| "percentile_scan (x # xs) b cum target =
     (let cum' = cum + x
      in if cum' > target then 2 ^ b else percentile_scan xs (Suc b) cum' target)"

definition percentile_target :: "u64 \<Rightarrow> dbl \<Rightarrow> u64" where
  "percentile_target n p = word_of_nat (nat \<lfloor>real (unat n) * p\<rfloor>)"

definition percentile_ns :: "histogram \<Rightarrow> u64 \<Rightarrow> dbl \<Rightarrow> u64" where
  "percentile_ns h n p = percentile_scan (lh_buckets h) 0 0 (percentile_target n p)"

type_synonym latency_row = "u64 \<times> u64 \<times> u64 \<times> u64 \<times> u64"

definition dump_stage :: "histogram \<Rightarrow> latency_row option \<times> histogram" where
  "dump_stage h =
     (let n = lh_count h
      in if n = 0 then (None, h)
         else (Some (percentile_ns h n (50 / 100), percentile_ns h n (90 / 100),
                 percentile_ns h n (99 / 100), lh_max h, n), no_samples))"

definition dump :: "histogram list \<Rightarrow> latency_row option list \<times> histogram list" where
  "dump hs = (map (fst \<circ> dump_stage) hs, map (snd \<circ> dump_stage) hs)"

section \<open>Buckets\<close>

lemma bucket_loop_bounds: "b \<le> k_buckets - 1 \<Longrightarrow> b \<le> bucket_loop ns b \<and> bucket_loop ns b \<le> k_buckets - 1"
proof (induction ns b rule: bucket_loop.induct)
  case (1 ns b)
  then show ?case by (subst (1 2) bucket_loop.simps) force
qed

lemma unat_half: "unat (drop_bit (Suc 0) ns :: u64) = unat ns div 2"
  by (simp add: drop_bit_eq_div unat_div_distrib)

lemma bucket_loop_mono:
  "unat ns \<le> unat ns' \<Longrightarrow> b \<le> k_buckets - 1 \<Longrightarrow> bucket_loop ns b \<le> bucket_loop ns' b"
proof (induction ns b arbitrary: ns' rule: bucket_loop.induct)
  case (1 ns b)
  show ?case
  proof (cases "ns > 1 \<and> b < k_buckets - 1")
    case True
    then have gt: "ns' > 1" using 1(2) by (simp add: word_less_nat_alt)
    have "unat (drop_bit 1 ns) \<le> unat (drop_bit 1 ns')"
      using 1(2) by (simp add: unat_half div_le_mono)
    from 1(1) [OF True this] True gt show ?thesis
      by (subst (1 2) bucket_loop.simps) simp
  next
    case False
    then have "bucket_loop ns b = b" by (subst bucket_loop.simps) auto
    then show ?thesis using bucket_loop_bounds [OF 1(3)] by simp
  qed
qed

lemma bucket_for_lt: "bucket_for ns < k_buckets"
  using bucket_loop_bounds [of 0 ns] by (auto simp: bucket_for_def k_buckets_def)

lemma bucket_for_mono: "ns \<le> ns' \<Longrightarrow> bucket_for ns \<le> bucket_for ns'"
  using bucket_loop_mono [of ns ns' 0]
  by (auto simp: bucket_for_def word_le_nat_alt word_less_nat_alt)

lemma bucket_loop_range:
  assumes "0 < unat ns" and "b \<le> k_buckets - 1"
  shows "2 ^ (bucket_loop ns b - b) \<le> unat ns \<and>
    (bucket_loop ns b < k_buckets - 1 \<longrightarrow> unat ns < 2 ^ Suc (bucket_loop ns b - b))"
  using assms
proof (induction ns b rule: bucket_loop.induct)
  case (1 ns b)
  show ?case
  proof (cases "ns > 1 \<and> b < k_buckets - 1")
    case True
    let ?h = "drop_bit 1 ns" and ?r = "bucket_loop (drop_bit 1 ns) (Suc b)"
    have gt: "1 < unat ns" using True by (simp add: word_less_nat_alt)
    have pos: "0 < unat ?h" using gt by (simp add: unat_half)
    have le: "Suc b \<le> k_buckets - 1" using True by simp
    from 1(1) [OF True pos le] have ih: "2 ^ (?r - Suc b) \<le> unat ns div 2"
        "?r < k_buckets - 1 \<longrightarrow> unat ns div 2 < 2 ^ Suc (?r - Suc b)" by (simp_all add: unat_half)
    have r: "bucket_loop ns b = ?r" using True by (subst bucket_loop.simps) simp
    have s: "?r - b = Suc (?r - Suc b)" using bucket_loop_bounds [OF le, of ?h] by linarith
    show ?thesis unfolding r s using ih by auto
  next
    case False
    then have "bucket_loop ns b = b" by (subst bucket_loop.simps) auto
    then show ?thesis using 1(2) False by (auto simp: word_less_nat_alt not_less)
  qed
qed

section \<open>Percentiles\<close>

text \<open>The samples below bucket \<open>b\<close>.\<close>

definition below :: "u64 list \<Rightarrow> nat \<Rightarrow> nat" where
  "below xs b = length (filter (\<lambda>x. bucket_for x < b) xs)"

lemma below_facts:
  "below xs 0 = 0" "below xs k_buckets = length xs" "below xs b \<le> length xs"
  "below xs b \<le> below xs (Suc b)"
proof -
  show "below xs 0 = 0" "below xs b \<le> length xs" by (simp_all add: below_def)
  show "below xs k_buckets = length xs" by (simp add: below_def bucket_for_lt)
  show "below xs b \<le> below xs (Suc b)" unfolding below_def by (induction xs) auto
qed

lemma record_run:
  assumes "h = fold record_sample xs no_samples"
  shows "lh_buckets h = map (\<lambda>b. word_of_nat (below xs (Suc b) - below xs b)) [0..<k_buckets] \<and>
         lh_count h = word_of_nat (length xs)"
proof -
  have gen: "lh_buckets (fold record_sample xs g) =
      map (\<lambda>b. lh_buckets g ! b + word_of_nat (below xs (Suc b) - below xs b)) [0..<k_buckets] \<and>
      lh_count (fold record_sample xs g) = lh_count g + word_of_nat (length xs)"
    if "length (lh_buckets g) = k_buckets" for g
    using that
  proof (induction xs arbitrary: g)
    case Nil
    then show ?case by (simp add: below_def nth_equalityI)
  next
    case (Cons x xs)
    have d: "below (x # xs) (Suc b) - below (x # xs) b =
        (if bucket_for x = b then 1 else 0) + (below xs (Suc b) - below xs b)" for b
      using below_facts(4) [of xs b] by (auto simp: below_def)
    from Cons.IH [of "record_sample x g"] Cons.prems show ?case
      by (auto simp: record_sample_def Let_def d nth_list_update bucket_for_lt algebra_simps)
  qed
  from gen [of no_samples] assms show ?thesis by (simp add: no_samples_def)
qed

lemma percentile_scan_hit:
  assumes "b \<le> B" and "B < k_buckets" and "below xs B \<le> t" and "t < below xs (Suc B)"
    and "length xs < 2 ^ 64"
  shows "percentile_scan (map (\<lambda>i. word_of_nat (below xs (Suc i) - below xs i)) [b..<k_buckets]) b
           (word_of_nat (below xs b)) (word_of_nat t) = 2 ^ B"
  using assms
proof (induction "B - b" arbitrary: b)
  case 0
  then have b: "b = B" by simp
  have "below xs (Suc B) < 2 ^ 64" using below_facts(3) [of xs "Suc B"] 0(6) by (rule le_less_trans)
  then have lt: "(word_of_nat t :: u64) < word_of_nat (below xs (Suc B))"
    using 0(5) by (simp add: word_less_nat_alt unsigned_of_nat take_bit_nat_eq_self)
  have "(word_of_nat (below xs B) :: u64) + word_of_nat (below xs (Suc B) - below xs B) =
      word_of_nat (below xs (Suc B))"
    using below_facts(4) [of xs B] by (metis le_add_diff_inverse of_nat_add)
  with lt show ?case using 0(3) by (simp add: b upt_rec [of B])
next
  case (Suc d)
  then have b: "b < B" by simp
  have mono: "below xs (Suc b) \<le> t"
    using lift_Suc_mono_le [of "below xs" "Suc b" B] below_facts(4) b Suc.prems(3) by force
  have "t < 2 ^ 64" using Suc.prems(4,5) below_facts(3) [of xs "Suc B"] by linarith
  then have nlt: "\<not> (word_of_nat t :: u64) < word_of_nat (below xs (Suc b))"
    using mono by (simp add: word_less_nat_alt unsigned_of_nat take_bit_nat_eq_self)
  have "(word_of_nat (below xs b) :: u64) + word_of_nat (below xs (Suc b) - below xs b) =
      word_of_nat (below xs (Suc b))"
    using below_facts(4) [of xs b] by (metis le_add_diff_inverse of_nat_add)
  with nlt Suc.hyps(1) [of "Suc b"] Suc.hyps(2) Suc.prems b show ?case
    by (simp add: upt_rec [of b] Let_def)
qed

lemma sorted_filter_nth:
  fixes f :: "'a :: linorder \<Rightarrow> nat"
  assumes "sorted ys" and "\<And>x y. x \<le> y \<Longrightarrow> f x \<le> f y" and "t < length ys"
  shows "t < length (filter (\<lambda>x. f x < b) ys) \<longleftrightarrow> f (ys ! t) < b"
  using assms(1,3)
proof (induction ys arbitrary: t)
  case (Cons y ys)
  show ?case
  proof (cases "f y < b")
    case True
    then show ?thesis using Cons by (cases t) auto
  next
    case False
    then have all: "\<forall>x \<in> set (y # ys). \<not> f x < b" using Cons.prems(1) assms(2) by fastforce
    then have "filter (\<lambda>x. f x < b) (y # ys) = []" by (simp add: filter_empty_conv)
    moreover have "\<not> f ((y # ys) ! t) < b" using all Cons.prems(2) nth_mem by blast
    ultimately show ?thesis by simp
  qed
qed simp

lemma below_sort: "below (sort xs) b = below xs b"
  unfolding below_def by (metis filter_sort length_sort)

text \<open>
  (C36) The reported percentile is an order statistic: for any list of samples of a stage and any
  fraction below one, \<open>percentile_ns\<close> returns the power of two that starts the bucket of the sample
  at position floor(n * p) of the sorted list, and the count is the number of samples.
\<close>

theorem percentile_is_order_statistic:
  assumes "h = fold record_sample xs no_samples" and "0 < length xs" and "length xs < 2 ^ 64"
    and "0 \<le> p" and "p < 1"
  shows "lh_count h = word_of_nat (length xs) \<and>
    percentile_ns h (lh_count h) p = 2 ^ bucket_for (sort xs ! nat \<lfloor>real (length xs) * p\<rfloor>)"
proof -
  let ?n = "length xs"
  define t where "t = nat \<lfloor>real ?n * p\<rfloor>"
  note h = record_run [OF assms(1)]
  have un: "unat (lh_count h) = ?n" using h assms(3) by (simp add: unsigned_of_nat take_bit_nat_eq_self)
  have "real ?n * p < real ?n" using assms(2,5) by simp
  then have t: "t < ?n" unfolding t_def using assms(4)
    by (metis floor_less_iff less_le_trans nat_less_iff of_int_of_nat_eq of_nat_0_le_iff order_refl
        zero_le_floor zero_le_mult_iff)
  let ?B = "bucket_for (sort xs ! t)"
  have iff: "t < below xs b \<longleftrightarrow> bucket_for (sort xs ! t) < b" for b
    using sorted_filter_nth [of "sort xs" bucket_for t b] bucket_for_mono t below_sort [of xs b]
    by (simp add: below_def)
  have "below xs ?B \<le> t" "t < below xs (Suc ?B)" using iff [of ?B] iff [of "Suc ?B"] by simp_all
  from percentile_scan_hit [OF _ bucket_for_lt this assms(3), of 0]
  have "percentile_scan (lh_buckets h) 0 0 (word_of_nat t) = 2 ^ ?B"
    using h below_facts(1) [of xs] by simp
  moreover have "percentile_target (lh_count h) p = word_of_nat t"
    by (simp only: percentile_target_def un t_def)
  ultimately have "percentile_ns h (lh_count h) p = 2 ^ ?B" by (simp only: percentile_ns_def)
  then show ?thesis using h t_def by blast
qed

theorem percentile_is_order_statistic_witness:
  "percentile_ns (fold record_sample [5, 900, 1000, 70] no_samples) 4 (1 / 2) = 512"
proof -
  have "\<lfloor>real (length [5, 900, 1000, 70 :: u64]) * (1 / 2)\<rfloor> = 2" by simp
  moreover have "sort [5, 900, 1000, 70 :: u64] ! 2 = 900" by simp
  moreover have "bucket_for 900 = 9"
    by (simp add: bucket_for_def bucket_loop.simps k_buckets_def)
  ultimately show ?thesis
    using percentile_is_order_statistic [OF refl, of "[5, 900, 1000, 70]" "1 / 2"]
    by (simp only: list.size) auto
qed

end
