(* ===== verification/Backtest_Stats.thy ===== *)
theory Backtest_Stats
  imports Prelude
begin

text \<open>
  \<open>BacktestEvaluator\<close> of \<open>engine/core/backtest_stats.hpp\<close>: the summary of an equity curve. The
  printing of the result is left out.
\<close>

section \<open>Model\<close>

record BacktestResult =
  br_sharpe_ratio :: dbl
  br_max_drawdown :: dbl
  br_win_rate :: dbl
  br_annualized_volatility :: dbl
  br_total_return :: dbl
  br_mean_return :: dbl
  br_n_trades :: nat
  br_n_wins :: nat

definition empty_result :: BacktestResult where
  "empty_result = \<lparr>br_sharpe_ratio = 0, br_max_drawdown = 0, br_win_rate = 0,
     br_annualized_volatility = 0, br_total_return = 0, br_mean_return = 0, br_n_trades = 0, br_n_wins = 0\<rparr>"

fun curve_returns :: "dbl list \<Rightarrow> dbl list" where
  "curve_returns (prev # cur # rest) =
     (if prev = 0 then curve_returns (cur # rest) else (cur - prev) / prev # curve_returns (cur # rest))"
| "curve_returns _ = []"

text \<open>The drawdown loop, from a peak and the worst drawdown so far.\<close>

fun drawdown_loop :: "dbl \<Rightarrow> dbl \<Rightarrow> dbl list \<Rightarrow> dbl" where
  "drawdown_loop peak max_dd [] = max_dd"
| "drawdown_loop peak max_dd (x # xs) =
     (let peak' = (if x > peak then x else peak);
          dd = (if peak' > 0 then (peak' - x) / peak' else 0)
      in drawdown_loop peak' (if dd > max_dd then dd else max_dd) xs)"

definition evaluate :: "dbl list \<Rightarrow> nat \<Rightarrow> nat \<Rightarrow> dbl \<Rightarrow> BacktestResult" where
  "evaluate equity_curve n_wins n_trades ticks_per_year =
     (if length equity_curve < 2 then empty_result
      else
        (let r = empty_result\<lparr>br_n_trades := n_trades, br_n_wins := n_wins,
                   br_win_rate := (if n_trades > 0 then real n_wins / real n_trades else 0)\<rparr>;
             returns = curve_returns equity_curve
         in if returns = [] then r
            else
              (let mean = foldl (+) 0 returns / real (length returns);
                   var = foldl (\<lambda>v x. let d = x - mean in v + d * d) 0 returns / real (length returns);
                   stdv = sqrt var;
                   e0 = hd equity_curve
               in r\<lparr>br_mean_return := mean,
                    br_annualized_volatility := stdv * sqrt ticks_per_year,
                    br_sharpe_ratio := (if stdv > 1 / 10 ^ 12 then (mean / stdv) * sqrt ticks_per_year else 0),
                    br_max_drawdown := drawdown_loop e0 0 (tl equity_curve),
                    br_total_return := (if e0 \<noteq> 0 then (last equity_curve - e0) / e0 else 0)\<rparr>)))"

section \<open>Drawdown\<close>

text \<open>The running peaks the loop goes through.\<close>

fun peaks :: "dbl \<Rightarrow> dbl list \<Rightarrow> dbl list" where
  "peaks p [] = []"
| "peaks p (x # xs) = max p x # peaks (max p x) xs"

lemma length_peaks [simp]: "length (peaks p xs) = length xs"
  by (induction xs arbitrary: p) auto

lemma peaks_nth: "j < length xs \<Longrightarrow> peaks p xs ! j = Max (set (p # take (Suc j) xs))"
proof (induction xs arbitrary: p j)
  case (Cons x xs)
  show ?case
  proof (cases j)
    case 0
    then show ?thesis by simp
  next
    case (Suc k)
    have fin: "finite (set (take (Suc k) xs))" by simp
    from Cons.IH [of k "max p x"] Cons.prems Suc show ?thesis
      by (cases "take (Suc k) xs") (simp_all add: max.assoc)
  qed
qed simp

definition drop_frac :: "dbl \<Rightarrow> dbl \<Rightarrow> dbl" where
  "drop_frac p x = (p - x) / p"

lemma drop_frac_mono: "0 < a \<Longrightarrow> a \<le> b \<Longrightarrow> 0 < x \<Longrightarrow> drop_frac a x \<le> drop_frac b x"
  by (simp add: drop_frac_def field_simps)

lemma drawdown_loop_peaks:
  "0 < peak \<Longrightarrow> drawdown_loop peak m xs = foldl max m (map2 drop_frac (peaks peak xs) xs)"
proof (induction xs arbitrary: peak m)
  case (Cons x xs)
  have "0 < max peak x" using Cons.prems by simp
  from Cons.IH [OF this] this show ?case
    by (simp add: Let_def drop_frac_def max_def split: if_splits)
qed simp

lemma foldl_max_Max: "foldl max m ys = Max (set (m # ys))" for m :: real
proof (induction ys arbitrary: m)
  case (Cons y ys)
  from Cons.IH [of "max m y"] show ?case by (cases ys) (simp_all add: max.assoc)
qed simp

lemma drawdown_max:
  assumes "\<forall>x \<in> set e. 0 < x" and "e = e0 # xs"
  shows "drawdown_loop e0 0 xs = Max (set (0 # map2 drop_frac (peaks e0 xs) xs))"
  using assms by (simp only: drawdown_loop_peaks foldl_max_Max list.set_intros)

lemma drop_nth:
  assumes "e = e0 # xs" and "k < length xs"
  shows "map2 drop_frac (peaks e0 xs) xs ! k = drop_frac (Max (set (take (Suc (Suc k)) e))) (e ! Suc k)"
  using assms peaks_nth [OF assms(2), of e0] by simp

lemma drawdown_bounds_pairs:
  assumes pos: "\<forall>x \<in> set e. 0 < x" and e: "e = e0 # xs" and ij: "i \<le> j" "j < length e"
  shows "drop_frac (e ! i) (e ! j) \<le> drawdown_loop e0 0 xs"
proof (cases j)
  case 0
  then show ?thesis unfolding drawdown_max [OF pos e] using ij by (simp add: drop_frac_def)
next
  case (Suc k)
  let ?dds = "map2 drop_frac (peaks e0 xs) xs"
  have k: "k < length xs" using ij e Suc by simp
  have "e ! i \<in> set (take (Suc j) e)"
    using ij by (metis in_set_conv_nth le_imp_less_Suc length_take less_le_trans min_less_iff_conj nth_take order_le_less_trans)
  then have "e ! i \<le> Max (set (take (Suc j) e))" by (intro Max_ge) auto
  moreover have "0 < e ! i" "0 < e ! j" using pos ij by auto
  ultimately have "drop_frac (e ! i) (e ! j) \<le> ?dds ! k" using drop_frac_mono drop_nth [OF e k] Suc by simp
  also have "?dds ! k \<in> set (0 # ?dds)" using k nth_mem [of k ?dds] by simp
  then have "?dds ! k \<le> drawdown_loop e0 0 xs" unfolding drawdown_max [OF pos e] by (intro Max_ge) auto
  finally show ?thesis .
qed

lemma drawdown_attained:
  assumes pos: "\<forall>x \<in> set e. 0 < x" and e: "e = e0 # xs"
  shows "\<exists>i j. i \<le> j \<and> j < length e \<and> drawdown_loop e0 0 xs = drop_frac (e ! i) (e ! j)"
proof -
  let ?dds = "map2 drop_frac (peaks e0 xs) xs" and ?m = "drawdown_loop e0 0 xs"
  have "?m \<in> set (0 # ?dds)" unfolding drawdown_max [OF pos e] by (rule Max_in) auto
  then consider "?m = 0" | k where "k < length ?dds" "?m = ?dds ! k" by (metis in_set_conv_nth set_ConsD)
  then show ?thesis
  proof cases
    case 1
    then show ?thesis using e by (intro exI [of _ 0]) (simp add: drop_frac_def)
  next
    case (2 k)
    have k: "k < length xs" using 2(1) by simp
    have "Max (set (take (Suc (Suc k)) e)) \<in> set (take (Suc (Suc k)) e)" by (rule Max_in) (auto simp: e)
    then obtain i where "i < Suc (Suc k)" "e ! i = Max (set (take (Suc (Suc k)) e))" by (auto simp: in_set_conv_nth)
    then show ?thesis using 2(2) drop_nth [OF e k] k e by (intro exI [of _ i] exI [of _ "Suc k"]) simp
  qed
qed

lemma drawdown_exact_pairs:
  assumes pos: "\<forall>x \<in> set e. 0 < x" and e: "e = e0 # xs"
  defines "m \<equiv> drawdown_loop e0 0 xs"
  shows "(\<forall>i j. i \<le> j \<and> j < length e \<longrightarrow> drop_frac (e ! i) (e ! j) \<le> m) \<and>
    (\<exists>i j. i \<le> j \<and> j < length e \<and> m = drop_frac (e ! i) (e ! j))"
  unfolding m_def using drawdown_bounds_pairs [OF pos e] drawdown_attained [OF pos e] by blast

text \<open>
  The reported maximum drawdown is exact: for a curve of at least two positive equities it is the
  largest relative loss from any point of the curve to any later point, it is attained, and it lies
  in [0, 1).
\<close>

theorem max_drawdown_exact:
  assumes pos: "\<forall>x \<in> set e. 0 < x" and len: "2 \<le> length e"
    and m: "m = br_max_drawdown (evaluate e wins trades ticks)"
  shows "(\<forall>i j. i \<le> j \<and> j < length e \<longrightarrow> (e ! i - e ! j) / e ! i \<le> m) \<and>
    (\<exists>i j. i \<le> j \<and> j < length e \<and> m = (e ! i - e ! j) / e ! i) \<and> 0 \<le> m \<and> m < 1"
proof -
  obtain e0 e1 xs where e: "e = e0 # e1 # xs" using len by (auto simp: numeral_2_eq_2 Suc_le_length_iff)
  have "e0 \<noteq> 0" using pos e by force
  then have "m = drawdown_loop e0 0 (e1 # xs)"
    unfolding m by (simp add: evaluate_def e Let_def)
  note d = drawdown_exact_pairs [OF pos e, folded this, unfolded drop_frac_def]
  obtain i j where ij: "i \<le> j" "j < length e" "m = (e ! i - e ! j) / e ! i" using d by blast
  have "0 < e ! i" "0 < e ! j" using pos ij by auto
  then have "m < 1" by (simp add: ij(3) field_simps)
  moreover have "0 \<le> m" using d e by (metis diff_self div_0 le_refl length_greater_0_conv list.distinct(1))
  ultimately show ?thesis using d by blast
qed

theorem max_drawdown_exact_witness:
  "1 / 4 \<le> br_max_drawdown (evaluate [100, 120, 90, 110] 1 2 1) \<and>
   br_max_drawdown (evaluate [100, 120, 90, 110] 1 2 1) < 1"
proof -
  have "\<forall>x \<in> set [100, 120, 90, 110 :: real]. 0 < x" by simp
  note d = max_drawdown_exact [OF this _ refl, of 1 2 1]
  have "([100, 120, 90, 110] ! 1 - [100, 120, 90, 110] ! 2) / [100, 120, 90, 110 :: real] ! 1
      \<le> br_max_drawdown (evaluate [100, 120, 90, 110] 1 2 1)"
    by (rule d [THEN conjunct1, rule_format]) simp_all
  moreover have "br_max_drawdown (evaluate [100, 120, 90, 110] 1 2 1) < 1"
    by (rule d [THEN conjunct2, THEN conjunct2, THEN conjunct2]) simp
  ultimately show ?thesis by simp
qed

end
