(* ===== verification/Signal_Router.thy ===== *)
theory Signal_Router
  imports Prelude
begin

text \<open>
  \<open>SignalRouter\<close> of \<open>engine/net/signal_router.hpp\<close>: up to three edges of the flow graph, strongest
  first, no two of which share an instrument. The threshold, read from the environment on every
  call, is an argument; the output buffer is the list of the entries written.
\<close>

section \<open>Model\<close>

definition k_signal_router_top_k :: nat where "k_signal_router_top_k = 3"

record RoutedEdge =
  re_src_instrument :: u32
  re_dst_instrument :: u32
  re_harmonic_flow :: flt
  re_yang_mills_action :: flt
  re_signal_ts_ns :: u64
  re_edge_index :: u32

record RouterMetrics =
  rm_signals_processed :: u64
  rm_edges_routed :: u64
  rm_signals_suppressed :: u64

text \<open>The graph of one call: flow, source and destination of every edge, and the threshold.\<close>

record flow_graph =
  fg_curl_flow :: "flt list"
  fg_edge_src :: "int list"
  fg_edge_dst :: "int list"
  fg_threshold :: flt

definition edge_strength :: "flow_graph \<Rightarrow> nat \<Rightarrow> flt" where
  "edge_strength g e = (if fg_curl_flow g ! e < 0 then - (fg_curl_flow g ! e) else fg_curl_flow g ! e)"

definition edge_src :: "flow_graph \<Rightarrow> nat \<Rightarrow> u32" where
  "edge_src g e = word_of_int (fg_edge_src g ! e)"

definition edge_dst :: "flow_graph \<Rightarrow> nat \<Rightarrow> u32" where
  "edge_dst g e = word_of_int (fg_edge_dst g ! e)"

definition edge_open :: "flow_graph \<Rightarrow> u32 list \<Rightarrow> nat \<Rightarrow> bool" where
  "edge_open g used e \<longleftrightarrow> \<not> edge_strength g e < fg_threshold g \<and>
     \<not> (e \<ge> length (fg_edge_src g) \<or> e \<ge> length (fg_edge_dst g)) \<and>
     \<not> (edge_src g e \<in> set used \<or> edge_dst g e \<in> set used)"

fun scan_edges :: "flow_graph \<Rightarrow> u32 list \<Rightarrow> nat list \<Rightarrow> nat option \<Rightarrow> nat option" where
  "scan_edges g used [] best = best"
| "scan_edges g used (e # es) best =
     scan_edges g used es
       (if edge_open g used e \<and>
           (case best of None \<Rightarrow> True | Some b \<Rightarrow> edge_strength g e > edge_strength g b)
        then Some e else best)"

fun fill_slots :: "flow_graph \<Rightarrow> nat \<Rightarrow> u32 list \<Rightarrow> nat list" where
  "fill_slots g 0 used = []"
| "fill_slots g (Suc slots) used =
     (case scan_edges g used [0..<length (fg_curl_flow g)] None of
        None \<Rightarrow> []
      | Some e \<Rightarrow> e # fill_slots g slots (used @ [edge_src g e, edge_dst g e]))"

definition routed_edge :: "flow_graph \<Rightarrow> flt \<Rightarrow> u64 \<Rightarrow> nat \<Rightarrow> RoutedEdge" where
  "routed_edge g action ts e =
     \<lparr>re_src_instrument = edge_src g e, re_dst_instrument = edge_dst g e,
      re_harmonic_flow = fg_curl_flow g ! e, re_yang_mills_action = action, re_signal_ts_ns = ts,
      re_edge_index = word_of_nat e\<rparr>"

definition route :: "flow_graph \<Rightarrow> flt \<Rightarrow> u64 \<Rightarrow> RouterMetrics \<Rightarrow> RoutedEdge list \<times> RouterMetrics" where
  "route g action ts m =
     (let m1 = m\<lparr>rm_signals_processed := rm_signals_processed m + 1\<rparr> in
      if action < fg_threshold g
      then ([], m1\<lparr>rm_signals_suppressed := rm_signals_suppressed m1 + 1\<rparr>)
      else if fg_curl_flow g = [] then ([], m1)
      else (let es = fill_slots g k_signal_router_top_k []
            in (map (routed_edge g action ts) es,
                m1\<lparr>rm_edges_routed := rm_edges_routed m1 + word_of_nat (length es)\<rparr>)))"

section \<open>Selection\<close>

lemma scan_edges_best:
  "scan_edges g used es best = r \<Longrightarrow>
    (r = None \<longleftrightarrow> best = None \<and> (\<forall>e \<in> set es. \<not> edge_open g used e)) \<and>
    (\<forall>b. r = Some b \<longrightarrow> (best = Some b \<or> b \<in> set es \<and> edge_open g used b) \<and>
       (\<forall>e \<in> set es. edge_open g used e \<longrightarrow> edge_strength g e \<le> edge_strength g b) \<and>
       (\<forall>b0. best = Some b0 \<longrightarrow> edge_strength g b0 \<le> edge_strength g b))"
proof (induction es arbitrary: best)
  case (Cons e es)
  let ?b = "if edge_open g used e \<and>
      (case best of None \<Rightarrow> True | Some b \<Rightarrow> edge_strength g e > edge_strength g b) then Some e else best"
  have "scan_edges g used es ?b = r" using Cons.prems by simp
  from Cons.IH [OF this] show ?case
    by (auto split: if_splits option.splits)
qed auto

lemma scan_all:
  "scan_edges g used [0..<n] None = None \<Longrightarrow> e < n \<Longrightarrow> \<not> edge_open g used e"
  "scan_edges g used [0..<n] None = Some b \<Longrightarrow>
     b < n \<and> edge_open g used b \<and> (\<forall>e < n. edge_open g used e \<longrightarrow> edge_strength g e \<le> edge_strength g b)"
  using scan_edges_best [of g used "[0..<n]" None] by auto

text \<open>
  A greedy batch: each edge is open given the instruments of the earlier ones and at least as strong
  as every other open edge; the batch stops early only when no edge is open.
\<close>

definition endpoints :: "flow_graph \<Rightarrow> nat list \<Rightarrow> u32 list" where
  "endpoints g es = concat (map (\<lambda>e. [edge_src g e, edge_dst g e]) es)"

definition greedy :: "flow_graph \<Rightarrow> nat \<Rightarrow> u32 list \<Rightarrow> nat list \<Rightarrow> bool" where
  "greedy g slots used es \<longleftrightarrow> length es \<le> slots \<and>
     (\<forall>i < length es. es ! i < length (fg_curl_flow g) \<and>
        edge_open g (used @ endpoints g (take i es)) (es ! i) \<and>
        (\<forall>e < length (fg_curl_flow g). edge_open g (used @ endpoints g (take i es)) e \<longrightarrow>
           edge_strength g e \<le> edge_strength g (es ! i))) \<and>
     (length es < slots \<longrightarrow> (\<forall>e < length (fg_curl_flow g). \<not> edge_open g (used @ endpoints g es) e))"

lemma fill_slots_greedy: "greedy g slots used (fill_slots g slots used)"
proof (induction slots arbitrary: used)
  case 0
  then show ?case by (simp add: greedy_def)
next
  case (Suc slots)
  show ?case
  proof (cases "scan_edges g used [0..<length (fg_curl_flow g)] None")
    case None
    then show ?thesis using scan_all(1) [OF None] by (simp add: greedy_def endpoints_def)
  next
    case (Some b)
    note b = scan_all(2) [OF Some]
    let ?used = "used @ [edge_src g b, edge_dst g b]"
    have e: "used @ endpoints g (take (Suc i) (b # es)) = ?used @ endpoints g (take i es)" for i es
      by (simp add: endpoints_def)
    have e': "used @ endpoints g (b # es) = ?used @ endpoints g es" for es
      by (simp add: endpoints_def)
    have u: "used @ endpoints g (take 0 es) = used" for es by (simp add: endpoints_def)
    have all: "(\<forall>i < length (b # es). Q i) \<longleftrightarrow> Q 0 \<and> (\<forall>i < length es. Q (Suc i))" for Q es
      by (auto simp: less_Suc_eq_0_disj)
    show ?thesis
      using Suc.IH [of ?used] b unfolding greedy_def fill_slots.simps(2) Some option.case(2) all e e' u
      by auto
  qed
qed

text \<open>
  (C32) A routed batch is greedy and instrument-disjoint: a signal whose action is below the threshold
  routes nothing; otherwise at most three edges are routed, no two share an instrument, each has
  strength at least the threshold and is the strongest edge still open when it was picked, and a
  batch shorter than three leaves no open edge.
\<close>

theorem route_batch:
  assumes "route g action ts m = (out, m')"
  shows "(action < fg_threshold g \<longrightarrow> out = [] \<and> rm_signals_suppressed m' = rm_signals_suppressed m + 1) \<and>
    (\<not> action < fg_threshold g \<longrightarrow>
       (\<exists>es. greedy g 3 [] es \<and> out = map (routed_edge g action ts) es \<and>
         rm_edges_routed m' = rm_edges_routed m + word_of_nat (length es))) \<and>
    (\<forall>i j. i < j \<and> j < length out \<longrightarrow>
       {re_src_instrument (out ! i), re_dst_instrument (out ! i)} \<inter>
       {re_src_instrument (out ! j), re_dst_instrument (out ! j)} = {})"
proof (cases "action < fg_threshold g")
  case True
  then show ?thesis using assms by (auto simp: route_def Let_def)
next
  case False
  have gr: "greedy g 3 [] (fill_slots g 3 [])" by (rule fill_slots_greedy)
  have nil: "fill_slots g 3 [] = []" if "fg_curl_flow g = []"
    using that by (simp add: eval_nat_numeral)
  have out: "out = map (routed_edge g action ts) (fill_slots g 3 [])"
    "rm_edges_routed m' = rm_edges_routed m + word_of_nat (length (fill_slots g 3 []))"
    using assms False nil
    by (cases "fg_curl_flow g = []"; simp add: route_def Let_def k_signal_router_top_k_def; fastforce)+
  have "{edge_src g (es ! i), edge_dst g (es ! i)} \<inter> {edge_src g (es ! j), edge_dst g (es ! j)} = {}"
    if "greedy g 3 [] es" "i < j" "j < length es" for es i j
  proof -
    have "i < length (take j es)" "take j es ! i = es ! i" using that by simp_all
    then have "es ! i \<in> set (take j es)" using nth_mem [of i "take j es"] by simp
    then have "{edge_src g (es ! i), edge_dst g (es ! i)} \<subseteq> set (endpoints g (take j es))"
      by (auto simp: endpoints_def)
    moreover have "edge_open g (endpoints g (take j es)) (es ! j)" using that by (simp add: greedy_def)
    ultimately show ?thesis by (auto simp: edge_open_def)
  qed
  note disj = this [OF gr]
  have "{re_src_instrument (out ! i), re_dst_instrument (out ! i)} \<inter>
       {re_src_instrument (out ! j), re_dst_instrument (out ! j)} = {}" if "i < j" "j < length out" for i j
    using disj [of i j] that by (simp add: out(1) routed_edge_def)
  moreover have "\<exists>es. greedy g 3 [] es \<and> out = map (routed_edge g action ts) es \<and>
         rm_edges_routed m' = rm_edges_routed m + word_of_nat (length es)"
    using gr out by blast
  ultimately show ?thesis using False by simp
qed

theorem route_batch_witness:
  "\<exists>m'. route \<lparr>fg_curl_flow = [12, - 40, 15], fg_edge_src = [0, 0, 2], fg_edge_dst = [1, 2, 3],
           fg_threshold = 10\<rparr> 20 5 \<lparr>rm_signals_processed = 0, rm_edges_routed = 0, rm_signals_suppressed = 0\<rparr>
     = ([\<lparr>re_src_instrument = 0, re_dst_instrument = 2, re_harmonic_flow = - 40, re_yang_mills_action = 20,
          re_signal_ts_ns = 5, re_edge_index = 1\<rparr>], m') \<and> rm_edges_routed m' = 1"
proof -
  let ?g = "\<lparr>fg_curl_flow = [12, - 40, 15], fg_edge_src = [0, 0, 2], fg_edge_dst = [1, 2, 3], fg_threshold = 10\<rparr>"
  let ?m = "\<lparr>rm_signals_processed = 0, rm_edges_routed = 0, rm_signals_suppressed = 0\<rparr>"
  obtain out m' where r: "route ?g 20 5 ?m = (out, m')" by fastforce
  have "fill_slots ?g 3 [] = [1]"
    by (simp add: eval_nat_numeral edge_open_def edge_strength_def edge_src_def edge_dst_def)
  then have "out = [routed_edge ?g 20 5 1]"
    using r by (auto simp: route_def Let_def k_signal_router_top_k_def)
  moreover obtain es where "out = map (routed_edge ?g 20 5) es" "rm_edges_routed m' = word_of_nat (length es)"
    using route_batch [OF r] by auto
  ultimately show ?thesis using r by (auto simp: routed_edge_def edge_src_def edge_dst_def)
qed

end
