(* ===== verification/Csv_Replay.thy ===== *)
theory Csv_Replay
  imports Lob_Core
begin

text \<open>
  The CSV replay of \<open>engine/net/csv_replay.hpp\<close>: the hand-written number parsers, the row skipping
  and the replay loop. A pointer into the mapped file is the rest of the file from that pointer; a
  parser returns its value and the pointer it stops at. The loop returns the updates in the order it
  pushes them (the blocking push itself is \<open>push_blocking\<close> of \<open>Ring_Buffer\<close>) and its counters;
  sleeps are logged as durations. The shutdown flag is read from the argument \<open>stop\<close>, by iteration.
\<close>

section \<open>Model\<close>

datatype ReplayMode = Fastest | Realtime | Throttled

record ReplayConfig =
  rp_mode :: ReplayMode
  rp_msgs_per_sec :: u32
  rp_max_gap_ms :: u32

record ReplayMetrics =
  rp_rows_read :: u64
  rp_updates_pushed :: u64
  rp_updates_dropped :: u64
  rp_parse_errors :: u64
  rp_sleeps :: "u64 list"
  rp_finished :: bool

fun parse_u64 :: "u64 \<Rightarrow> string \<Rightarrow> u64 \<times> string" where
  "parse_u64 acc [] = (acc, [])"
| "parse_u64 acc (c # cs) =
     (if is_digit c then parse_u64 (acc * 10 + word_of_nat (digit_val c)) cs else (acc, c # cs))"

fun parse_u32 :: "u32 \<Rightarrow> string \<Rightarrow> u32 \<times> string" where
  "parse_u32 acc [] = (acc, [])"
| "parse_u32 acc (c # cs) =
     (if is_digit c then parse_u32 (acc * 10 + word_of_nat (digit_val c)) cs else (acc, c # cs))"

fun parse_whole :: "flt \<Rightarrow> string \<Rightarrow> flt \<times> string" where
  "parse_whole acc [] = (acc, [])"
| "parse_whole acc (c # cs) =
     (if is_digit c then parse_whole (acc * 10 + real (digit_val c)) cs else (acc, c # cs))"

fun parse_frac :: "flt \<Rightarrow> flt \<Rightarrow> string \<Rightarrow> flt \<times> string" where
  "parse_frac acc scale [] = (acc, [])"
| "parse_frac acc scale (c # cs) =
     (if is_digit c then parse_frac (acc + real (digit_val c) * scale) (scale * (1 / 10)) cs else (acc, c # cs))"

definition parse_float :: "string \<Rightarrow> flt \<times> string" where
  "parse_float p =
     (case parse_whole 0 p of
        (out, rest) \<Rightarrow>
          if rest \<noteq> [] \<and> hd rest = CHR ''.'' then parse_frac out (1 / 10) (tl rest) else (out, rest))"

definition skip_comma :: "string \<Rightarrow> string" where
  "skip_comma p = tl (dropWhile (\<lambda>c. c \<noteq> CHR '','') p)"

definition skip_line :: "string \<Rightarrow> string" where
  "skip_line p = tl (dropWhile (\<lambda>c. c \<noteq> CHR 0x0A) p)"

definition is_header :: "string \<Rightarrow> bool" where
  "is_header p =
     (let q = dropWhile (\<lambda>c. c = CHR '' '' \<or> c = CHR 0x0D) p
      in q = [] \<or> hd q = CHR 0x0A \<or> (hd q \<noteq> CHR ''-'' \<and> \<not> is_digit (hd q)))"

record csv_fields =
  cf_ts :: u64
  cf_instr :: u32
  cf_bid_price :: flt
  cf_bid_qty :: flt
  cf_ask_price :: flt
  cf_ask_qty :: flt

definition parse_row :: "string \<Rightarrow> csv_fields \<times> string" where
  "parse_row p0 =
     (let (ts, p1) = parse_u64 0 p0;
          (instr, p2) = parse_u32 0 (skip_comma p1);
          (bp, p3) = parse_float (skip_comma p2);
          (bq, p4) = parse_float (skip_comma p3);
          (ap, p5) = parse_float (skip_comma p4);
          (aq, p6) = parse_float (skip_comma p5)
      in (\<lparr>cf_ts = ts, cf_instr = instr, cf_bid_price = bp, cf_bid_qty = bq, cf_ask_price = ap,
           cf_ask_qty = aq\<rparr>, skip_line p6))"

definition row_rejected :: "csv_fields \<Rightarrow> bool" where
  "row_rejected r \<longleftrightarrow> cf_bid_price r = 0 \<or> cf_ask_price r = 0 \<or> unat (cf_instr r) \<ge> k_max_instruments"

definition throttle_gap_ns :: "ReplayConfig \<Rightarrow> u64" where
  "throttle_gap_ns cfg =
     (if rp_mode cfg = Throttled then 1000000000 div ucast (max (rp_msgs_per_sec cfg) 1) else 0)"

definition replay_sleep :: "ReplayConfig \<Rightarrow> u64 \<Rightarrow> u64 \<Rightarrow> u64 list" where
  "replay_sleep cfg prev_ts ts =
     (if rp_mode cfg = Realtime \<and> prev_ts \<noteq> 0 \<and> ts > prev_ts then
        (let gap = ts - prev_ts;
             cap = ucast (rp_max_gap_ms cfg) * 1000000;
             sl = (if gap < cap then gap else cap)
         in if sl > 100000 then [sl] else [])
      else if rp_mode cfg = Throttled \<and> throttle_gap_ns cfg > 0 then [throttle_gap_ns cfg]
      else [])"

definition row_updates :: "csv_fields \<Rightarrow> LobUpdate list" where
  "row_updates r =
     [\<lparr>lu_timestamp_ns = cf_ts r, lu_price = cf_bid_price r, lu_quantity = cf_bid_qty r,
       lu_instrument_id = cf_instr r, lu_depth_level = 0, lu_side = Bid\<rparr>,
      \<lparr>lu_timestamp_ns = cf_ts r, lu_price = cf_ask_price r, lu_quantity = cf_ask_qty r,
       lu_instrument_id = cf_instr r, lu_depth_level = 0, lu_side = Ask\<rparr>]"

lemma parse_u64_shrinks: "length (snd (parse_u64 a p)) \<le> length p"
  by (induction p arbitrary: a) (auto simp: le_Suc_eq)

lemma parse_u32_shrinks: "length (snd (parse_u32 a p)) \<le> length p"
  by (induction p arbitrary: a) (auto simp: le_Suc_eq)

lemma parse_whole_shrinks: "length (snd (parse_whole a p)) \<le> length p"
  by (induction p arbitrary: a) (auto simp: le_Suc_eq)

lemma parse_frac_shrinks: "length (snd (parse_frac a f p)) \<le> length p"
  by (induction p arbitrary: a f) (auto simp: le_Suc_eq)

lemma parse_float_shrinks: "length (snd (parse_float p)) \<le> length p"
proof -
  obtain out rest where w: "parse_whole 0 p = (out, rest)" by fastforce
  have "length rest \<le> length p" using parse_whole_shrinks [of 0 p] w by simp
  moreover have "length (snd (parse_frac out (1 / 10) (tl rest))) \<le> length (tl rest)"
    by (rule parse_frac_shrinks)
  ultimately show ?thesis by (auto simp: parse_float_def w)
qed

lemma skip_shrinks:
  "length (skip_comma p) \<le> length p" "p \<noteq> [] \<Longrightarrow> length (skip_line p) < length p"
proof -
  have le: "length (dropWhile P p) \<le> length p" for P :: "char \<Rightarrow> bool" by (rule length_dropWhile_le)
  show "length (skip_comma p) \<le> length p" using le [of "\<lambda>c. c \<noteq> CHR '','' "] by (simp add: skip_comma_def)
  show "length (skip_line p) < length p" if "p \<noteq> []"
    using le [of "\<lambda>c. c \<noteq> CHR 0x0A"] that by (cases p) (auto simp: skip_line_def less_Suc_eq_le)
qed

lemma parse_row_shrinks: "p \<noteq> [] \<Longrightarrow> length (snd (parse_row p)) < length p"
proof -
  assume "p \<noteq> []"
  define p1 where "p1 = snd (parse_u64 0 p)"
  define p2 where "p2 = snd (parse_u32 0 (skip_comma p1))"
  define p3 where "p3 = snd (parse_float (skip_comma p2))"
  define p4 where "p4 = snd (parse_float (skip_comma p3))"
  define p5 where "p5 = snd (parse_float (skip_comma p4))"
  define p6 where "p6 = snd (parse_float (skip_comma p5))"
  have fl: "length (snd (parse_float (skip_comma q))) \<le> length q" for q
    by (rule order_trans [OF parse_float_shrinks skip_shrinks(1)])
  have "length p6 \<le> length p5" "length p5 \<le> length p4" "length p4 \<le> length p3" "length p3 \<le> length p2"
    unfolding p6_def p5_def p4_def p3_def by (rule fl)+
  moreover have "length p2 \<le> length p1"
    unfolding p2_def by (rule order_trans [OF parse_u32_shrinks skip_shrinks(1)])
  moreover have "length p1 \<le> length p" unfolding p1_def by (rule parse_u64_shrinks)
  ultimately have "length p6 \<le> length p" by linarith
  moreover have "snd (parse_row p) = skip_line p6"
    by (simp add: parse_row_def p1_def p2_def p3_def p4_def p5_def p6_def Let_def split_def)
  moreover have "length (skip_line []) = 0" by (simp add: skip_line_def)
  ultimately show ?thesis using skip_shrinks(2) [of p6] \<open>p \<noteq> []\<close> by (cases "p6 = []") auto
qed

function csv_loop ::
    "ReplayConfig \<Rightarrow> (nat \<Rightarrow> bool) \<Rightarrow> nat \<Rightarrow> u64 \<Rightarrow> string \<Rightarrow> ReplayMetrics \<Rightarrow> LobUpdate list \<times> ReplayMetrics" where
  "csv_loop cfg stop i prev_ts p m =
     (if p = [] \<or> stop i then ([], m)
      else if is_header p then csv_loop cfg stop (Suc i) prev_ts (skip_line p) m
      else
        (let row = fst (parse_row p); rest = snd (parse_row p) in
         if row_rejected row then
           csv_loop cfg stop (Suc i) prev_ts rest (m\<lparr>rp_parse_errors := rp_parse_errors m + 1\<rparr>)
         else
           (let m1 = m\<lparr>rp_rows_read := rp_rows_read m + 1,
                       rp_sleeps := rp_sleeps m @ replay_sleep cfg prev_ts (cf_ts row),
                       rp_updates_pushed := rp_updates_pushed m + 2\<rparr>;
                (more, m2) = csv_loop cfg stop (Suc i) (cf_ts row) rest m1
            in (row_updates row @ more, m2))))"
  by pat_completeness auto
termination
  by (relation "measure (\<lambda>(cfg, stop, i, prev_ts, p, m). length p)")
    (auto simp: skip_shrinks(2) parse_row_shrinks)

declare csv_loop.simps [simp del]

text \<open>The worker: a file that cannot be opened or mapped is \<open>None\<close>.\<close>

definition csv_run :: "ReplayConfig \<Rightarrow> (nat \<Rightarrow> bool) \<Rightarrow> string option \<Rightarrow> ReplayMetrics \<Rightarrow> LobUpdate list \<times> ReplayMetrics" where
  "csv_run cfg stop file m =
     (case file of
        None \<Rightarrow> ([], m\<lparr>rp_finished := True\<rparr>)
      | Some p \<Rightarrow> (case csv_loop cfg stop 0 0 p m of (us, m') \<Rightarrow> (us, m'\<lparr>rp_finished := True\<rparr>)))"

section \<open>Numbers\<close>

definition no_digit :: "string \<Rightarrow> bool" where
  "no_digit rest \<longleftrightarrow> rest = [] \<or> \<not> is_digit (hd rest)"

lemma parse_u64_digits:
  "\<forall>c \<in> set ds. is_digit c \<Longrightarrow> no_digit rest \<Longrightarrow>
     parse_u64 (word_of_nat a) (ds @ rest) =
       (word_of_nat (foldl (\<lambda>a c. a * 10 + digit_val c) a ds), rest)"
proof (induction ds arbitrary: a)
  case Nil
  then show ?case by (cases rest) (simp_all add: no_digit_def)
next
  case (Cons c ds)
  from Cons.IH [of "a * 10 + digit_val c"] Cons.prems show ?case by simp
qed

lemma parse_u32_digits:
  "\<forall>c \<in> set ds. is_digit c \<Longrightarrow> no_digit rest \<Longrightarrow>
     parse_u32 (word_of_nat a) (ds @ rest) =
       (word_of_nat (foldl (\<lambda>a c. a * 10 + digit_val c) a ds), rest)"
proof (induction ds arbitrary: a)
  case Nil
  then show ?case by (cases rest) (simp_all add: no_digit_def)
next
  case (Cons c ds)
  from Cons.IH [of "a * 10 + digit_val c"] Cons.prems show ?case by simp
qed

lemma parse_whole_digits:
  "\<forall>c \<in> set ds. is_digit c \<Longrightarrow> no_digit rest \<Longrightarrow>
     parse_whole (real a) (ds @ rest) = (real (foldl (\<lambda>a c. a * 10 + digit_val c) a ds), rest)"
proof (induction ds arbitrary: a)
  case Nil
  then show ?case by (cases rest) (simp_all add: no_digit_def)
next
  case (Cons c ds)
  from Cons.IH [of "a * 10 + digit_val c"] Cons.prems show ?case by simp
qed

lemma parse_frac_digits:
  "\<forall>c \<in> set ds. is_digit c \<Longrightarrow> no_digit rest \<Longrightarrow>
     parse_frac a k (ds @ rest) = (a + 10 * k * frac_val ds, rest)"
proof (induction ds arbitrary: a k)
  case Nil
  then show ?case by (cases rest) (simp_all add: no_digit_def)
next
  case (Cons c ds)
  from Cons.IH [of "a + real (digit_val c) * k" "k * (1 / 10)"] Cons.prems show ?case
    by (simp add: algebra_simps)
qed

lemma parse_u64_to_string:
  "no_digit rest \<Longrightarrow> parse_u64 0 (to_string n @ rest) = (word_of_nat n, rest)"
  using parse_u64_digits [OF to_string_digits, of rest 0 n] decimal_val_to_string [of n]
  by (simp add: decimal_val_def)

lemma parse_u32_to_string:
  "no_digit rest \<Longrightarrow> parse_u32 0 (to_string n @ rest) = (word_of_nat n, rest)"
  using parse_u32_digits [OF to_string_digits, of rest 0 n] decimal_val_to_string [of n]
  by (simp add: decimal_val_def)

text \<open>A decimal number in a file: whole part and digits after the point.\<close>

type_synonym decimal = "nat \<times> string"

definition dec_text :: "decimal \<Rightarrow> string" where
  "dec_text d = to_string (fst d) @ ''.'' @ snd d"

definition dec_value :: "decimal \<Rightarrow> flt" where
  "dec_value d = real (fst d) + frac_val (snd d)"

lemma no_digit_point: "\<not> is_digit (CHR ''.'')" "\<not> is_digit (CHR '','')" "\<not> is_digit (CHR 0x0A)"
  by (simp_all add: is_digit_def)

lemma parse_float_dec:
  assumes "\<forall>c \<in> set (snd d). is_digit c" and "no_digit rest"
  shows "parse_float (dec_text d @ rest) = (dec_value d, rest)"
proof -
  have "parse_whole 0 (to_string (fst d) @ (''.'' @ snd d @ rest)) = (real (fst d), ''.'' @ snd d @ rest)"
    using parse_whole_digits [OF to_string_digits, of "''.'' @ snd d @ rest" 0 "fst d"]
      decimal_val_to_string [of "fst d"] by (simp add: decimal_val_def no_digit_def no_digit_point)
  then show ?thesis
    using parse_frac_digits [OF assms, of "real (fst d)" "1 / 10"]
    by (simp add: parse_float_def dec_text_def dec_value_def)
qed

section \<open>Round trip\<close>

record csv_row =
  cr_ts :: nat
  cr_instr :: nat
  cr_bid_price :: decimal
  cr_bid_qty :: decimal
  cr_ask_price :: decimal
  cr_ask_qty :: decimal

definition row_text :: "csv_row \<Rightarrow> string" where
  "row_text r = to_string (cr_ts r) @ '','' @ to_string (cr_instr r) @ '','' @ dec_text (cr_bid_price r) @
     '','' @ dec_text (cr_bid_qty r) @ '','' @ dec_text (cr_ask_price r) @ '','' @ dec_text (cr_ask_qty r) @
     [CHR 0x0A]"

definition row_fields :: "csv_row \<Rightarrow> csv_fields" where
  "row_fields r = \<lparr>cf_ts = word_of_nat (cr_ts r), cf_instr = word_of_nat (cr_instr r),
     cf_bid_price = dec_value (cr_bid_price r), cf_bid_qty = dec_value (cr_bid_qty r),
     cf_ask_price = dec_value (cr_ask_price r), cf_ask_qty = dec_value (cr_ask_qty r)\<rparr>"

definition row_wf :: "csv_row \<Rightarrow> bool" where
  "row_wf r \<longleftrightarrow> cr_ts r < 2 ^ 64 \<and> cr_instr r < k_max_instruments \<and>
     (\<forall>d \<in> {cr_bid_price r, cr_bid_qty r, cr_ask_price r, cr_ask_qty r}. \<forall>c \<in> set (snd d). is_digit c) \<and>
     dec_value (cr_bid_price r) \<noteq> 0 \<and> dec_value (cr_ask_price r) \<noteq> 0"

lemma skip_at: "skip_comma (CHR '','' # p) = p" "skip_line (CHR 0x0A # p) = p"
  by (simp_all add: skip_comma_def skip_line_def)

lemma parse_row_text:
  assumes "row_wf r"
  shows "parse_row (row_text r @ rest) = (row_fields r, rest)"
proof -
  have nd: "no_digit (CHR '','' # p)" "no_digit (CHR 0x0A # p)" for p
    by (simp_all add: no_digit_def no_digit_point)
  have d: "parse_float (dec_text d @ (CHR '','' # p)) = (dec_value d, CHR '','' # p)"
    "parse_float (dec_text d @ (CHR 0x0A # p)) = (dec_value d, CHR 0x0A # p)"
    if "d \<in> {cr_bid_price r, cr_bid_qty r, cr_ask_price r, cr_ask_qty r}" for d p
    using parse_float_dec [OF _ nd(1)] parse_float_dec [OF _ nd(2)] assms that
    unfolding row_wf_def by blast+
  show ?thesis
    by (simp add: parse_row_def row_text_def row_fields_def parse_u64_to_string [OF nd(1)]
        parse_u32_to_string [OF nd(1)] d skip_at Let_def)
qed

lemma row_not_header: "\<not> is_header (row_text r @ rest)"
proof -
  obtain c cs where t: "to_string (cr_ts r) = c # cs" using to_string_nonempty [of "cr_ts r"]
    by (cases "to_string (cr_ts r)") auto
  have "is_digit c" using to_string_digits [of "cr_ts r"] t by simp
  moreover from this have "c \<noteq> CHR '' ''" "c \<noteq> CHR 0x0D" "c \<noteq> CHR 0x0A" by (auto simp: is_digit_def)
  ultimately show ?thesis by (simp add: is_header_def row_text_def t Let_def)
qed

lemma row_accepted: "row_wf r \<Longrightarrow> \<not> row_rejected (row_fields r)"
proof -
  assume "row_wf r"
  moreover from this have "unat (word_of_nat (cr_instr r) :: u32) = cr_instr r"
    by (simp add: row_wf_def k_max_instruments_def unsigned_of_nat take_bit_nat_eq_self)
  ultimately show ?thesis by (simp add: row_rejected_def row_fields_def row_wf_def)
qed

lemma csv_loop_rows:
  assumes "\<forall>r \<in> set rows. row_wf r"
    and "csv_loop cfg (\<lambda>_. False) i prev (concat (map row_text rows)) m = (us, m')"
  shows "us = concat (map (row_updates \<circ> row_fields) rows) \<and>
    rp_rows_read m' = rp_rows_read m + word_of_nat (length rows) \<and>
    rp_updates_pushed m' = rp_updates_pushed m + 2 * word_of_nat (length rows) \<and>
    rp_parse_errors m' = rp_parse_errors m \<and> rp_updates_dropped m' = rp_updates_dropped m"
  using assms
proof (induction rows arbitrary: i prev m us m')
  case Nil
  then show ?case by (simp add: csv_loop.simps)
next
  case (Cons r rows)
  let ?rest = "concat (map row_text rows)"
  let ?m = "m\<lparr>rp_rows_read := rp_rows_read m + 1,
      rp_sleeps := rp_sleeps m @ replay_sleep cfg prev (cf_ts (row_fields r)),
      rp_updates_pushed := rp_updates_pushed m + 2\<rparr>"
  have r: "row_wf r" using Cons.prems(1) by simp
  obtain more m2 where l: "csv_loop cfg (\<lambda>_. False) (Suc i) (cf_ts (row_fields r)) ?rest ?m = (more, m2)"
    by fastforce
  have ne: "row_text r \<noteq> []" by (simp add: row_text_def)
  have "us = row_updates (row_fields r) @ more" "m' = m2"
    using Cons.prems(2) l
    by (simp_all add: csv_loop.simps [of cfg _ i] ne row_not_header parse_row_text [OF r] row_accepted [OF r] Let_def)
  moreover note Cons.IH [OF _ l]
  ultimately show ?case using Cons.prems(1) by (simp add: algebra_simps)
qed

text \<open>
  (C34) Replay loses nothing: a file of well-formed rows is replayed, in any pacing mode, as exactly
  one bid and one ask update per row, in file order, with the values written in the row; every row
  is counted as read, two pushes per row, and no parse error or drop is counted.
\<close>

theorem csv_replay_complete:
  assumes "\<forall>r \<in> set rows. row_wf r"
    and "csv_loop cfg (\<lambda>_. False) i prev (concat (map row_text rows)) m = (us, m')"
  shows "us = concat (map (row_updates \<circ> row_fields) rows) \<and>
    rp_rows_read m' = rp_rows_read m + word_of_nat (length rows) \<and>
    rp_updates_pushed m' = rp_updates_pushed m + 2 * word_of_nat (length rows) \<and>
    rp_parse_errors m' = rp_parse_errors m \<and> rp_updates_dropped m' = rp_updates_dropped m"
  using assms by (rule csv_loop_rows)

theorem csv_replay_complete_witness:
  "\<exists>m'. csv_loop \<lparr>rp_mode = Realtime, rp_msgs_per_sec = 1, rp_max_gap_ms = 500\<rparr> (\<lambda>_. False) 0 0
       (row_text \<lparr>cr_ts = 17, cr_instr = 3, cr_bid_price = (99, ''5''), cr_bid_qty = (1, ''''),
          cr_ask_price = (100, ''25''), cr_ask_qty = (2, '''')\<rparr>)
       \<lparr>rp_rows_read = 0, rp_updates_pushed = 0, rp_updates_dropped = 0, rp_parse_errors = 0,
         rp_sleeps = [], rp_finished = False\<rparr>
     = ([\<lparr>lu_timestamp_ns = 17, lu_price = 199 / 2, lu_quantity = 1, lu_instrument_id = 3,
           lu_depth_level = 0, lu_side = Bid\<rparr>,
         \<lparr>lu_timestamp_ns = 17, lu_price = 401 / 4, lu_quantity = 2, lu_instrument_id = 3,
           lu_depth_level = 0, lu_side = Ask\<rparr>], m') \<and> rp_rows_read m' = 1"
proof -
  let ?r = "\<lparr>cr_ts = 17, cr_instr = 3, cr_bid_price = (99, ''5''), cr_bid_qty = (1, ''''),
          cr_ask_price = (100, ''25''), cr_ask_qty = (2, '''')\<rparr>"
  let ?cfg = "\<lparr>rp_mode = Realtime, rp_msgs_per_sec = 1, rp_max_gap_ms = 500\<rparr>"
  let ?m = "\<lparr>rp_rows_read = 0, rp_updates_pushed = 0, rp_updates_dropped = 0, rp_parse_errors = 0,
         rp_sleeps = [], rp_finished = False\<rparr>"
  obtain us m' where l: "csv_loop ?cfg (\<lambda>_. False) 0 0 (concat (map row_text [?r])) ?m = (us, m')"
    by fastforce
  have "\<forall>r \<in> set [?r]. row_wf r"
    by (simp add: row_wf_def k_max_instruments_def is_digit_def dec_value_def digit_val_def)
  from csv_replay_complete [OF this l] l show ?thesis
    by (simp add: row_updates_def row_fields_def dec_value_def digit_val_def)
qed

text \<open>
  A row with too few fields is not reported: the field separator search runs past the end of the
  line, so the row takes fields from the next line, which is then lost. Two rows, the first without
  its ask price and quantity, are read as one, with no parse error counted.
\<close>

theorem short_row_swallows_next:
  "csv_loop \<lparr>rp_mode = Fastest, rp_msgs_per_sec = 1, rp_max_gap_ms = 500\<rparr> (\<lambda>_. False) 0 0
     (''1,0,100,5'' @ [CHR 0x0A] @ ''2,1,200,6,201,7'' @ [CHR 0x0A])
     \<lparr>rp_rows_read = 0, rp_updates_pushed = 0, rp_updates_dropped = 0, rp_parse_errors = 0,
       rp_sleeps = [], rp_finished = False\<rparr>
   = ([\<lparr>lu_timestamp_ns = 1, lu_price = 100, lu_quantity = 5, lu_instrument_id = 0,
         lu_depth_level = 0, lu_side = Bid\<rparr>,
       \<lparr>lu_timestamp_ns = 1, lu_price = 1, lu_quantity = 200, lu_instrument_id = 0,
         lu_depth_level = 0, lu_side = Ask\<rparr>],
      \<lparr>rp_rows_read = 1, rp_updates_pushed = 2, rp_updates_dropped = 0, rp_parse_errors = 0,
       rp_sleeps = [], rp_finished = False\<rparr>)"
  by (simp add: csv_loop.simps is_header_def is_digit_def parse_row_def digit_val_def skip_comma_def
      skip_line_def parse_float_def row_rejected_def k_max_instruments_def row_updates_def
      replay_sleep_def Let_def)

end
