(* ===== verification/Binance_Gateway.thy ===== *)
theory Binance_Gateway
  imports Csv_Replay Oms_Core "HOL-Library.Sublist" "HOL-Library.List_Lexorder" "HOL-Library.Char_ord"
begin

text \<open>
  The order-entry gateway (\<open>net/binance_gateway.hpp\<close>): the request messages it builds and signs,
  the outgoing queue with its single outstanding write, the reconnect loop, and the reading of
  acknowledgements. The record \<open>gateway\<close> holds the members of \<open>BinanceGateway\<close>, the continuations
  posted to its executor and the position of the coroutine \<open>run\<close>; everything that touches it runs
  on one executor, so the steps are atomic.

  Arguments of the definitions: the signature function (\<open>HMAC\<close> of OpenSSL, which may fail) and the
  reading of a response by the JSON parser, which gives the fields \<open>id\<close> and \<open>status\<close> or nothing.
\<close>

section \<open>Formatting\<close>

record SymbolPrecision =
  sp_qty_decimals :: nat
  sp_price_decimals :: nat

definition symbol_precision_table :: "(string \<times> SymbolPrecision) list" where
  "symbol_precision_table =
     [(''BTCUSDT'', \<lparr>sp_qty_decimals = 3, sp_price_decimals = 1\<rparr>),
      (''ETHUSDT'', \<lparr>sp_qty_decimals = 3, sp_price_decimals = 2\<rparr>),
      (''BNBUSDT'', \<lparr>sp_qty_decimals = 2, sp_price_decimals = 2\<rparr>),
      (''SOLUSDT'', \<lparr>sp_qty_decimals = 0, sp_price_decimals = 3\<rparr>)]"

definition precision_for :: "string \<Rightarrow> SymbolPrecision" where
  "precision_for symbol =
     (case map_of symbol_precision_table symbol of
        Some p \<Rightarrow> p
      | None \<Rightarrow> \<lparr>sp_qty_decimals = 2, sp_price_decimals = 2\<rparr>)"

text \<open>
  \<open>snprintf\<close> with \<open>%.<d>f\<close>: the nearest decimal with \<open>d\<close> places, a tie going to the even last digit,
  cut to the 47 characters the buffer holds.
\<close>

definition nearest_even :: "dbl \<Rightarrow> int" where
  "nearest_even x =
     (let f = \<lfloor>x\<rfloor>; r = x - of_int f
      in if r < 1 / 2 \<or> (r = 1 / 2 \<and> even f) then f else f + 1)"

definition pad_left :: "nat \<Rightarrow> string \<Rightarrow> string" where
  "pad_left d t = replicate (d - length t) (CHR ''0'') @ t"

definition fixed_text :: "nat \<Rightarrow> nat \<Rightarrow> string" where
  "fixed_text decimals n =
     to_string (n div 10 ^ decimals) @
     (if decimals = 0 then [] else ''.'' @ pad_left decimals (to_string (n mod 10 ^ decimals)))"

definition format_decimal :: "dbl \<Rightarrow> nat \<Rightarrow> string" where
  "format_decimal v decimals =
     take 47 ((if v < 0 then ''-'' else []) @
       fixed_text decimals (nat (nearest_even (\<bar>v\<bar> * 10 ^ decimals))))"

section \<open>State\<close>

text \<open>
  \<open>gw_pending\<close> is the unordered map from message ids to client order ids. \<open>gw_posted\<close> are the
  continuations posted by \<open>send_msg\<close> that have not run yet. \<open>gw_phase\<close> is where \<open>run_with_backoff\<close>
  stands: waiting for its timer, inside the connection set-up of \<open>run\<close>, or in its read loop.
  \<open>gw_outstanding\<close> counts the \<open>async_write\<close> calls whose handler has not run, and \<open>gw_written\<close>
  lists the messages whose write was reported successful.
\<close>

datatype gateway_phase = Waiting | Connecting | Reading

record gateway =
  gw_api_key :: string
  gw_api_secret :: string
  gw_ws :: bool
  gw_queue :: "string list"
  gw_connected :: bool
  gw_writing :: bool
  gw_msg_id :: u64
  gw_pending :: "(u64 \<times> string) list"
  gw_backoff :: nat
  gw_phase :: gateway_phase
  gw_posted :: "string list"
  gw_outstanding :: nat
  gw_written :: "string list"

definition kMaxBackoff :: nat where "kMaxBackoff = 10000"

definition BinanceGateway :: "string \<Rightarrow> string \<Rightarrow> gateway" where
  "BinanceGateway api_key api_secret =
     \<lparr>gw_api_key = api_key, gw_api_secret = api_secret, gw_ws = False, gw_queue = [],
      gw_connected = False, gw_writing = False, gw_msg_id = 0, gw_pending = [],
      gw_backoff = 200, gw_phase = Waiting, gw_posted = [], gw_outstanding = 0, gw_written = []\<rparr>"

section \<open>Requests\<close>

definition next_msg_id :: "gateway \<Rightarrow> u64 \<times> gateway" where
  "next_msg_id g = (gw_msg_id g + 1, g\<lparr>gw_msg_id := gw_msg_id g + 1\<rparr>)"

definition track_pending :: "u64 \<Rightarrow> string \<Rightarrow> gateway \<Rightarrow> gateway" where
  "track_pending mid cid g =
     (if map_of (gw_pending g) mid = None then g\<lparr>gw_pending := (mid, cid) # gw_pending g\<rparr> else g)"

definition send_msg :: "string \<Rightarrow> gateway \<Rightarrow> gateway" where
  "send_msg msg g = g\<lparr>gw_posted := gw_posted g @ [msg]\<rparr>"

type_synonym signer = "string \<Rightarrow> string \<Rightarrow> string option"

definition order_payload ::
    "string \<Rightarrow> nat \<Rightarrow> string \<Rightarrow> string \<Rightarrow> string \<Rightarrow> string \<Rightarrow> dbl \<Rightarrow> dbl \<Rightarrow> string \<Rightarrow> string" where
  "order_payload api_key ts cid symbol side otype qty price tif =
     (let prec = precision_for symbol;
          q_str = format_decimal qty (sp_qty_decimals prec);
          payload = ''apiKey='' @ api_key @ ''&newClientOrderId='' @ cid;
          payload = payload @ (if price > 0 then ''&price='' @ format_decimal price (sp_price_decimals prec) else []);
          payload = payload @ ''&quantity='' @ q_str @ ''&side='' @ side @ ''&symbol='' @ symbol;
          payload = payload @ (if tif \<noteq> [] then ''&timeInForce='' @ tif else [])
      in payload @ ''&timestamp='' @ to_string ts @ ''&type='' @ otype)"

definition build_order_msg ::
    "signer \<Rightarrow> nat \<Rightarrow> gateway \<Rightarrow> u64 \<Rightarrow> string \<Rightarrow> string \<Rightarrow> string \<Rightarrow> string \<Rightarrow> dbl \<Rightarrow> dbl \<Rightarrow> string
     \<Rightarrow> string option" where
  "build_order_msg hmac ts g mid cid symbol side otype qty price tif =
     (let prec = precision_for symbol;
          q_str = format_decimal qty (sp_qty_decimals prec);
          p_str = (if price > 0 then format_decimal price (sp_price_decimals prec) else [])
      in case hmac (gw_api_secret g) (order_payload (gw_api_key g) ts cid symbol side otype qty price tif) of
           None \<Rightarrow> None
         | Some sig \<Rightarrow>
             let json = ''{\"id\":\"'' @ to_string (unat mid) @ ''\",\"method\":\"order.place\",\"params\":{'';
                 json = json @ ''\"apiKey\":\"'' @ gw_api_key g @ ''\",\"newClientOrderId\":\"'' @ cid @ ''\",'';
                 json = json @ (if price > 0 then ''\"price\":\"'' @ p_str @ ''\",'' else []);
                 json = json @ ''\"quantity\":\"'' @ q_str @ ''\",\"side\":\"'' @ side @ ''\",\"symbol\":\"'' @ symbol @ ''\",'';
                 json = json @ (if tif \<noteq> [] then ''\"timeInForce\":\"'' @ tif @ ''\",'' else [])
             in Some (json @ ''\"timestamp\":'' @ to_string ts @ '',\"type\":\"'' @ otype @ ''\",\"signature\":\"'' @ sig @ ''\"}}''))"

definition side_text :: "Side \<Rightarrow> string" where
  "side_text side = (if side = Buy then ''BUY'' else ''SELL'')"

text \<open>A send returns whether the call ended without an exception, and the gateway it leaves.\<close>

definition send_order ::
    "signer \<Rightarrow> nat \<Rightarrow> string \<Rightarrow> string \<Rightarrow> Side \<Rightarrow> string \<Rightarrow> dbl \<Rightarrow> dbl \<Rightarrow> string \<Rightarrow> gateway \<Rightarrow> bool \<times> gateway" where
  "send_order hmac ts cid symbol side otype qty price tif g =
     (case next_msg_id g of (mid, g1) \<Rightarrow>
        let g2 = track_pending mid cid g1
        in case build_order_msg hmac ts g2 mid cid symbol (side_text side) otype qty price tif of
             None \<Rightarrow> (False, g2)
           | Some msg \<Rightarrow> (True, send_msg msg g2))"

definition send_limit_post_only ::
    "signer \<Rightarrow> nat \<Rightarrow> string \<Rightarrow> string \<Rightarrow> Side \<Rightarrow> dbl \<Rightarrow> dbl \<Rightarrow> gateway \<Rightarrow> bool \<times> gateway" where
  "send_limit_post_only hmac ts cid symbol side price qty g =
     send_order hmac ts cid symbol side ''LIMIT'' qty price ''GTX'' g"

definition send_market ::
    "signer \<Rightarrow> nat \<Rightarrow> string \<Rightarrow> string \<Rightarrow> Side \<Rightarrow> dbl \<Rightarrow> gateway \<Rightarrow> bool \<times> gateway" where
  "send_market hmac ts cid symbol side qty g = send_order hmac ts cid symbol side ''MARKET'' qty 0 [] g"

definition cancel_order :: "signer \<Rightarrow> nat \<Rightarrow> string \<Rightarrow> string \<Rightarrow> gateway \<Rightarrow> bool \<times> gateway" where
  "cancel_order hmac ts symbol cid g =
     (case next_msg_id g of (mid, g1) \<Rightarrow>
        let payload = ''apiKey='' @ gw_api_key g1 @ ''&origClientOrderId='' @ cid @ ''&symbol='' @ symbol @
              ''&timestamp='' @ to_string ts
        in case hmac (gw_api_secret g1) payload of
             None \<Rightarrow> (False, g1)
           | Some sig \<Rightarrow>
               let json = ''{\"id\":\"'' @ to_string (unat mid) @ ''\",\"method\":\"order.cancel\",\"params\":{'';
                   json = json @ ''\"apiKey\":\"'' @ gw_api_key g1 @ ''\",\"origClientOrderId\":\"'' @ cid @
                     ''\",\"symbol\":\"'' @ symbol @ ''\",\"timestamp\":'' @ to_string ts @ '',\"signature\":\"'' @ sig @ ''\"}}''
               in (True, send_msg json g1))"

section \<open>Writing and reconnecting\<close>

definition do_write :: "gateway \<Rightarrow> gateway" where
  "do_write g =
     (if gw_queue g = [] \<or> \<not> gw_connected g \<or> \<not> gw_ws g then g\<lparr>gw_writing := False\<rparr>
      else g\<lparr>gw_writing := True, gw_outstanding := Suc (gw_outstanding g)\<rparr>)"

text \<open>The completion handler of a write, with its error flag.\<close>

definition write_done :: "bool \<Rightarrow> gateway \<Rightarrow> gateway" where
  "write_done ok g =
     (let g1 = g\<lparr>gw_outstanding := gw_outstanding g - 1\<rparr>
      in if ok then do_write (g1\<lparr>gw_written := gw_written g1 @ [hd (gw_queue g1)],
                                 gw_queue := tl (gw_queue g1)\<rparr>)
         else g1\<lparr>gw_writing := False, gw_connected := False\<rparr>)"

text \<open>A posted continuation of \<open>send_msg\<close>.\<close>

definition run_posted :: "string \<Rightarrow> gateway \<Rightarrow> gateway" where
  "run_posted m g =
     (let g1 = g\<lparr>gw_queue := gw_queue g @ [m]\<rparr>
      in if gw_connected g1 \<and> \<not> gw_writing g1 then do_write g1 else g1)"

text \<open>\<open>run\<close>: the stream is rebuilt; once all handshakes are done the queue is restarted.\<close>

definition run_begin :: "gateway \<Rightarrow> gateway" where
  "run_begin g = g\<lparr>gw_ws := True, gw_phase := Connecting\<rparr>"

definition run_connected :: "gateway \<Rightarrow> gateway" where
  "run_connected g =
     (let g1 = g\<lparr>gw_connected := True, gw_phase := Reading\<rparr>
      in if gw_queue g1 \<noteq> [] then do_write g1 else g1)"

text \<open>
  \<open>run_with_backoff\<close> after \<open>run\<close> has ended with an exception: the delay of the timer it now waits
  for, and the state with the next delay.
\<close>

definition run_failed :: "gateway \<Rightarrow> nat \<times> gateway" where
  "run_failed g =
     (gw_backoff g,
      g\<lparr>gw_connected := False, gw_pending := [], gw_backoff := min (gw_backoff g * 2) kMaxBackoff,
        gw_phase := Waiting\<rparr>)"

section \<open>Acknowledgements\<close>

text \<open>\<open>std::from_chars\<close> into an unsigned 64-bit number.\<close>

definition from_chars :: "string \<Rightarrow> u64 option" where
  "from_chars t =
     (let ds = takeWhile is_digit t
      in if ds = [] \<or> 2 ^ 64 \<le> decimal_val ds then None else Some (word_of_nat (decimal_val ds)))"

type_synonym ack_reader = "string \<Rightarrow> (string \<times> int) option"

definition handle_ack ::
    "ack_reader \<Rightarrow> i64 \<Rightarrow> string \<Rightarrow> gateway \<Rightarrow> oms \<Rightarrow> gateway \<times> OrderRecord list \<times> oms" where
  "handle_ack read now json g s =
     (case read json of
        None \<Rightarrow> (g, [], s)
      | Some (id_str, status) \<Rightarrow>
          (case from_chars id_str of
             None \<Rightarrow> (g, [], s)
           | Some mid \<Rightarrow>
               (case map_of (gw_pending g) mid of
                  None \<Rightarrow> (g, [], s)
                | Some cid \<Rightarrow>
                    let g' = g\<lparr>gw_pending := AList.delete mid (gw_pending g)\<rparr>
                    in if status \<noteq> 200
                       then (case apply_update (fnv1a64 cid) Rejected 0 0 0 now 0 s of
                               (found, fired, s') \<Rightarrow> (g', fired, s'))
                       else (g', [], s))))"

section \<open>The gateway at work\<close>

text \<open>
  One step of the executor or of a caller. A write completes, in either way, while one is
  outstanding; the set-up of a new connection ends only after the handler of a write on the old
  stream has run, since rebuilding the stream aborts it and its handler is queued on the executor
  before the first network operation of the new connection.
\<close>

inductive gw_step :: "signer \<Rightarrow> ack_reader \<Rightarrow> gateway \<times> oms \<Rightarrow> gateway \<times> oms \<Rightarrow> bool"
  for hmac :: signer and read :: ack_reader where
  step_limit: "send_limit_post_only hmac ts cid symbol side price qty g = (ok, g')
     \<Longrightarrow> gw_step hmac read (g, s) (g', s)"
| step_market: "send_market hmac ts cid symbol side qty g = (ok, g')
     \<Longrightarrow> gw_step hmac read (g, s) (g', s)"
| step_cancel: "cancel_order hmac ts symbol cid g = (ok, g') \<Longrightarrow> gw_step hmac read (g, s) (g', s)"
| step_posted: "gw_posted g = m # ms
     \<Longrightarrow> gw_step hmac read (g, s) (run_posted m (g\<lparr>gw_posted := ms\<rparr>), s)"
| step_written: "0 < gw_outstanding g \<Longrightarrow> gw_step hmac read (g, s) (write_done ok g, s)"
| step_begin: "gw_phase g = Waiting \<Longrightarrow> gw_step hmac read (g, s) (run_begin g, s)"
| step_connected: "gw_phase g = Connecting \<Longrightarrow> gw_outstanding g = 0
     \<Longrightarrow> gw_step hmac read (g, s) (run_connected g, s)"
| step_failed: "gw_phase g \<noteq> Waiting \<Longrightarrow> gw_step hmac read (g, s) (snd (run_failed g), s)"
| step_ack: "gw_phase g = Reading \<Longrightarrow> handle_ack read now json g s = (g', fired, s')
     \<Longrightarrow> gw_step hmac read (g, s) (g', s')"

text \<open>
  The invariant: exactly the writing flag says that a write is outstanding, there is then a message
  in front of the queue, and a connected gateway with queued messages is writing.
\<close>

definition gw_ok :: "gateway \<Rightarrow> bool" where
  "gw_ok g \<longleftrightarrow> gw_outstanding g = (if gw_writing g then 1 else 0) \<and>
     (gw_writing g \<longrightarrow> gw_queue g \<noteq> []) \<and>
     (gw_connected g \<longrightarrow> gw_ws g \<and> gw_phase g = Reading) \<and>
     (gw_phase g \<noteq> Waiting \<longrightarrow> gw_ws g) \<and>
     (gw_connected g \<and> gw_queue g \<noteq> [] \<longrightarrow> gw_writing g)"

text \<open>All messages handed to the gateway so far, in the order of the calls.\<close>

definition gw_log :: "gateway \<Rightarrow> string list" where
  "gw_log g = gw_written g @ gw_queue g @ gw_posted g"

lemma BinanceGateway_ok: "gw_ok (BinanceGateway k v)"
  by (simp add: gw_ok_def BinanceGateway_def)

lemma gateway_frame [simp]:
  "gw_ok (g\<lparr>gw_pending := p\<rparr>) = gw_ok g" "gw_log (g\<lparr>gw_pending := p\<rparr>) = gw_log g"
  "gw_ok (g\<lparr>gw_msg_id := n\<rparr>) = gw_ok g" "gw_log (g\<lparr>gw_msg_id := n\<rparr>) = gw_log g"
  "gw_ok (send_msg m g) = gw_ok g" "gw_log (send_msg m g) = gw_log g @ [m]"
  by (simp_all add: gw_ok_def gw_log_def send_msg_def)

lemma track_pending_frame [simp]:
  "gw_ok (track_pending mid cid g) = gw_ok g" "gw_log (track_pending mid cid g) = gw_log g"
  by (simp_all add: track_pending_def)

lemma send_order_frame:
  "gw_ok (snd (send_order hmac ts cid symbol side otype qty price tif g)) = gw_ok g \<and>
   prefix (gw_log g) (gw_log (snd (send_order hmac ts cid symbol side otype qty price tif g)))"
  by (simp add: send_order_def next_msg_id_def Let_def split: option.split)

lemma cancel_frame:
  "gw_ok (snd (cancel_order hmac ts symbol cid g)) = gw_ok g \<and>
   prefix (gw_log g) (gw_log (snd (cancel_order hmac ts symbol cid g)))"
  by (simp add: cancel_order_def next_msg_id_def Let_def split: option.split)

lemma handle_ack_frame:
  "gw_ok (fst (handle_ack read now json g s)) = gw_ok g"
  "gw_log (fst (handle_ack read now json g s)) = gw_log g"
  by (simp_all add: handle_ack_def Let_def split: option.split prod.split)

lemma run_posted_ok: "gw_ok g \<Longrightarrow> gw_ok (run_posted m (g\<lparr>gw_posted := ms\<rparr>))"
  by (auto simp: run_posted_def do_write_def gw_ok_def Let_def split: if_splits)

lemma run_posted_log: "gw_posted g = m # ms \<Longrightarrow> gw_log (run_posted m (g\<lparr>gw_posted := ms\<rparr>)) = gw_log g"
  by (simp add: run_posted_def do_write_def gw_log_def Let_def)

lemma write_done_ok: "gw_ok g \<Longrightarrow> 0 < gw_outstanding g \<Longrightarrow> gw_ok (write_done ok g)"
  by (auto simp: write_done_def do_write_def gw_ok_def Let_def split: if_splits)

lemma write_done_log: "gw_ok g \<Longrightarrow> 0 < gw_outstanding g \<Longrightarrow> gw_log (write_done ok g) = gw_log g"
  by (cases "gw_queue g") (simp_all add: write_done_def do_write_def gw_ok_def gw_log_def Let_def)

lemma run_ok:
  "gw_ok g \<Longrightarrow> gw_phase g = Waiting \<Longrightarrow> gw_ok (run_begin g)"
  "gw_ok g \<Longrightarrow> gw_phase g = Connecting \<Longrightarrow> gw_outstanding g = 0 \<Longrightarrow> gw_ok (run_connected g)"
  "gw_ok g \<Longrightarrow> gw_ok (snd (run_failed g))"
  by (auto simp: run_begin_def run_connected_def run_failed_def do_write_def gw_ok_def Let_def
      split: if_splits)

lemma run_log:
  "gw_log (run_begin g) = gw_log g" "gw_log (run_connected g) = gw_log g"
  "gw_log (snd (run_failed g)) = gw_log g"
  by (simp_all add: run_begin_def run_connected_def run_failed_def do_write_def gw_log_def Let_def)

lemma gw_step_ok:
  "gw_step hmac read x y \<Longrightarrow> gw_ok (fst x) \<Longrightarrow> gw_ok (fst y) \<and> prefix (gw_log (fst x)) (gw_log (fst y))"
proof (induction rule: gw_step.induct)
  case (step_limit ts cid symbol side price qty g ok g' s)
  then show ?case using send_order_frame [of hmac ts cid symbol side "''LIMIT''" qty price "''GTX''" g]
    by (simp add: send_limit_post_only_def)
next
  case (step_market ts cid symbol side qty g ok g' s)
  then show ?case using send_order_frame [of hmac ts cid symbol side "''MARKET''" qty 0 "[]" g]
    by (simp add: send_market_def)
next
  case (step_cancel ts symbol cid g ok g' s)
  then show ?case using cancel_frame [of hmac ts symbol cid g] by simp
next
  case (step_ack g now json s g' fired s')
  then show ?case using handle_ack_frame [of read now json g s] by simp
qed (simp_all add: run_posted_ok run_posted_log write_done_ok write_done_log run_ok run_log)

text \<open>
  (C12) The outgoing queue is reliable: over any number of requests, write completions, failures,
  reconnects and acknowledgements, in any order, there is never more than one write outstanding,
  a connected gateway with queued messages is always writing, and the messages written, queued and
  posted are at every later time an extension of what they were: none is lost, altered or
  overtaken by another.
\<close>

theorem gateway_queue_reliable:
  assumes "(gw_step hmac read)\<^sup>*\<^sup>* (g, s) (g', s')" and "gw_ok g"
  shows "gw_ok g' \<and> prefix (gw_log g) (gw_log g') \<and> gw_outstanding g' \<le> 1 \<and>
     (gw_connected g' \<and> gw_queue g' \<noteq> [] \<longrightarrow> gw_outstanding g' = 1)"
proof -
  have "gw_ok (fst y) \<and> prefix (gw_log g) (gw_log (fst y))"
    if "(gw_step hmac read)\<^sup>*\<^sup>* (g, s) y" for y
    using that
  proof (induction rule: rtranclp_induct)
    case (step y z)
    then have "gw_ok (fst z) \<and> prefix (gw_log (fst y)) (gw_log (fst z))"
      using gw_step_ok by blast
    with step.IH show ?case using prefix_order.trans by blast
  qed (simp add: assms(2))
  from this [OF assms(1)] show ?thesis by (auto simp: gw_ok_def)
qed

theorem gateway_queue_reliable_witness:
  "\<exists>g'. (gw_step (\<lambda>_ _. Some ''ab'') (\<lambda>_. None))\<^sup>*\<^sup>* (BinanceGateway ''k'' ''v'', OMSCore) (g', OMSCore) \<and>
     length (gw_log g') = 1 \<and> gw_connected g' \<and> gw_outstanding g' = 1"
proof -
  let ?step = "gw_step (\<lambda>_ _. Some ''ab'') (\<lambda>_. None)"
  let ?g = "BinanceGateway ''k'' ''v''"
  obtain ok g1 where c: "cancel_order (\<lambda>_ _. Some ''ab'') 7 ''BTCUSDT'' ''h1'' ?g = (ok, g1)" by fastforce
  then obtain m where g1: "gw_posted g1 = [m]" "gw_queue g1 = []" "gw_phase g1 = Waiting" "gw_written g1 = []"
      "gw_outstanding g1 = 0" "\<not> gw_connected g1"
    by (auto simp: cancel_order_def next_msg_id_def send_msg_def BinanceGateway_def Let_def)
  let ?g2 = "run_posted m (g1\<lparr>gw_posted := []\<rparr>)"
  have g2: "gw_phase ?g2 = Waiting" "gw_queue ?g2 = [m]" "gw_outstanding ?g2 = 0" "gw_log ?g2 = [m]"
    using g1 by (simp_all add: run_posted_def do_write_def gw_log_def Let_def)
  let ?g4 = "run_connected (run_begin ?g2)"
  have s1: "?step (?g, OMSCore) (g1, OMSCore)" using c by (rule step_cancel)
  have s2: "?step (g1, OMSCore) (?g2, OMSCore)" using g1(1) by (rule step_posted)
  have s3: "?step (?g2, OMSCore) (run_begin ?g2, OMSCore)" using g2(1) by (rule step_begin)
  have s4: "?step (run_begin ?g2, OMSCore) (?g4, OMSCore)"
    by (rule step_connected) (simp_all add: run_begin_def g2)
  have r: "?step\<^sup>*\<^sup>* (?g, OMSCore) (?g4, OMSCore)"
    using rtranclp_path [of ?step "(?g, OMSCore)" "[(g1, OMSCore), (?g2, OMSCore), (run_begin ?g2, OMSCore),
        (?g4, OMSCore)]"] s1 s2 s3 s4 by simp
  have "gw_log ?g4 = [m]" "gw_connected ?g4" "gw_queue ?g4 \<noteq> []"
    using g2 by (simp_all add: run_connected_def run_begin_def do_write_def gw_log_def Let_def)
  with r gateway_queue_reliable [OF r BinanceGateway_ok] show ?thesis by auto
qed

section \<open>Progress after a reconnect\<close>

lemma drain:
  "gw_ok g \<Longrightarrow> gw_connected g \<Longrightarrow> gw_queue g = q \<Longrightarrow>
     gw_queue ((write_done True ^^ length q) g) = [] \<and>
     gw_written ((write_done True ^^ length q) g) = gw_written g @ q \<and>
     gw_writing ((write_done True ^^ length q) g) = False"
proof (induction q arbitrary: g)
  case Nil
  then show ?case by (simp add: gw_ok_def)
next
  case (Cons m q)
  let ?h = "write_done True g"
  have out: "0 < gw_outstanding g" using Cons.prems by (simp add: gw_ok_def)
  have "gw_connected ?h" "gw_queue ?h = q" "gw_written ?h = gw_written g @ [m]"
    using Cons.prems by (simp_all add: write_done_def do_write_def Let_def)
  with Cons.IH [OF write_done_ok [OF Cons.prems(1) out]] show ?case
    by (simp add: funpow_swap1)
qed

text \<open>
  A reconnect delivers what is queued: when the set-up of a connection ends and the following
  writes succeed, as many completions as there are queued messages write all of them, in order, and
  leave the gateway idle.
\<close>

theorem reconnect_delivers:
  assumes "gw_ok g" and "gw_phase g = Connecting" and "gw_outstanding g = 0"
  shows "let g' = (write_done True ^^ length (gw_queue g)) (run_connected g)
         in gw_queue g' = [] \<and> gw_written g' = gw_written g @ gw_queue g \<and> \<not> gw_writing g'"
proof -
  have "gw_ok (run_connected g)" using assms by (rule run_ok)
  moreover have "gw_connected (run_connected g)" "gw_queue (run_connected g) = gw_queue g"
    "gw_written (run_connected g) = gw_written g"
    by (simp_all add: run_connected_def do_write_def Let_def)
  ultimately show ?thesis using drain by (simp add: Let_def)
qed

theorem reconnect_delivers_witness:
  "let g = (run_begin (BinanceGateway ''k'' ''v''))\<lparr>gw_queue := [''a'', ''b'']\<rparr>;
       g' = (write_done True ^^ 2) (run_connected g)
   in gw_queue g' = [] \<and> gw_written g' = [''a'', ''b''] \<and> \<not> gw_writing g'"
  using reconnect_delivers [of "(run_begin (BinanceGateway ''k'' ''v''))\<lparr>gw_queue := [''a'', ''b'']\<rparr>"]
  by (simp add: gw_ok_def run_begin_def BinanceGateway_def Let_def numeral_2_eq_2)

section \<open>Acknowledged requests\<close>

lemma takeWhile_all: "\<forall>c \<in> set t. P c \<Longrightarrow> takeWhile P t = t"
  by (simp add: takeWhile_eq_all_conv)

lemma from_chars_to_string: "from_chars (to_string (unat mid)) = Some (mid :: u64)"
  using unat_lt_64 [of mid]
  by (simp add: from_chars_def Let_def takeWhile_all to_string_digits to_string_nonempty)

lemma send_order_tracks:
  assumes "send_order hmac ts cid symbol side otype qty price tif g = (True, g')"
    and "\<forall>(i, c) \<in> set (gw_pending g). unat i \<le> unat (gw_msg_id g)"
    and "unat (gw_msg_id g) + 1 < 2 ^ 64"
  shows "gw_pending g' = (gw_msg_id g + 1, cid) # gw_pending g \<and>
    map_of (gw_pending g) (gw_msg_id g + 1) = None"
proof -
  have u: "unat (gw_msg_id g + 1) = unat (gw_msg_id g) + 1"
    using unat_add_no_wrap [of "gw_msg_id g" 1] assms(3) by simp
  have "map_of (gw_pending g) (gw_msg_id g + 1) = None"
  proof (rule ccontr)
    assume "map_of (gw_pending g) (gw_msg_id g + 1) \<noteq> None"
    then obtain c where "(gw_msg_id g + 1, c) \<in> set (gw_pending g)" by (auto dest: map_of_SomeD)
    with assms(2) have "unat (gw_msg_id g + 1) \<le> unat (gw_msg_id g)" by blast
    with u show False by simp
  qed
  with assms(1) show ?thesis
    by (auto simp: send_order_def next_msg_id_def track_pending_def send_msg_def Let_def split: option.splits)
qed

text \<open>
  What a request can meet while it is awaited: any activity of the gateway, of other requests and of the
  executor, with the responses to other requests, but no end of the connection (only \<open>run_failed\<close> leads
  back to \<open>Waiting\<close>) and no response with its own id.
\<close>

definition other_answers :: "ack_reader \<Rightarrow> u64 \<Rightarrow> ack_reader" where
  "other_answers read mid json =
     (case read json of
        None \<Rightarrow> None
      | Some (id_str, status) \<Rightarrow> if from_chars id_str = Some mid then None else Some (id_str, status))"

definition awaiting_step :: "signer \<Rightarrow> ack_reader \<Rightarrow> u64 \<Rightarrow> gateway \<times> oms \<Rightarrow> gateway \<times> oms \<Rightarrow> bool" where
  "awaiting_step hmac read mid x y \<longleftrightarrow> gw_step hmac (other_answers read mid) x y \<and>
     (gw_phase (fst y) = Waiting \<longrightarrow> gw_phase (fst x) = Waiting)"

lemma pending_frame [simp]:
  "gw_pending (do_write g) = gw_pending g" "gw_pending (write_done ok g) = gw_pending g"
  "gw_pending (run_posted m g) = gw_pending g" "gw_pending (run_begin g) = gw_pending g"
  "gw_pending (run_connected g) = gw_pending g" "gw_pending (snd (cancel_order hmac ts symbol cid g)) = gw_pending g"
  by (simp_all add: do_write_def write_done_def run_posted_def run_begin_def run_connected_def cancel_order_def
      next_msg_id_def send_msg_def Let_def split: option.split)

lemma send_order_keeps:
  "map_of (gw_pending g) mid = Some c \<Longrightarrow>
   map_of (gw_pending (snd (send_order hmac ts cid symbol side otype qty price tif g))) mid = Some c"
  by (auto simp: send_order_def next_msg_id_def track_pending_def send_msg_def Let_def split: option.split)

lemma other_answer_keeps:
  "map_of (gw_pending g) mid = Some c \<Longrightarrow> handle_ack (other_answers read mid) now json g s = (g', fired, s') \<Longrightarrow>
   map_of (gw_pending g') mid = Some c"
  by (auto simp: handle_ack_def other_answers_def Let_def delete_conv' split: option.splits if_splits prod.splits)

lemma awaiting_keeps:
  assumes "awaiting_step hmac read mid x y" and "map_of (gw_pending (fst x)) mid = Some c"
  shows "map_of (gw_pending (fst y)) mid = Some c"
proof -
  have "gw_step hmac (other_answers read mid) x y" "gw_phase (fst y) = Waiting \<longrightarrow> gw_phase (fst x) = Waiting"
    using assms(1) by (simp_all add: awaiting_step_def)
  then show ?thesis using assms(2)
  proof (induction rule: gw_step.induct)
    case (step_limit ts cid symbol side price qty g ok g' s)
    then show ?case using send_order_keeps [of g mid c] unfolding send_limit_post_only_def fst_conv by (metis snd_conv)
  next
    case (step_market ts cid symbol side qty g ok g' s)
    then show ?case using send_order_keeps [of g mid c] unfolding send_market_def fst_conv by (metis snd_conv)
  next
    case (step_cancel ts symbol cid g ok g' s)
    then have "gw_pending g' = gw_pending g" using pending_frame(6) [of hmac ts symbol cid g] by simp
    then show ?case using step_cancel.prems by simp
  next
    case (step_failed g s)
    then show ?case by (simp add: run_failed_def)
  next
    case (step_ack g now json s g' fired s')
    then show ?case using other_answer_keeps [of g mid c read now json s g' fired s'] by simp
  qed simp_all
qed

lemma awaited_run:
  "(awaiting_step hmac read mid)\<^sup>*\<^sup>* x y \<Longrightarrow> map_of (gw_pending (fst x)) mid = Some c \<Longrightarrow>
   map_of (gw_pending (fst y)) mid = Some c"
  by (induction rule: rtranclp_induct) (auto dest: awaiting_keeps)

text \<open>
  (C29) A refused request reaches the order store: as long as the connection has not failed since the
  request was made, whatever else the gateway has done in between (the message queued and written,
  other requests made, written and answered), the first response that echoes the id of the order
  message marks that order, and only that order, as rejected when its status is not 200, and leaves the
  store alone when it is 200. In both cases the request is then no longer awaited and the others still
  are, so a second response with the same id has no effect. (After a failure of the connection no
  response is matched to the order, \<open>requeued_reject_ignored\<close>.)
\<close>

theorem reject_reaches_store:
  assumes sent: "send_order hmac ts cid symbol side otype qty price tif g = (True, g')"
    and ids: "\<forall>(i, c) \<in> set (gw_pending g). unat i \<le> unat (gw_msg_id g)" "unat (gw_msg_id g) + 1 < 2 ^ 64"
    and mid: "mid = gw_msg_id g + 1"
    and run: "(awaiting_step hmac read mid)\<^sup>*\<^sup>* (g', s0) (h, s)"
    and echo: "read json = Some (to_string (unat mid), status)"
    and ack: "handle_ack read now json h s = (h', fired, s')"
  shows "s' = (if status \<noteq> 200 then snd (snd (apply_update (fnv1a64 cid) Rejected 0 0 0 now 0 s)) else s) \<and>
    map_of (gw_pending h') = (map_of (gw_pending h))(mid := None) \<and>
    handle_ack read later json h' s' = (h', [], s')"
proof -
  have "map_of (gw_pending g') mid = Some cid" using send_order_tracks [OF sent ids] mid by simp
  with awaited_run [OF run] have p: "map_of (gw_pending h) mid = Some cid" by simp
  have h': "h' = h\<lparr>gw_pending := AList.delete mid (gw_pending h)\<rparr>"
    and s': "s' = (if status \<noteq> 200 then snd (snd (apply_update (fnv1a64 cid) Rejected 0 0 0 now 0 s)) else s)"
    using ack p by (auto simp: handle_ack_def echo from_chars_to_string Let_def split: if_splits prod.splits)
  have m: "map_of (gw_pending h') = (map_of (gw_pending h))(mid := None)" by (simp add: h' delete_conv')
  have "handle_ack read later json h' s' = (h', [], s')"
    using m by (simp add: handle_ack_def echo from_chars_to_string)
  with m s' show ?thesis by simp
qed

text \<open>An order sent before the connection is there: it is queued, written and then refused.\<close>

theorem reject_reaches_store_witness:
  "\<exists>g' h h' fired s'.
     send_order (\<lambda>_ _. Some ''ab'') 7 ''h1'' ''BTCUSDT'' Buy ''MARKET'' 1 0 [] (BinanceGateway ''k'' ''v'') = (True, g') \<and>
     (awaiting_step (\<lambda>_ _. Some ''ab'') (\<lambda>_. Some (''1'', 400)) 1)\<^sup>*\<^sup>*
       (g', snd (snd (register_new_order 5 6 ''h1'' ''BTCUSDT'' Buy 0 1 OMSCore)))
       (h, snd (snd (register_new_order 5 6 ''h1'' ''BTCUSDT'' Buy 0 1 OMSCore))) \<and>
     gw_written h = gw_posted g' \<and> length (gw_written h) = 1 \<and>
     handle_ack (\<lambda>_. Some (''1'', 400)) 9 ''json'' h
       (snd (snd (register_new_order 5 6 ''h1'' ''BTCUSDT'' Buy 0 1 OMSCore))) = (h', fired, s') \<and>
     map_option or_status (oms_get s' (fnv1a64 ''h1'')) = Some Rejected"
proof -
  let ?g = "BinanceGateway ''k'' ''v''" and ?hmac = "\<lambda>_ _. Some ''ab''" and ?read = "\<lambda>_. Some (''1'', 400)"
  let ?s = "snd (snd (register_new_order 5 6 ''h1'' ''BTCUSDT'' Buy 0 1 OMSCore))"
  obtain ok g' where o: "send_order ?hmac 7 ''h1'' ''BTCUSDT'' Buy ''MARKET'' 1 0 [] ?g = (ok, g')" by fastforce
  then obtain m where m: "gw_posted g' = [m]" and ok and g': "gw_phase g' = Waiting" "gw_queue g' = []"
    "gw_outstanding g' = 0" "\<not> gw_writing g'" "gw_written g' = []"
    by (auto simp: send_order_def next_msg_id_def track_pending_def BinanceGateway_def build_order_msg_def send_msg_def Let_def)
  with o have sent: "send_order ?hmac 7 ''h1'' ''BTCUSDT'' Buy ''MARKET'' 1 0 [] ?g = (True, g')" by simp
  let ?h2 = "run_connected (run_begin g')"
  let ?h3 = "run_posted m (?h2\<lparr>gw_posted := []\<rparr>)"
  let ?h = "write_done True ?h3"
  note defs = run_begin_def run_connected_def run_posted_def do_write_def write_done_def Let_def
  have f: "gw_phase (run_begin g') = Connecting" "gw_outstanding (run_begin g') = 0" "gw_posted ?h2 = m # []"
    "gw_phase ?h2 = Reading" "0 < gw_outstanding ?h3" "gw_phase ?h3 = Reading" "gw_phase ?h = Reading" "gw_written ?h = [m]"
    using m g' by (simp_all add: defs)
  note steps = gw_step.step_begin [OF g'(1)] gw_step.step_connected [OF f(1,2)] gw_step.step_posted [OF f(3)]
    gw_step.step_written [OF f(5), where ok = True]
  let ?A = "awaiting_step ?hmac ?read 1"
  have "?A (g', ?s) (run_begin g', ?s)" "?A (run_begin g', ?s) (?h2, ?s)" "?A (?h2, ?s) (?h3, ?s)" "?A (?h3, ?s) (?h, ?s)"
    unfolding awaiting_step_def using steps f by simp_all
  then have run: "?A\<^sup>*\<^sup>* (g', ?s) (?h, ?s)" by (meson converse_rtranclp_into_rtranclp rtranclp.rtrancl_refl)
  obtain h' fired s' where a: "handle_ack ?read 9 ''json'' ?h ?s = (h', fired, s')" by (metis prod.exhaust)
  have one: "1 = gw_msg_id ?g + 1" by (simp add: BinanceGateway_def)
  have echo: "?read ''json'' = Some (to_string (unat (1 :: u64)), 400 :: int)" by simp code_simp
  have "s' = snd (snd (apply_update (fnv1a64 ''h1'') Rejected 0 0 0 9 0 ?s))"
    using reject_reaches_store [OF sent _ _ one run echo a] by (simp add: BinanceGateway_def)
  then have "map_option or_status (oms_get s' (fnv1a64 ''h1'')) = Some Rejected"
    by (simp add: apply_update_def register_new_order_def alloc_slot_locked_def OMSCore_def oms_get_def
        update_record_def new_record_def empty_record_def Let_def)
  with sent run f(8) m a show ?thesis by (intro exI [of _ g'] exI [of _ ?h] exI [of _ h'] exI [of _ fired] exI [of _ s']) simp
qed

lemma build_order_msg_keys:
  assumes "gw_api_key g = gw_api_key h" "gw_api_secret g = gw_api_secret h"
  shows "build_order_msg hmac ts g = build_order_msg hmac ts h"
  by (intro ext) (simp only: build_order_msg_def assms)

text \<open>
  A request queued across a failed connection attempt loses its correlation: the message stays
  in the gateway and is written on the next connection, but the failure has cleared the table of
  awaited ids, so no response, a rejection included, is ever matched to the order.
\<close>

theorem requeued_reject_ignored:
  assumes "send_order hmac ts cid symbol side otype qty price tif g = (True, g')"
    and "build_order_msg hmac ts g (gw_msg_id g + 1) cid symbol (side_text side) otype qty price tif = Some msg"
  shows "let h = run_connected (run_begin (snd (run_failed g')))
         in msg \<in> set (gw_queue h @ gw_posted h) \<and> handle_ack read now json h s = (h, [], s)"
proof -
  have "build_order_msg hmac ts (track_pending (gw_msg_id g + 1) cid (g\<lparr>gw_msg_id := gw_msg_id g + 1\<rparr>))
      (gw_msg_id g + 1) cid symbol (side_text side) otype qty price tif = Some msg"
    using assms(2) build_order_msg_keys [of "track_pending (gw_msg_id g + 1) cid (g\<lparr>gw_msg_id := gw_msg_id g + 1\<rparr>)" g]
    by (simp add: track_pending_def)
  with assms(1) have "msg \<in> set (gw_posted g')"
    by (auto simp: send_order_def next_msg_id_def send_msg_def Let_def)
  then show ?thesis
    by (auto simp: run_connected_def run_begin_def run_failed_def do_write_def handle_ack_def Let_def
        split: option.split)
qed

theorem requeued_reject_ignored_witness:
  "\<exists>g' msg. send_order (\<lambda>_ _. Some ''ab'') 7 ''h1'' ''BTCUSDT'' Buy ''MARKET'' 1 0 [] (BinanceGateway ''k'' ''v'') = (True, g') \<and>
     (let h = run_connected (run_begin (snd (run_failed g')))
      in msg \<in> set (gw_queue h @ gw_posted h) \<and>
         handle_ack (\<lambda>_. Some (''1'', 400)) 9 ''json'' h OMSCore = (h, [], OMSCore))"
proof -
  let ?g = "BinanceGateway ''k'' ''v''"
  obtain ok g' where o: "send_order (\<lambda>_ _. Some ''ab'') 7 ''h1'' ''BTCUSDT'' Buy ''MARKET'' 1 0 [] ?g = (ok, g')"
    by fastforce
  then have ok
    by (simp add: send_order_def next_msg_id_def track_pending_def BinanceGateway_def build_order_msg_def
        send_msg_def Let_def)
  with o have sent: "send_order (\<lambda>_ _. Some ''ab'') 7 ''h1'' ''BTCUSDT'' Buy ''MARKET'' 1 0 [] ?g = (True, g')"
    by simp
  obtain msg where "build_order_msg (\<lambda>_ _. Some ''ab'') 7 ?g (gw_msg_id ?g + 1) ''h1'' ''BTCUSDT'' (side_text Buy)
      ''MARKET'' 1 0 [] = Some msg"
    by (simp add: build_order_msg_def Let_def)
  from requeued_reject_ignored [OF sent this] sent show ?thesis by blast
qed

section \<open>Reconnect delays\<close>

lemma gateway_backoff [simp]:
  "gw_backoff (do_write g) = gw_backoff g"
  "gw_backoff (write_done ok g) = gw_backoff g"
  "gw_backoff (run_posted m g) = gw_backoff g"
  "gw_backoff (run_begin g) = gw_backoff g"
  "gw_backoff (run_connected g) = gw_backoff g"
  "gw_backoff (snd (send_order hmac ts cid symbol side otype qty price tif g)) = gw_backoff g"
  "gw_backoff (snd (cancel_order hmac ts symbol cid g)) = gw_backoff g"
  "gw_backoff (fst (handle_ack read now json g s)) = gw_backoff g"
  by (simp_all add: do_write_def write_done_def run_posted_def run_begin_def run_connected_def
      send_order_def cancel_order_def next_msg_id_def track_pending_def send_msg_def handle_ack_def Let_def
      split: option.split prod.split)

lemma gw_step_backoff:
  "gw_step hmac read x y \<Longrightarrow> gw_backoff (fst y) = gw_backoff (fst x) \<or>
     gw_backoff (fst y) = min (gw_backoff (fst x) * 2) kMaxBackoff"
proof (induction rule: gw_step.induct)
  case (step_limit ts cid symbol side price qty g ok g' s)
  then show ?case by (metis gateway_backoff(6) send_limit_post_only_def fst_conv snd_conv)
next
  case (step_market ts cid symbol side qty g ok g' s)
  then show ?case by (metis gateway_backoff(6) send_market_def fst_conv snd_conv)
next
  case (step_cancel ts symbol cid g ok g' s)
  then show ?case by (metis gateway_backoff(7) fst_conv snd_conv)
next
  case (step_ack g now json s g' fired s')
  then show ?case by (metis gateway_backoff(8) fst_conv)
qed (simp_all add: run_failed_def)

text \<open>
  The reconnect delay only grows: over any activity, established connections included, the
  delay before the next attempt never decreases and never exceeds ten seconds. It starts at 200 ms,
  doubles at every failure, and no success sets it back.
\<close>

theorem reconnect_delay_only_grows:
  assumes "(gw_step hmac read)\<^sup>*\<^sup>* (g, s) (g', s')" and "gw_backoff g \<le> kMaxBackoff"
  shows "gw_backoff g \<le> gw_backoff g' \<and> gw_backoff g' \<le> kMaxBackoff"
proof -
  have "gw_backoff g \<le> gw_backoff (fst y) \<and> gw_backoff (fst y) \<le> kMaxBackoff"
    if "(gw_step hmac read)\<^sup>*\<^sup>* (g, s) y" for y
    using that
  proof (induction rule: rtranclp_induct)
    case (step y z)
    then show ?case using gw_step_backoff [OF step.hyps(2)] by linarith
  qed (simp add: assms(2))
  from this [OF assms(1)] show ?thesis by simp
qed

section \<open>Messages\<close>

text \<open>The parameters of an order request: name, value, and whether the value is a JSON string.\<close>

definition order_params ::
    "string \<Rightarrow> nat \<Rightarrow> string \<Rightarrow> string \<Rightarrow> string \<Rightarrow> string \<Rightarrow> dbl \<Rightarrow> dbl \<Rightarrow> string \<Rightarrow> (string \<times> string \<times> bool) list" where
  "order_params api_key ts cid symbol side otype qty price tif =
     [(''apiKey'', api_key, True), (''newClientOrderId'', cid, True)] @
     (if price > 0 then [(''price'', format_decimal price (sp_price_decimals (precision_for symbol)), True)] else []) @
     [(''quantity'', format_decimal qty (sp_qty_decimals (precision_for symbol)), True),
      (''side'', side, True), (''symbol'', symbol, True)] @
     (if tif \<noteq> [] then [(''timeInForce'', tif, True)] else []) @
     [(''timestamp'', to_string ts, False), (''type'', otype, True)]"

fun query_string :: "(string \<times> string \<times> bool) list \<Rightarrow> string" where
  "query_string [] = []"
| "query_string [(k, v, q)] = k @ ''='' @ v"
| "query_string ((k, v, q) # p # ps) = k @ ''='' @ v @ ''&'' @ query_string (p # ps)"

definition json_field :: "string \<times> string \<times> bool \<Rightarrow> string" where
  "json_field p = (case p of (k, v, q) \<Rightarrow>
     ''\"'' @ k @ ''\":'' @ (if q then ''\"'' @ v @ ''\"'' else v) @ '','')"

lemma order_payload_params:
  "order_payload k ts cid symbol side otype qty price tif =
     query_string (order_params k ts cid symbol side otype qty price tif)"
  by (simp add: order_payload_def order_params_def Let_def)

text \<open>
  What is signed is what is sent: an order message consists of its id, the method, exactly the
  parameters of the signed query string in the same order, and the signature of that query string;
  the parameters are listed in strictly increasing order of their names, the order the exchange
  prescribes for signing.
\<close>

theorem order_message_signed:
  assumes "build_order_msg hmac ts g mid cid symbol side otype qty price tif = Some msg"
  shows "let ps = order_params (gw_api_key g) ts cid symbol side otype qty price tif
         in (\<exists>sig. hmac (gw_api_secret g) (query_string ps) = Some sig \<and>
               msg = ''{\"id\":\"'' @ to_string (unat mid) @ ''\",\"method\":\"order.place\",\"params\":{'' @
                 concat (map json_field ps) @ ''\"signature\":\"'' @ sig @ ''\"}}'') \<and>
            sorted_wrt (<) (map fst ps)"
proof -
  let ?ps = "order_params (gw_api_key g) ts cid symbol side otype qty price tif"
  obtain sig where sig: "hmac (gw_api_secret g) (query_string ?ps) = Some sig"
    using assms by (auto simp: build_order_msg_def order_payload_params Let_def split: option.splits)
  have "msg = ''{\"id\":\"'' @ to_string (unat mid) @ ''\",\"method\":\"order.place\",\"params\":{'' @
                 concat (map json_field ?ps) @ ''\"signature\":\"'' @ sig @ ''\"}}''"
    using assms sig
    by (simp add: build_order_msg_def order_payload_params Let_def)
      (cases "0 < price"; cases "tif = []"; simp add: order_params_def json_field_def)
  moreover have "sorted_wrt (<) (map fst ?ps)"
    by (simp add: order_params_def less_char_def)
  ultimately show ?thesis using sig by (simp add: Let_def)
qed

theorem order_message_signed_witness:
  "\<exists>msg. build_order_msg (\<lambda>_ p. Some (rev p)) 7 (BinanceGateway ''k'' ''v'') 1 ''h1'' ''BTCUSDT'' ''BUY'' ''LIMIT'' 1 100 ''GTX''
       = Some msg \<and>
     (let ps = order_params ''k'' 7 ''h1'' ''BTCUSDT'' ''BUY'' ''LIMIT'' 1 100 ''GTX''
      in msg = ''{\"id\":\"'' @ to_string 1 @ ''\",\"method\":\"order.place\",\"params\":{'' @
           concat (map json_field ps) @ ''\"signature\":\"'' @ rev (query_string ps) @ ''\"}}'' \<and> length ps = 9)"
proof -
  obtain msg where m: "build_order_msg (\<lambda>_ p. Some (rev p)) 7 (BinanceGateway ''k'' ''v'') 1 ''h1'' ''BTCUSDT'' ''BUY'' ''LIMIT'' 1 100 ''GTX''
      = Some msg"
    by (simp add: build_order_msg_def Let_def)
  have "length (order_params ''k'' 7 ''h1'' ''BTCUSDT'' ''BUY'' ''LIMIT'' 1 100 ''GTX'') = 9"
    by (simp add: order_params_def)
  with order_message_signed [OF m] m show ?thesis by (simp add: Let_def BinanceGateway_def)
qed

section \<open>Decimal text\<close>

lemma pad_left_digits:
  assumes "m < 10 ^ d" and "0 < d"
  shows "length (pad_left d (to_string m)) = d" and "decimal_val (pad_left d (to_string m)) = m"
    and "\<forall>c \<in> set (pad_left d (to_string m)). is_digit c"
  using to_string_length [OF assms] to_string_digits [of m]
  by (auto simp: pad_left_def decimal_val_zeros is_digit_def)

lemma parse_float_fixed_text: "parse_float (fixed_text d n) = (real n / 10 ^ d, [])"
proof (cases "d = 0")
  case True
  have "parse_whole 0 (to_string n) = (real n, [])"
    using parse_whole_digits [OF to_string_digits, of "[]" 0 n] decimal_val_to_string [of n]
    by (simp add: decimal_val_def no_digit_def)
  with True show ?thesis by (simp add: fixed_text_def parse_float_def)
next
  case False
  let ?w = "n div 10 ^ d" and ?t = "pad_left d (to_string (n mod 10 ^ d))"
  have m: "n mod 10 ^ d < 10 ^ d" by simp
  note pad = pad_left_digits [OF m, of ] False
  have "parse_float (dec_text (?w, ?t)) = (dec_value (?w, ?t), [])"
    using parse_float_dec [of "(?w, ?t)" "[]"] pad by (simp add: no_digit_def)
  moreover have "dec_value (?w, ?t) = real n / 10 ^ d"
  proof -
    have "real (n mod 10 ^ d) + 10 ^ d * real (n div 10 ^ d) = real n"
      using arg_cong [OF mod_mult_div_eq [of n "10 ^ d"], of real]
      by (simp only: of_nat_add of_nat_mult of_nat_power of_nat_numeral)
    then show ?thesis using pad by (simp add: dec_value_def frac_val_decimal field_simps)
  qed
  ultimately show ?thesis using False by (simp add: fixed_text_def dec_text_def)
qed

lemma nearest_even_bounds: "\<bar>of_int (nearest_even x) - x\<bar> \<le> 1 / 2"
  using of_int_floor_le [of x] real_of_int_floor_add_one_gt [of x]
  unfolding nearest_even_def Let_def by (auto simp: abs_le_iff)

lemma length_fixed_text:
  assumes "n < 10 ^ k" and "0 < k"
  shows "length (fixed_text d n) \<le> k + 1 + d"
proof -
  have "n div 10 ^ d < 10 ^ k" using assms(1) div_le_dividend [of n "10 ^ d"] by linarith
  from to_string_length [OF this assms(2)] show ?thesis
    using pad_left_digits(1) [of "n mod 10 ^ d" d] by (cases "d = 0") (simp_all add: fixed_text_def)
qed

text \<open>
  Numbers survive formatting up to the precision of the symbol: the text of a non-negative price
  or quantity below 10^20, printed with at most 20 decimals, reads back as a multiple of the last
  decimal place that differs from the number by at most half of that place.
\<close>

theorem format_decimal_nearest:
  assumes "0 \<le> v" and "v * 10 ^ d < 10 ^ 20" and "d \<le> 20"
  shows "\<exists>n :: nat. parse_float (format_decimal v d) = (real n / 10 ^ d, []) \<and>
     \<bar>real n / 10 ^ d - v\<bar> \<le> 1 / (2 * 10 ^ d)"
proof -
  let ?x = "v * 10 ^ d"
  let ?n = "nat (nearest_even ?x)"
  have x: "0 \<le> ?x" using assms(1) by simp
  have near: "\<bar>of_int (nearest_even ?x) - ?x\<bar> \<le> 1 / 2" by (rule nearest_even_bounds)
  with x have "-1 < real_of_int (nearest_even ?x)" by linarith
  then have n: "real ?n = of_int (nearest_even ?x)" by simp
  have "real ?n < 10 ^ 20 + 1" using near n assms(2) by linarith
  also have "\<dots> < 10 ^ 21" by simp
  finally have "real ?n < 10 ^ 21" .
  then have "?n < 10 ^ 21"
    using of_nat_less_iff [of ?n "10 ^ 21", where ?'a = real] by (simp only: of_nat_power of_nat_numeral)
  then have "length (fixed_text d ?n) \<le> 47" using length_fixed_text [of ?n 21 d] assms(3) by simp
  then have "parse_float (format_decimal v d) = (real ?n / 10 ^ d, [])"
    using assms(1) by (simp add: format_decimal_def parse_float_fixed_text)
  moreover have "\<bar>real ?n / 10 ^ d - v\<bar> \<le> 1 / (2 * 10 ^ d)"
  proof -
    have "real ?n / 10 ^ d - v = (real ?n - ?x) / 10 ^ d" by (simp add: field_simps)
    then show ?thesis using near n by (simp add: abs_divide field_simps)
  qed
  ultimately show ?thesis by blast
qed

end
