(* ===== verification/User_Data_Feed.thy ===== *)
theory User_Data_Feed
  imports Oms_Core "HOL-Library.Sublist"
begin

text \<open>
  The user-data stream consumer (\<open>net/user_data_feed.hpp\<close>): decoding of order events into updates of
  the order store, the reconciliation with the exchange after every (re)connect, the listen key that
  is fetched before each connection, and the reconnect loop.

  Arguments of the definitions stand for code outside the repository: the record \<open>dom\<close> is the
  interface of the JSON parser the code calls (parsing a text, and reading a string, an integer, an
  object member or an array from a value, each of which may fail), \<open>hmac\<close> is the signature function,
  \<open>rs_http\<close> gives the body of the n-th signed request of a connection, or nothing when the request
  throws, and the clocks give its wall-clock times in milliseconds and nanoseconds.
\<close>

section \<open>Interface of the JSON parser\<close>

record 'd dom =
  dom_parse :: "string \<Rightarrow> 'd option"
  dom_str :: "'d \<Rightarrow> string \<Rightarrow> string option"
  dom_int :: "'d \<Rightarrow> string \<Rightarrow> i64 option"
  dom_elem :: "'d \<Rightarrow> string \<Rightarrow> 'd option"
  dom_array :: "'d \<Rightarrow> 'd list option"

section \<open>Order events\<close>

text \<open>
  \<open>svtod\<close>: \<open>std::from_chars\<close> into a double that is 0 at first; text that starts with no number leaves
  it. The number is a sign, digits, a fraction and an exponent, of which all but one of the digit
  groups may be missing.
\<close>

definition sv_exponent :: "string \<Rightarrow> dbl" where
  "sv_exponent t =
     (case t of
        [] \<Rightarrow> 1
      | c # r \<Rightarrow>
          if c = CHR ''e'' \<or> c = CHR ''E'' then
            (let neg = (r \<noteq> [] \<and> hd r = CHR ''-'');
                 r' = (if r \<noteq> [] \<and> (hd r = CHR ''-'' \<or> hd r = CHR ''+'') then tl r else r);
                 ds = takeWhile is_digit r'
             in if neg then 1 / 10 ^ decimal_val ds else 10 ^ decimal_val ds)
          else 1)"

definition sv_unsigned :: "string \<Rightarrow> dbl" where
  "sv_unsigned t =
     (let w = takeWhile is_digit t; r = dropWhile is_digit t;
          has_point = (r \<noteq> [] \<and> hd r = CHR ''.'');
          f = (if has_point then takeWhile is_digit (tl r) else []);
          e = (if has_point then dropWhile is_digit (tl r) else r)
      in if w = [] \<and> f = [] then 0 else (real (decimal_val w) + frac_val f) * sv_exponent e)"

definition svtod :: "string \<Rightarrow> dbl" where
  "svtod t = (if t \<noteq> [] \<and> hd t = CHR ''-'' then - sv_unsigned (tl t) else sv_unsigned t)"

definition map_status :: "string \<Rightarrow> OrderStatus" where
  "map_status t =
     (if t = ''NEW'' then Open
      else if t = ''PARTIALLY_FILLED'' then Partial
      else if t = ''FILLED'' then Filled
      else if t = ''CANCELED'' \<or> t = ''EXPIRED'' then Canceled
      else if t = ''REJECTED'' then Rejected
      else Open)"

definition sv_or_zero :: "string option \<Rightarrow> dbl" where
  "sv_or_zero t = (case t of None \<Rightarrow> 0 | Some v \<Rightarrow> if v = [] then 0 else svtod v)"

definition handle_order_trade_update :: "'d dom \<Rightarrow> 'd \<Rightarrow> oms \<Rightarrow> OrderRecord list \<times> oms" where
  "handle_order_trade_update J ord s =
     (case (dom_str J ord ''c'', dom_str J ord ''X'', dom_str J ord ''z'', dom_int J ord ''i'') of
        (Some client_id, Some status_str, Some z_str, Some exch_order_id) \<Rightarrow>
          let last_px = sv_or_zero (dom_str J ord ''L'');
              commission_delta = sv_or_zero (dom_str J ord ''n'');
              t_ms = (case dom_int J ord ''T'' of None \<Rightarrow> 0 | Some t \<Rightarrow> t);
              event_ns = t_ms * 1000000
          in snd (apply_update (fnv1a64 client_id) (map_status status_str) (svtod z_str) last_px
                    exch_order_id event_ns commission_delta s)
      | _ \<Rightarrow> ([], s))"

text \<open>
  A message returns whether the connection is to be torn down, the payload handed to the margin-call
  callback when there is one, and the effect on the store.
\<close>

definition handle_message ::
    "'d dom \<Rightarrow> bool \<Rightarrow> string \<Rightarrow> oms \<Rightarrow> bool \<times> string list \<times> OrderRecord list \<times> oms" where
  "handle_message J on_margin_call data s =
     (case dom_parse J data of
        None \<Rightarrow> (False, [], [], s)
      | Some doc \<Rightarrow>
          (case dom_str J doc ''e'' of
             None \<Rightarrow> (False, [], [], s)
           | Some event_type \<Rightarrow>
               if event_type = ''ORDER_TRADE_UPDATE'' then
                 (case dom_elem J doc ''o'' of
                    None \<Rightarrow> (False, [], [], s)
                  | Some ord \<Rightarrow>
                      (case handle_order_trade_update J ord s of (fired, s') \<Rightarrow> (False, [], fired, s')))
               else if event_type = ''listenKeyExpired'' then (True, [], [], s)
               else if event_type = ''MARGIN_CALL'' then
                 (False, if on_margin_call then [data] else [], [], s)
               else (False, [], [], s)))"

section \<open>Reconciliation\<close>

text \<open>The text of a signed request.\<close>

definition rest_request :: "(string \<Rightarrow> string \<Rightarrow> string) \<Rightarrow> string \<Rightarrow> nat \<Rightarrow> string \<Rightarrow> string \<Rightarrow> string" where
  "rest_request hmac api_secret ts path query =
     (let query = query @ (if query = [] then [] else ''&'') @ ''timestamp='' @ to_string ts;
          query = query @ ''&signature='' @ hmac api_secret query
      in path @ ''?'' @ query)"

record rest_env =
  rs_hmac :: "string \<Rightarrow> string \<Rightarrow> string"
  rs_secret :: string
  rs_clock :: "nat \<Rightarrow> nat"
  rs_now_ns :: "nat \<Rightarrow> i64"
  rs_http :: "nat \<Rightarrow> string \<Rightarrow> string option"

definition rest_get_signed :: "rest_env \<Rightarrow> nat \<Rightarrow> string \<Rightarrow> string \<Rightarrow> string option" where
  "rest_get_signed E i path query =
     rs_http E i (rest_request (rs_hmac E) (rs_secret E) (rs_clock E i) path query)"

definition reconcile_single_order ::
    "'d dom \<Rightarrow> rest_env \<Rightarrow> nat \<Rightarrow> string \<Rightarrow> string \<Rightarrow> u64 \<Rightarrow> oms \<Rightarrow> OrderRecord list \<times> oms" where
  "reconcile_single_order J E i symbol client_order_id key s =
     (let query = ''symbol='' @ symbol @ ''&origClientOrderId='' @ client_order_id
      in case rest_get_signed E i ''/fapi/v1/order'' query of
           None \<Rightarrow> ([], s)
         | Some body \<Rightarrow>
             (case dom_parse J body of
                None \<Rightarrow> ([], s)
              | Some doc \<Rightarrow>
                  (case (dom_str J doc ''status'', dom_str J doc ''executedQty'', dom_int J doc ''orderId'') of
                     (Some status_str, Some z_str, Some exch_order_id) \<Rightarrow>
                       let avg_px = sv_or_zero (dom_str J doc ''avgPrice'');
                           event_ns = rs_now_ns E i
                       in snd (apply_update key (map_status status_str) (svtod z_str) avg_px
                                 exch_order_id event_ns 0 s)
                   | _ \<Rightarrow> ([], s))))"

text \<open>The orders the exchange lists as open.\<close>

definition still_open_keys :: "'d dom \<Rightarrow> 'd \<Rightarrow> u64 list" where
  "still_open_keys J doc =
     (case dom_array J doc of
        None \<Rightarrow> []
      | Some arr \<Rightarrow> map fnv1a64 (List.map_filter (\<lambda>order. dom_str J order ''clientOrderId'') arr))"

fun reconcile_loop ::
    "'d dom \<Rightarrow> rest_env \<Rightarrow> u64 list \<Rightarrow> nat \<Rightarrow> OrderRecord list \<Rightarrow> oms \<Rightarrow> OrderRecord list \<times> oms" where
  "reconcile_loop J E open_keys i [] s = ([], s)"
| "reconcile_loop J E open_keys i (rec # recs) s =
     (let coid = view (or_client_order_id rec); key = fnv1a64 coid
      in if key \<in> set open_keys then reconcile_loop J E open_keys i recs s
         else (case reconcile_single_order J E i (view (or_symbol rec)) coid key s of (f1, s1) \<Rightarrow>
                 case reconcile_loop J E open_keys (Suc i) recs s1 of (f2, s2) \<Rightarrow> (f1 @ f2, s2)))"

definition reconcile_open_orders :: "'d dom \<Rightarrow> rest_env \<Rightarrow> i64 \<Rightarrow> oms \<Rightarrow> OrderRecord list \<times> oms" where
  "reconcile_open_orders J E steady s =
     (let local_live = get_stale_orders steady 0 s
      in if local_live = [] then ([], s)
         else (case rest_get_signed E 0 ''/fapi/v1/openOrders'' [] of
                 None \<Rightarrow> ([], s)
               | Some body \<Rightarrow>
                   (case dom_parse J body of
                      None \<Rightarrow> ([], s)
                    | Some doc \<Rightarrow> reconcile_loop J E (still_open_keys J doc) 1 local_live s)))"

section \<open>Connections\<close>

record UserDataFeed =
  uf_listen_key :: string
  uf_on_margin_call :: bool
  uf_backoff :: nat

definition set_listen_key :: "string \<Rightarrow> UserDataFeed \<Rightarrow> UserDataFeed" where
  "set_listen_key key f = f\<lparr>uf_listen_key := key\<rparr>"

definition set_margin_call_callback :: "bool \<Rightarrow> UserDataFeed \<Rightarrow> UserDataFeed" where
  "set_margin_call_callback cb f = f\<lparr>uf_on_margin_call := cb\<rparr>"

text \<open>\<open>std::string::find\<close> of a pattern, as the text behind its first occurrence.\<close>

fun text_after :: "string \<Rightarrow> string \<Rightarrow> string option" where
  "text_after pat t =
     (if prefix pat t then Some (drop (length pat) t)
      else case t of [] \<Rightarrow> None | c # r \<Rightarrow> text_after pat r)"

declare text_after.simps [simp del]

definition listen_key_of :: "string \<Rightarrow> string option" where
  "listen_key_of body =
     map_option (takeWhile (\<lambda>c. c \<noteq> CHR 0x22)) (text_after ''\"listenKey\":\"'' body)"

text \<open>The response to the request for a new listen key; no response is an exception.\<close>

definition fetch_fresh_listen_key :: "string option \<Rightarrow> string option" where
  "fetch_fresh_listen_key response = (case response of None \<Rightarrow> None | Some body \<Rightarrow> listen_key_of body)"

text \<open>
  One connection: the response to the key request, whether the connection to the given target can
  be established, the clock of the reconciliation, and the messages that arrive before the socket
  fails.
\<close>

record connection =
  cn_key_response :: "string option"
  cn_connect :: "string \<Rightarrow> bool"
  cn_rest :: rest_env
  cn_steady :: i64
  cn_messages :: "string list"

fun read_loop ::
    "'d dom \<Rightarrow> bool \<Rightarrow> string list \<Rightarrow> oms \<Rightarrow> bool \<times> string list \<times> OrderRecord list \<times> oms" where
  "read_loop J cb [] s = (False, [], [], s)"
| "read_loop J cb (m # ms) s =
     (case handle_message J cb m s of (stop, calls, fired, s1) \<Rightarrow>
        if stop then (True, calls, fired, s1)
        else (case read_loop J cb ms s1 of (ok, calls2, fired2, s2) \<Rightarrow>
                (ok, calls @ calls2, fired @ fired2, s2)))"

text \<open>
  \<open>run\<close> returns whether it ended without an exception, the target it connected to, if any, and the
  state it leaves. The deletion of the old key changes nothing on this side.
\<close>

definition feed_run ::
    "'d dom \<Rightarrow> connection \<Rightarrow> UserDataFeed \<Rightarrow> oms \<Rightarrow> bool \<times> string option \<times> UserDataFeed \<times> oms" where
  "feed_run J C f s =
     (case fetch_fresh_listen_key (cn_key_response C) of
        None \<Rightarrow> (False, None, f, s)
      | Some key \<Rightarrow>
          let f1 = f\<lparr>uf_listen_key := key\<rparr>; target = ''/ws/'' @ uf_listen_key f1
          in if \<not> cn_connect C target then (False, None, f1, s)
             else (case reconcile_open_orders J (cn_rest C) (cn_steady C) s of (f0, s1) \<Rightarrow>
                     case read_loop J (uf_on_margin_call f1) (cn_messages C) s1 of (ok, calls, fired, s2) \<Rightarrow>
                       (ok, Some target, f1, s2)))"

text \<open>One round of \<open>run_with_backoff\<close>: the delay of its timer and the state afterwards.\<close>

definition backoff_round :: "'d dom \<Rightarrow> connection \<Rightarrow> UserDataFeed \<Rightarrow> oms \<Rightarrow> nat \<times> UserDataFeed \<times> oms" where
  "backoff_round J C f s =
     (case feed_run J C f s of (ok, target, f1, s1) \<Rightarrow>
        let backoff = (if ok then 200 else uf_backoff f1)
        in (backoff, f1\<lparr>uf_backoff := min (backoff * 2) 10000\<rparr>, s1))"

section \<open>The stream as updates of the store\<close>

text \<open>What a message means for the store, if anything.\<close>

definition decode_order :: "'d dom \<Rightarrow> 'd \<Rightarrow> oms_op option" where
  "decode_order J ord =
     (case (dom_str J ord ''c'', dom_str J ord ''X'', dom_str J ord ''z'', dom_int J ord ''i'') of
        (Some c, Some X, Some z, Some i) \<Rightarrow>
          Some (Update (fnv1a64 c) (map_status X) (svtod z) (sv_or_zero (dom_str J ord ''L'')) i
            (case_option 0 (\<lambda>t. t) (dom_int J ord ''T'') * 1000000) (sv_or_zero (dom_str J ord ''n'')))
      | _ \<Rightarrow> None)"

definition decode_message :: "'d dom \<Rightarrow> string \<Rightarrow> oms_op option" where
  "decode_message J data =
     Option.bind (dom_parse J data) (\<lambda>doc.
       if dom_str J doc ''e'' = Some ''ORDER_TRADE_UPDATE''
       then Option.bind (dom_elem J doc ''o'') (decode_order J) else None)"

definition expires :: "'d dom \<Rightarrow> string \<Rightarrow> bool" where
  "expires J data \<longleftrightarrow>
     (case dom_parse J data of None \<Rightarrow> False | Some doc \<Rightarrow> dom_str J doc ''e'' = Some ''listenKeyExpired'')"

lemma handle_order_trade_update_decode:
  "snd (handle_order_trade_update J ord s) = fold oms_step (case_option [] (\<lambda>op. [op]) (decode_order J ord)) s"
  by (simp add: handle_order_trade_update_def decode_order_def Let_def split: option.split)

lemma handle_message_decode:
  "snd (snd (snd (handle_message J cb m s))) = fold oms_step (case_option [] (\<lambda>op. [op]) (decode_message J m)) s"
  "fst (handle_message J cb m s) = expires J m"
  using handle_order_trade_update_decode [of J _ s]
  by (auto simp: handle_message_def decode_message_def expires_def split: option.split prod.split)

text \<open>The messages handled before the key expires.\<close>

definition handled :: "'d dom \<Rightarrow> string list \<Rightarrow> string list" where
  "handled J ms = takeWhile (\<lambda>m. \<not> expires J m) ms"

lemma read_loop_fold:
  "snd (snd (snd (read_loop J cb ms s))) = fold oms_step (List.map_filter (decode_message J) (handled J ms)) s"
proof (induction ms arbitrary: s)
  case (Cons m ms)
  obtain stop calls fired s1 where h: "handle_message J cb m s = (stop, calls, fired, s1)"
    by (metis prod_cases4)
  have s1: "s1 = fold oms_step (case_option [] (\<lambda>op. [op]) (decode_message J m)) s" "stop = expires J m"
    using handle_message_decode [of J cb m s] h by simp_all
  have no: "decode_message J m = None" if "expires J m"
    using that by (auto simp: expires_def decode_message_def split: option.splits)
  show ?case
    using Cons.IH [of s1] s1 h no
    by (auto simp: handled_def List.map_filter_simps split: prod.split option.split)
qed (simp add: handled_def List.map_filter_simps)

text \<open>
  (C28) The stream drives the store and nothing else does: after any messages of one connection, the
  record of every order is what the well-formed order events for that order, up to the expiry of the
  listen key, produce one after the other; parse errors, incomplete events, other event types and
  events of unknown orders change no record.
\<close>

theorem stream_updates_by_key:
  assumes "oms_inv s"
  shows "oms_get (snd (snd (snd (read_loop J cb ms s)))) k =
     fold oms_effect (filter (\<lambda>op. oms_key op = k) (List.map_filter (decode_message J) (handled J ms)))
       (oms_get s k)"
  using oms_store.run_lookup [OF assms] by (simp add: read_loop_fold)

definition demo_dom :: "(string \<Rightarrow> string option) \<Rightarrow> unit dom" where
  "demo_dom vals = \<lparr>dom_parse = \<lambda>_. Some (), dom_str = \<lambda>_. vals,
     dom_int = \<lambda>_ k. if k = ''i'' \<or> k = ''orderId'' then Some 7 else None,
     dom_elem = \<lambda>_ _. Some (), dom_array = \<lambda>_. Some []\<rparr>"

theorem stream_updates_by_key_witness:
  "map_option or_filled_qty (oms_get (snd (snd (snd (read_loop
      (demo_dom [''e'' \<mapsto> ''ORDER_TRADE_UPDATE'', ''c'' \<mapsto> ''h1'', ''X'' \<mapsto> ''FILLED'', ''z'' \<mapsto> ''2'', ''L'' \<mapsto> ''100'']) False
      [''m''] (oms_step (Register 5 6 ''h1'' ''BTCUSDT'' Buy 101 2) OMSCore))))) (fnv1a64 ''h1'')) = Some 2"
proof -
  let ?J = "demo_dom [''e'' \<mapsto> ''ORDER_TRADE_UPDATE'', ''c'' \<mapsto> ''h1'', ''X'' \<mapsto> ''FILLED'', ''z'' \<mapsto> ''2'', ''L'' \<mapsto> ''100'']"
  let ?s = "oms_step (Register 5 6 ''h1'' ''BTCUSDT'' Buy 101 2) OMSCore"
  have inv: "oms_inv ?s" using oms_step_store [OF OMSCore_inv] by blast
  have g: "oms_get ?s (fnv1a64 ''h1'') = Some (new_record 5 6 ''h1'' ''BTCUSDT'' Buy 101 2)"
    using oms_step_store [OF OMSCore_inv, of "Register 5 6 ''h1'' ''BTCUSDT'' Buy 101 2"] by simp
  have e: "\<not> expires ?J ''m''" by (simp add: expires_def demo_dom_def)
  have d: "decode_message ?J ''m'' = Some (Update (fnv1a64 ''h1'') Filled 2 100 7 0 0)"
    by (simp add: decode_message_def decode_order_def demo_dom_def map_status_def sv_or_zero_def svtod_def
        sv_unsigned_def sv_exponent_def is_digit_def decimal_val_def digit_val_def)
  show ?thesis
    using stream_updates_by_key [OF inv, of ?J False "[''m'']" "fnv1a64 ''h1''"] g
    by (simp add: handled_def e d List.map_filter_simps update_record_def new_record_def empty_record_def)
qed

section \<open>What a reconciliation does\<close>

definition rec_key :: "OrderRecord \<Rightarrow> u64" where
  "rec_key rec = fnv1a64 (view (or_client_order_id rec))"

text \<open>The answer of the exchange to the query for one order, as an update of the store.\<close>

definition order_query :: "OrderRecord \<Rightarrow> string" where
  "order_query rec = ''symbol='' @ view (or_symbol rec) @ ''&origClientOrderId='' @ view (or_client_order_id rec)"

definition lookup_answer :: "'d dom \<Rightarrow> rest_env \<Rightarrow> nat \<Rightarrow> OrderRecord \<Rightarrow> oms_op option" where
  "lookup_answer J E i rec =
     Option.bind (rest_get_signed E i ''/fapi/v1/order'' (order_query rec)) (\<lambda>body.
       Option.bind (dom_parse J body) (\<lambda>doc.
         case (dom_str J doc ''status'', dom_str J doc ''executedQty'', dom_int J doc ''orderId'') of
           (Some st, Some z, Some ex) \<Rightarrow>
             Some (Update (rec_key rec) (map_status st) (svtod z) (sv_or_zero (dom_str J doc ''avgPrice''))
               ex (rs_now_ns E i) 0)
         | _ \<Rightarrow> None))"

lemma reconcile_single_order_answer:
  "snd (reconcile_single_order J E i (view (or_symbol rec)) (view (or_client_order_id rec)) (rec_key rec) s) =
     (case lookup_answer J E i rec of None \<Rightarrow> s | Some op \<Rightarrow> oms_step op s)"
  by (simp add: reconcile_single_order_def lookup_answer_def order_query_def Let_def split: option.split)

lemma lookup_answer_key: "lookup_answer J E i rec = Some op \<Longrightarrow> oms_key op = rec_key rec"
  by (auto simp: lookup_answer_def split: option.splits Option.bind_splits)

text \<open>The number of the request in which the order with a given key is looked up.\<close>

fun query_no :: "u64 list \<Rightarrow> u64 \<Rightarrow> nat \<Rightarrow> OrderRecord list \<Rightarrow> nat" where
  "query_no open_keys k i [] = i"
| "query_no open_keys k i (rec # recs) =
     (if rec_key rec = k then i
      else query_no open_keys k (if rec_key rec \<in> set open_keys then i else Suc i) recs)"

definition answer_effect :: "oms_op option \<Rightarrow> OrderRecord option \<Rightarrow> OrderRecord option" where
  "answer_effect a = (case a of None \<Rightarrow> (\<lambda>r. r) | Some op \<Rightarrow> oms_effect op)"

lemma reconcile_single_store:
  assumes "oms_inv s"
    and "s' = snd (reconcile_single_order J E i (view (or_symbol rec)) (view (or_client_order_id rec)) (rec_key rec) s)"
  shows "oms_inv s' \<and> oms_get s' = (oms_get s)(rec_key rec := answer_effect (lookup_answer J E i rec) (oms_get s (rec_key rec)))"
  unfolding assms(2) reconcile_single_order_answer
  using assms(1) oms_step_store [OF assms(1)]
  by (auto simp: answer_effect_def lookup_answer_key fun_eq_iff split: option.split)

lemma reconcile_loop_Cons:
  "snd (reconcile_loop J E ks i (rec # recs) s) =
     (if rec_key rec \<in> set ks then snd (reconcile_loop J E ks i recs s)
      else snd (reconcile_loop J E ks (Suc i) recs
        (snd (reconcile_single_order J E i (view (or_symbol rec)) (view (or_client_order_id rec)) (rec_key rec) s))))"
  by (simp add: rec_key_def Let_def split: prod.split)

lemma reconcile_loop_other:
  "oms_inv s \<Longrightarrow> k \<notin> rec_key ` set recs \<or> k \<in> set ks \<Longrightarrow>
     oms_get (snd (reconcile_loop J E ks i recs s)) k = oms_get s k"
proof (induction recs arbitrary: i s)
  case (Cons rec recs)
  note st = reconcile_single_store [OF Cons.prems(1) refl, of J E i rec]
  show ?case
    using Cons.IH [OF Cons.prems(1)] Cons.IH [OF conjunct1 [OF st]] Cons.prems(2) st
    by (auto simp: reconcile_loop_Cons simp del: reconcile_loop.simps)
qed simp

lemma reconcile_loop_answered:
  "oms_inv s \<Longrightarrow> distinct (map rec_key recs) \<Longrightarrow> rec \<in> set recs \<Longrightarrow> rec_key rec \<notin> set ks \<Longrightarrow>
     oms_get (snd (reconcile_loop J E ks i recs s)) (rec_key rec) =
       answer_effect (lookup_answer J E (query_no ks (rec_key rec) i recs) rec) (oms_get s (rec_key rec))"
proof (induction recs arbitrary: i s)
  case (Cons r recs)
  note st = reconcile_single_store [OF Cons.prems(1) refl, of J E i r]
  show ?case
  proof (cases "rec_key r = rec_key rec")
    case True
    with Cons.prems have "r = rec" by (auto simp: rev_image_eqI)
    with Cons.prems st reconcile_loop_other [OF conjunct1 [OF st], of "rec_key rec" recs ks J E "Suc i"]
    show ?thesis by (auto simp: reconcile_loop_Cons simp del: reconcile_loop.simps)
  next
    case False
    with Cons.prems Cons.IH [OF Cons.prems(1), of i] Cons.IH [OF conjunct1 [OF st], of "Suc i"] st
    show ?thesis by (auto simp: reconcile_loop_Cons simp del: reconcile_loop.simps)
  qed
qed simp

text \<open>
  Client ids that fit their buffer give every stored record the key it is indexed under; the engine
  only creates such ids.
\<close>

definition ids_ok :: "oms \<Rightarrow> bool" where
  "ids_ok s \<longleftrightarrow> (\<forall>k rec. oms_get s k = Some rec \<longrightarrow> rec_key rec = k)"

lemma rec_key_new: "NUL \<notin> set cid \<Longrightarrow> length cid \<le> 39 \<Longrightarrow> rec_key (new_record now steady cid symbol side px qty) = fnv1a64 cid"
  by (simp add: rec_key_def new_record_def make_client_id_def view_make_buf)

lemma stale_keys_distinct:
  assumes "oms_inv s" and "ids_ok s"
  shows "distinct (map rec_key (get_stale_orders steady age s))"
proof -
  let ?rec = "\<lambda>(key, slot). oms_slots s ! slot"
  have "rec_key (?rec e) = fst e" if "e \<in> set (oms_index s)" for e
  proof -
    obtain key slot where "e = (key, slot)" by fastforce
    with that have "oms_get s (fst e) = Some (?rec e)" using oms_get_index [OF assms(1)] by auto
    with assms(2) show ?thesis unfolding ids_ok_def by blast
  qed
  then have "map rec_key (map ?rec (oms_index s)) = map fst (oms_index s)"
    by (simp cong: map_cong)
  moreover have "distinct (map fst (oms_index s))" using assms(1) by (simp add: oms_inv_def)
  ultimately have "distinct (map rec_key (map ?rec (oms_index s)))" by (rule ssubst)
  then show ?thesis by (simp add: get_stale_orders_def Let_def distinct_map_filter)
qed

text \<open>
  (C27) Reconciliation brings the store up to date with the exchange: once the list of open orders has
  been fetched, a live order (registered before the reconnect) that is in the list keeps its record,
  one that is missing from it gets the status, quantity and price of the exchange's answer to a
  query for that order (and keeps its record when there is no usable answer), and no other order
  changes.
\<close>

theorem reconcile_exact:
  assumes inv: "oms_inv s" "ids_ok s"
    and listed: "rest_get_signed E 0 ''/fapi/v1/openOrders'' [] = Some body" "dom_parse J body = Some doc"
    and rec: "oms_get s k = Some rec"
  shows "oms_get (snd (reconcile_open_orders J E steady s)) k =
     (if is_live (or_status rec) \<and> or_created_mono_ns rec < steady \<and> k \<notin> set (still_open_keys J doc)
      then answer_effect (lookup_answer J E
             (query_no (still_open_keys J doc) k 1 (get_stale_orders steady 0 s)) rec) (Some rec)
      else Some rec)"
proof -
  let ?live = "get_stale_orders steady 0 s" and ?ks = "still_open_keys J doc"
  have k: "rec_key rec = k" using inv(2) rec by (simp add: ids_ok_def)
  have s': "snd (reconcile_open_orders J E steady s) = snd (reconcile_loop J E ?ks 1 ?live s)"
    using listed by (simp add: reconcile_open_orders_def Let_def)
  have mem: "r \<in> set ?live \<longleftrightarrow> (\<exists>k. oms_get s k = Some r) \<and> is_live (or_status r) \<and> or_created_mono_ns r < steady" for r
    by (auto simp: get_stale_orders_def Let_def oms_get_index [OF inv(1)])
  show ?thesis
  proof (cases "rec \<in> set ?live \<and> k \<notin> set ?ks")
    case True
    with reconcile_loop_answered [OF inv(1) stale_keys_distinct [OF inv], of rec steady 0 ?ks J E 1]
    show ?thesis using k rec mem by (simp add: s')
  next
    case False
    moreover have "k \<notin> rec_key ` set ?live" if "rec \<notin> set ?live"
    proof
      assume "k \<in> rec_key ` set ?live"
      then obtain r where "r \<in> set ?live" "rec_key r = k" by auto
      with mem inv(2) rec that show False by (auto simp: ids_ok_def)
    qed
    ultimately show ?thesis
      using reconcile_loop_other [OF inv(1), of k ?live ?ks J E 1] rec mem by (auto simp: s')
  qed
qed

definition demo_rest :: rest_env where
  "demo_rest = \<lparr>rs_hmac = \<lambda>_ _. ''ab'', rs_secret = ''v'', rs_clock = \<lambda>_. 1, rs_now_ns = \<lambda>_. 9,
     rs_http = \<lambda>_ _. Some ''body''\<rparr>"

lemma demo_store:
  "oms_inv (oms_step (Register 0 5 ''h1'' ''BTCUSDT'' Buy 101 2) OMSCore)"
  "ids_ok (oms_step (Register 0 5 ''h1'' ''BTCUSDT'' Buy 101 2) OMSCore)"
  "oms_get (oms_step (Register 0 5 ''h1'' ''BTCUSDT'' Buy 101 2) OMSCore) (fnv1a64 ''h1'') =
     Some (new_record 0 5 ''h1'' ''BTCUSDT'' Buy 101 2)"
  using oms_step_store [OF OMSCore_inv, of "Register 0 5 ''h1'' ''BTCUSDT'' Buy 101 2"]
    rec_key_new [of "''h1''" 0 5 "''BTCUSDT''" Buy 101 2]
  by (auto simp: ids_ok_def)

theorem reconcile_exact_witness:
  "map_option or_status (oms_get (snd (reconcile_open_orders
      (demo_dom [''status'' \<mapsto> ''FILLED'', ''executedQty'' \<mapsto> ''2'', ''avgPrice'' \<mapsto> ''100'']) demo_rest 9
      (oms_step (Register 0 5 ''h1'' ''BTCUSDT'' Buy 101 2) OMSCore))) (fnv1a64 ''h1'')) = Some Filled"
proof -
  let ?J = "demo_dom [''status'' \<mapsto> ''FILLED'', ''executedQty'' \<mapsto> ''2'', ''avgPrice'' \<mapsto> ''100'']"
  let ?r = "new_record 0 5 ''h1'' ''BTCUSDT'' Buy 101 2"
  have J: "dom_parse ?J ''body'' = Some ()" "rest_get_signed demo_rest i p q = Some ''body''"
    "still_open_keys ?J () = []" "is_live (or_status ?r)" "or_created_mono_ns ?r < 9" for i p q
    by (simp_all add: demo_dom_def demo_rest_def rest_get_signed_def still_open_keys_def new_record_def is_live_def
        List.map_filter_simps)
  have "map_option or_status (answer_effect (lookup_answer ?J demo_rest i ?r) (Some ?r)) = Some Filled" for i
    by (simp add: lookup_answer_def J)
      (simp add: demo_dom_def map_status_def answer_effect_def update_record_def Let_def)
  with reconcile_exact [OF demo_store(1,2) J(2,1) demo_store(3), of 9] show ?thesis by (simp add: J)
qed

text \<open>
  The reconciled average price is right only for orders that had no earlier fill: the exchange
  reports the average over the whole order, which the store takes as the price of the missed part.
  When the reported quantity exceeds the known one, the stored average equals the reported one
  exactly if nothing was filled before or the averages already agreed.
\<close>

theorem reconciled_average:
  assumes "lookup_answer J E i rec = Some (Update k st cum avg ex ev com)"
    and "0 \<le> or_filled_qty rec" "or_filled_qty rec < cum" and "0 < avg"
  shows "map_option or_avg_fill_price (answer_effect (lookup_answer J E i rec) (Some rec)) = Some avg \<longleftrightarrow>
     or_filled_qty rec = 0 \<or> or_avg_fill_price rec = avg"
proof -
  let ?f = "or_filled_qty rec" and ?a = "or_avg_fill_price rec"
  have "map_option or_avg_fill_price (answer_effect (lookup_answer J E i rec) (Some rec)) =
      Some ((?a * ?f + avg * (cum - ?f)) / cum)"
    using assms by (simp add: answer_effect_def update_record_def Let_def)
  moreover have "(?a * ?f + avg * (cum - ?f)) / cum = avg \<longleftrightarrow> (?a - avg) * ?f = 0"
    using assms(2,3) by (simp add: divide_eq_eq algebra_simps)
  ultimately show ?thesis by auto
qed

theorem reconciled_average_witness:
  "let rec = (new_record 0 5 ''h1'' ''BTCUSDT'' Buy 101 2)\<lparr>or_filled_qty := 1, or_avg_fill_price := 100\<rparr>;
       J = demo_dom [''status'' \<mapsto> ''FILLED'', ''executedQty'' \<mapsto> ''2'', ''avgPrice'' \<mapsto> ''110'']
   in map_option or_avg_fill_price (answer_effect (lookup_answer J demo_rest 1 rec) (Some rec)) \<noteq> Some 110"
proof -
  let ?rec = "(new_record 0 5 ''h1'' ''BTCUSDT'' Buy 101 2)\<lparr>or_filled_qty := 1, or_avg_fill_price := 100\<rparr>"
  let ?J = "demo_dom [''status'' \<mapsto> ''FILLED'', ''executedQty'' \<mapsto> ''2'', ''avgPrice'' \<mapsto> ''110'']"
  have a: "lookup_answer ?J demo_rest 1 ?rec = Some (Update (rec_key ?rec) Filled 2 110 7 9 0)"
    by (simp add: lookup_answer_def demo_dom_def demo_rest_def rest_get_signed_def map_status_def
        sv_or_zero_def svtod_def sv_unsigned_def sv_exponent_def is_digit_def decimal_val_def digit_val_def)
  show ?thesis using reconciled_average [OF a] by simp
qed

section \<open>Listen keys and reconnects\<close>

lemma text_after_hit: "prefix pat t \<Longrightarrow> text_after pat t = Some (drop (length pat) t)"
  by (simp add: text_after.simps)

lemma text_after_skip:
  "\<forall>i < length pre. \<not> prefix pat (drop i (pre @ t)) \<Longrightarrow> text_after pat (pre @ t) = text_after pat t"
proof (induction pre)
  case (Cons c pre)
  have "\<not> prefix pat ((c # pre) @ t)" using Cons.prems by force
  moreover have "\<forall>i < length pre. \<not> prefix pat (drop i (pre @ t))"
    using Cons.prems by (metis Suc_less_eq append_Cons drop_Suc_Cons length_Cons)
  ultimately show ?case using Cons.IH by (subst text_after.simps) simp
qed simp

text \<open>
  The listen key is read as the exchange wrote it: in a response whose first \<open>listenKey\<close> member
  is a string without quotes, exactly that string is returned, and the stream is then opened under
  that key and no other, whatever key was set before. A response without the member makes the
  attempt fail and changes nothing.
\<close>

theorem listen_key_roundtrip:
  assumes "\<forall>i < length pre. \<not> prefix ''\"listenKey\":\"'' (drop i (pre @ ''\"listenKey\":\"'' @ key @ ''\"'' @ post))"
    and "CHR 0x22 \<notin> set key"
    and "cn_key_response C = Some (pre @ ''\"listenKey\":\"'' @ key @ ''\"'' @ post)"
    and "feed_run J C (set_listen_key old f) s = (ok, target, f', s')"
  shows "uf_listen_key f' = key \<and> (target = None \<or> target = Some (''/ws/'' @ key)) \<and>
     (target \<noteq> None \<longleftrightarrow> cn_connect C (''/ws/'' @ key))"
proof -
  have q: "takeWhile (\<lambda>c. c \<noteq> CHR 0x22) (key @ ''\"'' @ post) = key"
    using assms(2) by (induction key) auto
  have "fetch_fresh_listen_key (cn_key_response C) = Some key"
    unfolding assms(3) fetch_fresh_listen_key_def listen_key_of_def
    using text_after_skip [OF assms(1)] text_after_hit [of "''\"listenKey\":\"''"] q by simp
  then show ?thesis
    using assms(4) by (auto simp: feed_run_def Let_def split: if_splits prod.splits)
qed

theorem listen_key_roundtrip_witness:
  "\<exists>ok target f' s'. feed_run (demo_dom Map.empty)
      \<lparr>cn_key_response = Some ''{\"listenKey\":\"pq1\"}'', cn_connect = \<lambda>_. True, cn_rest = demo_rest,
       cn_steady = 9, cn_messages = []\<rparr>
      (set_listen_key ''old'' \<lparr>uf_listen_key = '''', uf_on_margin_call = False, uf_backoff = 200\<rparr>) OMSCore
      = (ok, target, f', s') \<and> uf_listen_key f' = ''pq1'' \<and> target = Some ''/ws/pq1''"
proof -
  let ?C = "\<lparr>cn_key_response = Some ''{\"listenKey\":\"pq1\"}'', cn_connect = \<lambda>_ :: string. True, cn_rest = demo_rest,
       cn_steady = 9, cn_messages = []\<rparr>"
  obtain ok target f' s' where r: "feed_run (demo_dom Map.empty) ?C
      (set_listen_key ''old'' \<lparr>uf_listen_key = '''', uf_on_margin_call = False, uf_backoff = 200\<rparr>) OMSCore
      = (ok, target, f', s')" by (metis prod_cases4)
  have "uf_listen_key f' = ''pq1'' \<and> (target = None \<or> target = Some (''/ws/'' @ ''pq1'')) \<and>
     (target \<noteq> None \<longleftrightarrow> cn_connect ?C (''/ws/'' @ ''pq1''))"
    by (rule listen_key_roundtrip [OF _ _ _ r, of "''{''" "''pq1''" "''}''"]) simp_all
  with r show ?thesis by auto
qed

text \<open>
  Reconnect delays: a round whose connection ended in the expiry of the key waits 200 ms and the
  next failure 400 ms; consecutive failures double the delay up to ten seconds.
\<close>

lemma backoff_round_delay:
  assumes "backoff_round J C f s = (delay, f', s')" and "200 \<le> uf_backoff f" "uf_backoff f \<le> 10000"
  shows "200 \<le> delay \<and> delay \<le> 10000 \<and> uf_backoff f' = min (2 * delay) 10000 \<and>
    delay = (if fst (feed_run J C f s) then 200 else uf_backoff f)"
proof -
  have "uf_backoff (fst (snd (snd (feed_run J C f s)))) = uf_backoff f"
    by (simp add: feed_run_def Let_def split: option.split prod.split)
  then show ?thesis using assms by (auto simp: backoff_round_def Let_def split: prod.splits)
qed

end
