(* ===== verification/Binance_Feed.thy ===== *)
theory Binance_Feed
  imports Ring_Buffer Lob_Core Latency_Trace "HOL-Library.Char_ord"
begin

text \<open>
  The market-data feed (\<open>net/binance_feed.hpp\<close>, symbol list \<open>net/symbols.hpp\<close>): routing of stream
  names to instruments, the price parser, and the handler that turns a depth message into book
  updates on the ring, with its counters and its handling of malformed messages.

  The record \<open>json_view\<close> is the interface of the JSON library the code calls: parsing a text, and
  viewing a value as an object, a string or an array; each of these throws when it does not apply,
  which is \<open>None\<close> here.
\<close>

record 'v json_view =
  jv_parse :: "string \<Rightarrow> 'v option"
  jv_object :: "'v \<Rightarrow> (string \<Rightarrow> 'v option) option"
  jv_string :: "'v \<Rightarrow> string option"
  jv_array :: "'v \<Rightarrow> 'v list option"

section \<open>Instruments and prices\<close>

definition k_feed_n_instruments :: nat where "k_feed_n_instruments = 4"

definition k_symbols :: "string list" where
  "k_symbols = [''btcusdt'', ''ethusdt'', ''solusdt'', ''bnbusdt'']"

definition k_symbols_upper :: "string list" where
  "k_symbols_upper = [''BTCUSDT'', ''ETHUSDT'', ''SOLUSDT'', ''BNBUSDT'']"

definition instrument_id_from_stream :: "string \<Rightarrow> u32" where
  "instrument_id_from_stream s =
     (if length s \<ge> 6 then
        (if take 3 s = ''btc'' then 0
         else if take 3 s = ''eth'' then 1
         else if take 3 s = ''sol'' then 2
         else if take 3 s = ''bnb'' then 3
         else 4294967295)
      else 4294967295)"

fun price_loop :: "flt \<Rightarrow> bool \<Rightarrow> flt \<Rightarrow> string \<Rightarrow> flt" where
  "price_loop result dot fac [] = result"
| "price_loop result dot fac (c # cs) =
     (if is_digit c then
        (if \<not> dot then price_loop (result * 10 + real (digit_val c)) dot fac cs
         else price_loop (result + real (digit_val c) * fac) dot (fac * (1 / 10)) cs)
      else if c = CHR ''.'' then price_loop result True fac cs
      else result)"

definition parse_price :: "string \<Rightarrow> flt" where
  "parse_price sv = price_loop 0 False (1 / 10) sv"

definition build_path :: string where
  "build_path = ''/stream?streams='' @
     concat (map (\<lambda>i. (if i > 0 then ''/'' else []) @ k_symbols ! i @ ''@depth5@100ms'')
       [0..<k_feed_n_instruments])"

section \<open>The handler\<close>

record FeedMetrics =
  fm_msgs_received :: u64
  fm_msgs_dropped :: u64
  fm_parse_errors :: u64
  fm_reconnects :: u64
  fm_per_instrument_msgs :: "u64 list"

definition new_feed_metrics :: FeedMetrics where
  "new_feed_metrics = \<lparr>fm_msgs_received = 0, fm_msgs_dropped = 0, fm_parse_errors = 0, fm_reconnects = 0,
     fm_per_instrument_msgs = replicate k_feed_n_instruments 0\<rparr>"

record feed =
  fd_ring :: "LobUpdate ring"
  fd_metrics :: FeedMetrics
  fd_latency :: "histogram list"

definition level_update :: "u64 \<Rightarrow> u32 \<Rightarrow> BookSide \<Rightarrow> nat \<Rightarrow> string \<Rightarrow> string \<Rightarrow> LobUpdate" where
  "level_update ts instr side lvl price qty =
     \<lparr>lu_timestamp_ns = ts, lu_price = parse_price price, lu_quantity = parse_price qty,
      lu_instrument_id = instr, lu_depth_level = word_of_nat lvl, lu_side = side\<rparr>"

definition enqueue :: "LobUpdate \<Rightarrow> feed \<Rightarrow> feed" where
  "enqueue u f =
     (case try_push u (fd_ring f) of (ok, r) \<Rightarrow>
        let f1 = f\<lparr>fd_ring := r\<rparr>
        in if ok then f1
           else f1\<lparr>fd_metrics := (fd_metrics f1)\<lparr>fm_msgs_dropped := fm_msgs_dropped (fd_metrics f1) + 1\<rparr>\<rparr>)"

text \<open>The loop over the levels of one side; the flag tells whether it ended without an exception.\<close>

fun level_loop ::
    "'v json_view \<Rightarrow> u64 \<Rightarrow> u32 \<Rightarrow> BookSide \<Rightarrow> nat \<Rightarrow> 'v list \<Rightarrow> feed \<Rightarrow> bool \<times> feed" where
  "level_loop J ts instr side lvl [] f = (True, f)"
| "level_loop J ts instr side lvl (v # vs) f =
     (case jv_array J v of
        None \<Rightarrow> (False, f)
      | Some entry \<Rightarrow>
          if length entry < 2 then level_loop J ts instr side (Suc lvl) vs f
          else (case (jv_string J (entry ! 0), jv_string J (entry ! 1)) of
                  (Some p, Some q) \<Rightarrow>
                    level_loop J ts instr side (Suc lvl) vs (enqueue (level_update ts instr side lvl p q) f)
                | _ \<Rightarrow> (False, f)))"

definition push_levels ::
    "'v json_view \<Rightarrow> u64 \<Rightarrow> u32 \<Rightarrow> BookSide \<Rightarrow> 'v \<Rightarrow> feed \<Rightarrow> bool \<times> feed" where
  "push_levels J ts instr side v f =
     (case jv_array J v of
        None \<Rightarrow> (False, f)
      | Some levels \<Rightarrow> level_loop J ts instr side 0 (take k_max_depth levels) f)"

definition count_message :: "u32 \<Rightarrow> feed \<Rightarrow> feed" where
  "count_message instr f =
     (let m = fd_metrics f; i = unat instr
      in f\<lparr>fd_metrics := m\<lparr>fm_msgs_received := fm_msgs_received m + 1,
             fm_per_instrument_msgs := (fm_per_instrument_msgs m)[i := fm_per_instrument_msgs m ! i + 1]\<rparr>\<rparr>)"

definition parse_error :: "feed \<Rightarrow> feed" where
  "parse_error f = f\<lparr>fd_metrics := (fd_metrics f)\<lparr>fm_parse_errors := fm_parse_errors (fd_metrics f) + 1\<rparr>\<rparr>"

text \<open>\<open>ts\<close> is the clock reading of the update, \<open>t_done\<close> the one at the end, \<open>t_recv\<close> that of the receipt.\<close>

definition parse_and_enqueue :: "'v json_view \<Rightarrow> u64 \<Rightarrow> u64 \<Rightarrow> string \<Rightarrow> u64 \<Rightarrow> feed \<Rightarrow> feed" where
  "parse_and_enqueue J ts t_done raw t_recv f =
     (case Option.bind (jv_parse J raw) (jv_object J) of
        None \<Rightarrow> parse_error f
      | Some obj \<Rightarrow>
          (case (obj ''stream'', obj ''data'') of
             (Some sv, Some dv) \<Rightarrow>
               (case jv_string J sv of
                  None \<Rightarrow> parse_error f
                | Some stream_name \<Rightarrow>
                    let instr = instrument_id_from_stream stream_name
                    in if unat instr \<ge> k_feed_n_instruments then f
                       else (case jv_object J dv of
                               None \<Rightarrow> parse_error f
                             | Some data \<Rightarrow>
                                 (case (data ''b'', data ''a'') of
                                    (Some bv, Some av) \<Rightarrow>
                                      (case push_levels J ts instr Bid bv (count_message instr f) of
                                         (ok1, f1) \<Rightarrow>
                                           if \<not> ok1 then parse_error f1
                                           else (case push_levels J ts instr Ask av f1 of
                                                   (ok2, f2) \<Rightarrow>
                                                     if \<not> ok2 then parse_error f2
                                                     else f2\<lparr>fd_latency :=
                                                            record_stage WsRecvToRingPush (t_done - t_recv) (fd_latency f2)\<rparr>))
                                  | _ \<Rightarrow> f)))
           | _ \<Rightarrow> f))"

text \<open>
  The stream of one connection and the reconnect loop of the worker thread. A connection attempt is
  the messages read, with their clock readings, and whether it ended with an exception; the list of
  attempts ends when shutdown is requested. The result lists the pauses in seconds.
\<close>

definition connect_and_stream :: "'v json_view \<Rightarrow> (u64 \<times> u64 \<times> string \<times> u64) list \<Rightarrow> feed \<Rightarrow> feed" where
  "connect_and_stream J msgs f =
     fold (\<lambda>(ts, t_done, raw, t_recv). parse_and_enqueue J ts t_done raw t_recv) msgs f"

fun run_loop :: "'v json_view \<Rightarrow> ((u64 \<times> u64 \<times> string \<times> u64) list \<times> bool) list \<Rightarrow> feed \<Rightarrow> nat list \<times> feed" where
  "run_loop J [] f = ([], f)"
| "run_loop J ((msgs, threw) # rest) f =
     (let f1 = connect_and_stream J msgs f;
          f2 = (if threw then f1\<lparr>fd_metrics := (fd_metrics f1)\<lparr>fm_reconnects := fm_reconnects (fd_metrics f1) + 1\<rparr>\<rparr> else f1)
      in if rest = [] then ([], f2)
         else (case run_loop J rest f2 of (pauses, f3) \<Rightarrow> (2 # pauses, f3)))"

section \<open>Routing and prices\<close>

text \<open>
  Every subscribed stream is routed to its own instrument: a stream name that starts with the
  i-th symbol of the subscription maps to instrument i, the subscription path asks for exactly the
  symbols of the table, and the upper-case table lists the same symbols in the same order.
\<close>

theorem stream_routing:
  assumes "i < k_feed_n_instruments"
  shows "instrument_id_from_stream (k_symbols ! i @ rest) = word_of_nat i \<and>
     length k_symbols = k_feed_n_instruments \<and>
     build_path = ''/stream?streams=btcusdt@depth5@100ms/ethusdt@depth5@100ms/solusdt@depth5@100ms/bnbusdt@depth5@100ms'' \<and>
     map (map (\<lambda>c. if CHR ''a'' \<le> c \<and> c \<le> CHR ''z'' then char_of (of_char c - 32 :: nat) else c)) k_symbols = k_symbols_upper"
proof -
  have "i = 0 \<or> i = 1 \<or> i = 2 \<or> i = 3" using assms by (auto simp: k_feed_n_instruments_def)
  moreover have "map (map (\<lambda>c. if CHR ''a'' \<le> c \<and> c \<le> CHR ''z'' then char_of (of_char c - 32 :: nat) else c)) k_symbols = k_symbols_upper"
    by code_simp
  moreover have "build_path = ''/stream?streams=btcusdt@depth5@100ms/ethusdt@depth5@100ms/solusdt@depth5@100ms/bnbusdt@depth5@100ms''"
    by code_simp
  ultimately show ?thesis
    by (auto simp: k_symbols_def instrument_id_from_stream_def k_feed_n_instruments_def)
qed

lemma price_loop_whole:
  "\<forall>c \<in> set ds. is_digit c \<Longrightarrow>
     price_loop (real a) False k (ds @ rest) = price_loop (real (foldl (\<lambda>a c. a * 10 + digit_val c) a ds)) False k rest"
proof (induction ds arbitrary: a)
  case (Cons c ds)
  from Cons.IH [of "a * 10 + digit_val c"] Cons.prems show ?case by simp
qed simp

lemma price_loop_fraction:
  "\<forall>c \<in> set ds. is_digit c \<Longrightarrow> price_loop a True k ds = a + 10 * k * frac_val ds"
proof (induction ds arbitrary: a k)
  case (Cons c ds)
  from Cons.IH [of "a + real (digit_val c) * k" "k * (1 / 10)"] Cons.prems show ?case
    by (simp add: algebra_simps)
qed simp

text \<open>A decimal is read as its value.\<close>

lemma parse_price_decimal:
  assumes "\<forall>c \<in> set ds. is_digit c"
  shows "parse_price (to_string n @ ''.'' @ ds) = real n + frac_val ds"
    and "parse_price (to_string n) = real n"
proof -
  have w: "price_loop 0 False (1 / 10) (to_string n @ rest) = price_loop (real n) False (1 / 10) rest" for rest
    using price_loop_whole [OF to_string_digits, of 0 "1 / 10" n rest] decimal_val_to_string [of n]
    by (simp add: decimal_val_def)
  have "\<not> is_digit (CHR ''.'')" by (simp add: is_digit_def)
  with w [of "''.'' @ ds"] show "parse_price (to_string n @ ''.'' @ ds) = real n + frac_val ds"
    by (simp add: parse_price_def price_loop_fraction [OF assms])
  from w [of "[]"] show "parse_price (to_string n) = real n" by (simp add: parse_price_def)
qed

section \<open>Updates on the ring\<close>

definition feed_room :: "feed \<Rightarrow> nat" where
  "feed_room f = slot_count (fd_ring f) - 1 - length (ring_list (fd_ring f))"

lemma enqueue_step:
  assumes "ring_ok (fd_ring f)"
  shows "ring_ok (fd_ring (enqueue u f)) \<and> slot_count (fd_ring (enqueue u f)) = slot_count (fd_ring f) \<and>
    ring_list (fd_ring (enqueue u f)) = ring_list (fd_ring f) @ (if 0 < feed_room f then [u] else []) \<and>
    feed_room (enqueue u f) = feed_room f - 1 \<and> fd_latency (enqueue u f) = fd_latency f \<and>
    fd_metrics (enqueue u f) = (if 0 < feed_room f then fd_metrics f
      else (fd_metrics f)\<lparr>fm_msgs_dropped := fm_msgs_dropped (fd_metrics f) + 1\<rparr>)"
proof -
  obtain ok r where p: "try_push u (fd_ring f) = (ok, r)" by fastforce
  note c = dyn_ring.push_cases [OF assms p]
  have sc: "slot_count r = slot_count (fd_ring f)"
    using p by (auto simp: try_push_def slot_count_def Let_def split: if_splits)
  show ?thesis
    using c p sc by (auto simp: enqueue_def feed_room_def Let_def simp del: length_ring_list split: if_splits)
qed

lemma enqueue_run:
  assumes "ring_ok (fd_ring f)"
  shows "ring_ok (fd_ring (fold enqueue us f)) \<and>
    ring_list (fd_ring (fold enqueue us f)) = ring_list (fd_ring f) @ take (feed_room f) us \<and>
    feed_room (fold enqueue us f) = feed_room f - length us \<and> fd_latency (fold enqueue us f) = fd_latency f \<and>
    fd_metrics (fold enqueue us f) = (fd_metrics f)\<lparr>fm_msgs_dropped :=
      fm_msgs_dropped (fd_metrics f) + word_of_nat (length us - feed_room f)\<rparr>"
  using assms
proof (induction us arbitrary: f)
  case (Cons u us)
  note st = enqueue_step [OF Cons.prems, of u]
  from Cons.IH [OF conjunct1 [OF st]] st show ?case
    by (cases "feed_room f") (auto simp: add.assoc)
qed simp

text \<open>A level as the message writes it: an array whose first two members are strings.\<close>

definition level_text :: "'v json_view \<Rightarrow> 'v \<Rightarrow> (string \<times> string) option" where
  "level_text J v =
     (case jv_array J v of
        Some (a # b # _) \<Rightarrow>
          (case (jv_string J a, jv_string J b) of (Some p, Some q) \<Rightarrow> Some (p, q) | _ \<Rightarrow> None)
      | _ \<Rightarrow> None)"

definition side_updates :: "u64 \<Rightarrow> u32 \<Rightarrow> BookSide \<Rightarrow> nat \<Rightarrow> (string \<times> string) list \<Rightarrow> LobUpdate list" where
  "side_updates ts instr side lvl ls =
     map (\<lambda>(i, p, q). level_update ts instr side i p q) (enumerate lvl ls)"

lemma level_loop_complete:
  "map (level_text J) vs = map Some ls \<Longrightarrow>
     level_loop J ts instr side lvl vs f = (True, fold enqueue (side_updates ts instr side lvl ls) f)"
proof (induction vs arbitrary: ls lvl f)
  case (Cons v vs)
  then obtain p q ls' where ls: "ls = (p, q) # ls'" "level_text J v = Some (p, q)"
      "map (level_text J) vs = map Some ls'"
    by (cases ls) auto
  from ls(2) show ?case
    using Cons.IH [OF ls(3)]
    by (auto simp: ls(1) level_text_def side_updates_def split: option.splits list.splits)
qed (simp add: side_updates_def)

text \<open>
  A depth message: the stream name and, for both sides, the levels as text. At most \<open>k_max_depth\<close>
  levels of a side are read.
\<close>

definition depth_message ::
    "'v json_view \<Rightarrow> string \<Rightarrow> string \<Rightarrow> (string \<times> string) list \<Rightarrow> (string \<times> string) list \<Rightarrow> bool" where
  "depth_message J raw stream bids asks \<longleftrightarrow>
     (\<exists>obj sv dv data bv av bs as.
        Option.bind (jv_parse J raw) (jv_object J) = Some obj \<and>
        obj ''stream'' = Some sv \<and> jv_string J sv = Some stream \<and>
        obj ''data'' = Some dv \<and> jv_object J dv = Some data \<and>
        data ''b'' = Some bv \<and> jv_array J bv = Some bs \<and> map (level_text J) bs = map Some bids \<and>
        data ''a'' = Some av \<and> jv_array J av = Some as \<and> map (level_text J) as = map Some asks)"

definition message_updates ::
    "u64 \<Rightarrow> u32 \<Rightarrow> (string \<times> string) list \<Rightarrow> (string \<times> string) list \<Rightarrow> LobUpdate list" where
  "message_updates ts instr bids asks =
     side_updates ts instr Bid 0 (take k_max_depth bids) @ side_updates ts instr Ask 0 (take k_max_depth asks)"

lemma push_levels_complete:
  assumes "jv_array J v = Some vs" and "map (level_text J) vs = map Some ls"
  shows "push_levels J ts instr side v f = (True, fold enqueue (side_updates ts instr side 0 (take k_max_depth ls)) f)"
proof -
  have "map (level_text J) (take k_max_depth vs) = map Some (take k_max_depth ls)"
    using assms(2) by (simp flip: take_map)
  from level_loop_complete [OF this] show ?thesis by (simp add: push_levels_def assms(1))
qed

lemma parse_and_enqueue_complete:
  assumes "depth_message J raw stream bids asks"
    and "unat (instrument_id_from_stream stream) < k_feed_n_instruments"
  shows "parse_and_enqueue J ts t_done raw t_recv f =
     (let instr = instrument_id_from_stream stream;
          f' = fold enqueue (message_updates ts instr bids asks) (count_message instr f)
      in f'\<lparr>fd_latency := record_stage WsRecvToRingPush (t_done - t_recv) (fd_latency f')\<rparr>)"
  using assms unfolding depth_message_def
  by (auto simp: parse_and_enqueue_def push_levels_complete message_updates_def Let_def)

text \<open>
  A depth message becomes book updates: for a message on a subscribed stream, the handler appends
  to the ring, in order, one update per level (best first, bids before asks, at most sixteen per side)
  with the parsed price and quantity, as far as the ring has room; each update that does not fit is
  counted as dropped, the message is counted once in total and once for its instrument, and no
  parse error is counted.
\<close>

theorem depth_message_enqueued:
  assumes "depth_message J raw stream bids asks"
    and "instrument_id_from_stream stream = instr" "unat instr < k_feed_n_instruments"
    and "ring_ok (fd_ring f)" and "f' = parse_and_enqueue J ts t_done raw t_recv f"
  shows "ring_ok (fd_ring f') \<and>
     ring_list (fd_ring f') = ring_list (fd_ring f) @ take (feed_room f) (message_updates ts instr bids asks) \<and>
     fm_msgs_dropped (fd_metrics f') = fm_msgs_dropped (fd_metrics f) +
       word_of_nat (length (message_updates ts instr bids asks) - feed_room f) \<and>
     fm_msgs_received (fd_metrics f') = fm_msgs_received (fd_metrics f) + 1 \<and>
     fm_per_instrument_msgs (fd_metrics f') = (fm_per_instrument_msgs (fd_metrics f))
       [unat instr := fm_per_instrument_msgs (fd_metrics f) ! unat instr + 1] \<and>
     fm_parse_errors (fd_metrics f') = fm_parse_errors (fd_metrics f)"
proof -
  have c: "fd_ring (count_message instr f) = fd_ring f" "feed_room (count_message instr f) = feed_room f"
    by (simp_all add: count_message_def feed_room_def Let_def)
  have "f' = (let f1 = fold enqueue (message_updates ts instr bids asks) (count_message instr f)
      in f1\<lparr>fd_latency := record_stage WsRecvToRingPush (t_done - t_recv) (fd_latency f1)\<rparr>)"
    using parse_and_enqueue_complete [OF assms(1)] assms(2,3,5) by (simp add: Let_def)
  then show ?thesis
    using enqueue_run [of "count_message instr f" "message_updates ts instr bids asks"] assms(4) c
    by (simp add: Let_def count_message_def)
qed

section \<open>Arbitrary messages\<close>

definition in_feed_range :: "LobUpdate \<Rightarrow> bool" where
  "in_feed_range u \<longleftrightarrow> unat (lu_instrument_id u) < k_feed_n_instruments \<and> unat (lu_depth_level u) < k_max_depth"

definition extends_ring :: "feed \<Rightarrow> feed \<Rightarrow> bool" where
  "extends_ring f f' \<longleftrightarrow> ring_ok (fd_ring f') \<and>
     (\<exists>us. (\<forall>u \<in> set us. in_feed_range u) \<and> ring_list (fd_ring f') = ring_list (fd_ring f) @ us)"

lemma extends_ring_refl: "ring_ok (fd_ring f) \<Longrightarrow> extends_ring f f"
  by (auto simp: extends_ring_def intro: exI [of _ "[]"])

lemma extends_ring_trans: "extends_ring f g \<Longrightarrow> extends_ring g h \<Longrightarrow> extends_ring f h"
  unfolding extends_ring_def by (metis Un_iff append.assoc set_append)

lemma extends_ring_cong:
  "fd_ring g = fd_ring g' \<Longrightarrow> extends_ring f g = extends_ring f g'"
  "fd_ring f = fd_ring f' \<Longrightarrow> extends_ring f g = extends_ring f' g"
  by (simp_all add: extends_ring_def)

lemma enqueue_extends: "ring_ok (fd_ring f) \<Longrightarrow> in_feed_range u \<Longrightarrow> extends_ring f (enqueue u f)"
  using enqueue_step [of f u] by (auto simp: extends_ring_def)

lemma level_update_range:
  "unat instr < k_feed_n_instruments \<Longrightarrow> lvl < k_max_depth \<Longrightarrow> in_feed_range (level_update ts instr side lvl p q)"
  by (simp add: in_feed_range_def level_update_def k_max_depth_def unsigned_of_nat take_bit_nat_eq_self)

lemma level_loop_extends:
  "unat instr < k_feed_n_instruments \<Longrightarrow> lvl + length vs \<le> k_max_depth \<Longrightarrow> ring_ok (fd_ring f) \<Longrightarrow>
     extends_ring f (snd (level_loop J ts instr side lvl vs f))"
proof (induction vs arbitrary: lvl f)
  case (Cons v vs)
  have next_level: "extends_ring f (snd (level_loop J ts instr side (Suc lvl) vs f'))"
    if "extends_ring f f'" for f'
  proof -
    have "ring_ok (fd_ring f')" using that by (simp add: extends_ring_def)
    from extends_ring_trans [OF that Cons.IH [OF _ _ this]] Cons.prems show ?thesis by simp
  qed
  show ?case
    using next_level [OF extends_ring_refl] next_level [OF enqueue_extends [OF _ level_update_range]] Cons.prems
      extends_ring_refl
    by (auto split: option.split)
qed (simp add: extends_ring_refl)

lemma push_levels_extends:
  assumes "unat instr < k_feed_n_instruments" and "ring_ok (fd_ring f)"
  shows "extends_ring f (snd (push_levels J ts instr side v f))"
  by (cases "jv_array J v") (simp_all add: push_levels_def level_loop_extends extends_ring_refl assms)

lemma parse_and_enqueue_extends:
  assumes "ring_ok (fd_ring f)"
  shows "extends_ring f (parse_and_enqueue J ts t_done raw t_recv f)"
proof -
  note refl = extends_ring_refl [OF assms]
  have pe: "extends_ring f (parse_error g) = extends_ring f g"
    "extends_ring f (g\<lparr>fd_latency := h\<rparr>) = extends_ring f g" for g h
    by (rule extends_ring_cong, simp add: parse_error_def)+
  have levels: "extends_ring f g1 \<and> extends_ring f g2"
    if "unat instr < k_feed_n_instruments" "push_levels J ts instr Bid bv (count_message instr f) = (ok1, g1)"
      "push_levels J ts instr Ask av g1 = (ok2, g2)" for instr bv av ok1 g1 ok2 g2
  proof -
    have "fd_ring (count_message instr f) = fd_ring f" by (simp add: count_message_def Let_def)
    then have "extends_ring f g1"
      using push_levels_extends [OF that(1), of "count_message instr f" J ts Bid bv] that(2) assms
        extends_ring_cong(2) [of f "count_message instr f"] by simp
    moreover from this have "extends_ring g1 g2"
      using push_levels_extends [OF that(1), of g1 J ts Ask av] that(3) by (simp add: extends_ring_def)
    ultimately show ?thesis using extends_ring_trans by blast
  qed
  show ?thesis
    using levels refl
    by (simp add: parse_and_enqueue_def pe Let_def not_le split: option.split prod.split)
qed

lemma run_loop_extends:
  "ring_ok (fd_ring f) \<Longrightarrow> extends_ring f (snd (run_loop J attempts f))"
proof (induction attempts arbitrary: f)
  case (Cons a attempts)
  obtain msgs threw where a: "a = (msgs, threw)" by fastforce
  have "extends_ring f (connect_and_stream J msgs f)" if "ring_ok (fd_ring f)" for f
    using that unfolding connect_and_stream_def
  proof (induction msgs arbitrary: f)
    case (Cons m msgs)
    obtain ts td raw tr where m: "m = (ts, td, raw, tr)" by (metis prod_cases4)
    have e: "extends_ring f (parse_and_enqueue J ts td raw tr f)"
      by (rule parse_and_enqueue_extends [OF Cons.prems])
    then show ?case
      using extends_ring_trans [OF e Cons.IH] by (simp add: m extends_ring_def)
  qed (simp add: extends_ring_refl)
  from this [OF Cons.prems]
  have e: "extends_ring f (let f1 = connect_and_stream J msgs f in
      if threw then f1\<lparr>fd_metrics := (fd_metrics f1)\<lparr>fm_reconnects := fm_reconnects (fd_metrics f1) + 1\<rparr>\<rparr> else f1)"
    (is "extends_ring f ?f2") by (simp add: extends_ring_def Let_def)
  then have "ring_ok (fd_ring ?f2)" by (simp add: extends_ring_def)
  from extends_ring_trans [OF e Cons.IH [OF this]] e show ?case
    by (cases threw) (auto simp: a Let_def split: prod.split)
qed (simp add: extends_ring_refl)

text \<open>
  No input can push garbage: whatever texts the connections deliver (unparsable, with missing or
  ill-typed members, for unknown streams, cut short by exceptions and reconnects), the worker only
  ever appends to the ring, keeps it well formed, and every update it appends addresses one of the
  four instruments and one of the sixteen depth levels the book can hold.
\<close>

theorem feed_appends_in_range:
  assumes "ring_ok (fd_ring f)" and "run_loop J attempts f = (pauses, f')"
  shows "ring_ok (fd_ring f') \<and> (\<exists>us. ring_list (fd_ring f') = ring_list (fd_ring f) @ us \<and>
     (\<forall>u \<in> set us. unat (lu_instrument_id u) < k_feed_n_instruments \<and> unat (lu_depth_level u) < k_max_depth))"
  using run_loop_extends [OF assms(1), of J attempts] assms(2)
  by (simp add: extends_ring_def in_feed_range_def conj_commute)

section \<open>From the wire to the book\<close>

lemma last_update_side:
  "\<forall>u \<in> set us. lu_side u \<noteq> side \<Longrightarrow> last_update (side, i, d) us = None"
  by (induction us) (auto simp: update_key_def)

lemma last_update_append:
  "last_update k (us @ vs) = (case last_update k vs of None \<Rightarrow> last_update k us | Some v \<Rightarrow> Some v)"
  by (induction us) (auto split: option.splits)

lemma last_update_levels:
  assumes "lvl + length ls \<le> k_max_depth"
  shows "last_update (side, unat instr, d) (side_updates ts instr side lvl ls) =
     (if lvl \<le> d \<and> d < lvl + length ls
      then Some (level_update ts instr side d (fst (ls ! (d - lvl))) (snd (ls ! (d - lvl)))) else None)"
  using assms
proof (induction ls arbitrary: lvl)
  case (Cons l ls)
  have k: "update_key (level_update ts instr side lvl p q) = (side, unat instr, lvl)" for p q
    using Cons.prems
    by (simp add: update_key_def level_update_def k_max_depth_def unsigned_of_nat take_bit_nat_eq_self)
  obtain p q where l: "l = (p, q)" by fastforce
  have c: "side_updates ts instr side lvl ((p, q) # ls) =
      level_update ts instr side lvl p q # side_updates ts instr side (Suc lvl) ls"
    by (simp add: side_updates_def)
  have "last_update (side, unat instr, d) (side_updates ts instr side (Suc lvl) ls) =
     (if Suc lvl \<le> d \<and> d < Suc lvl + length ls
      then Some (level_update ts instr side d (fst (ls ! (d - Suc lvl))) (snd (ls ! (d - Suc lvl)))) else None)"
    using Cons.IH [of "Suc lvl"] Cons.prems by simp
  then show ?case
    by (cases "d = lvl"; cases "Suc lvl \<le> d")
      (auto simp: c k l nth_Cons' Suc_diff_le split: option.split)
qed (simp add: side_updates_def)

lemma side_updates_side: "u \<in> set (side_updates ts instr side lvl ls) \<Longrightarrow> lu_side u = side"
  by (auto simp: side_updates_def level_update_def)

lemma last_update_message:
  "last_update (side, unat instr, d) (message_updates ts instr bids asks) =
     (let ls = (case side of Bid \<Rightarrow> bids | Ask \<Rightarrow> asks)
      in if d < min k_max_depth (length ls)
         then Some (level_update ts instr side d (fst (ls ! d)) (snd (ls ! d))) else None)"
proof -
  have other: "last_update (Bid, unat instr, d) (side_updates ts instr Ask 0 ls) = None"
    "last_update (Ask, unat instr, d) (side_updates ts instr Bid 0 ls) = None" for ls
    by (rule last_update_side, use side_updates_side in fastforce)+
  show ?thesis
    using last_update_levels [of 0 "take k_max_depth bids" Bid instr d ts]
      last_update_levels [of 0 "take k_max_depth asks" Ask instr d ts]
    by (cases side) (auto simp: message_updates_def last_update_append other Let_def)
qed

text \<open>
  (C31) What the exchange quotes is what the book shows: when the ring was empty and has room for the
  message, applying to the book everything that is then popped from the ring leaves every level that
  the message quotes at the quoted price and quantity, and every other level of the book as it was.
\<close>

theorem feed_to_book:
  assumes msg: "depth_message J raw stream bids asks"
    and instr: "instrument_id_from_stream stream = instr" "unat instr < k_feed_n_instruments"
    and ring: "ring_ok (fd_ring f)" "ring_list (fd_ring f) = []" "32 \<le> feed_room f"
    and book: "lob_ok book"
    and f': "f' = parse_and_enqueue J ts t_done raw t_recv f"
  shows "level (fold apply_lob (ring_list (fd_ring f')) book) (side, i, d) =
     (let ls = (case side of Bid \<Rightarrow> bids | Ask \<Rightarrow> asks)
      in if i = unat instr \<and> d < min k_max_depth (length ls) \<and> in_book book i d
         then Some (parse_price (fst (ls ! d)), parse_price (snd (ls ! d))) else level book (side, i, d))"
proof -
  let ?us = "message_updates ts instr bids asks"
  have "length ?us \<le> 32" by (simp add: message_updates_def side_updates_def k_max_depth_def)
  then have us: "ring_list (fd_ring f') = ?us"
    using parse_and_enqueue_complete [OF msg, of ts t_done t_recv f] instr ring
      enqueue_run [of "count_message instr f" ?us]
    by (simp add: f' Let_def count_message_def feed_room_def)
  note run = lob_store.run_lookup [OF book, of ?us "(side, i, d)"]
  have key: "i = unat instr" if "u \<in> set ?us" "update_key u = (side, i, d)" for u
    using that by (auto simp: message_updates_def side_updates_def level_update_def update_key_def)
  show ?thesis
  proof (cases "i = unat instr \<and> in_book book i d")
    case True
    then obtain r where "level book (side, i, d) = Some r" by (cases side) (auto simp: level_def Let_def)
    with run show ?thesis
      using True by (auto simp: us fold_update_effect last_update_message level_update_def Let_def)
  next
    case False
    show ?thesis
    proof (cases "i = unat instr")
      case True
      with False have "level book (side, i, d) = None" by (simp add: level_def)
      moreover have "fold update_effect xs None = None" for xs
        by (induction xs) (simp_all add: update_effect_def)
      ultimately show ?thesis using run False True by (auto simp: us Let_def)
    next
      case other: False
      with key have "filter (\<lambda>u. update_key u = (side, i, d)) ?us = []" by (auto simp: filter_empty_conv)
      with run other show ?thesis by (auto simp: us Let_def)
    qed
  qed
qed

text \<open>A message with one bid and one ask level, and a feed with a ring of 64 slots.\<close>

datatype demo_json = DStr string | DArr "demo_json list" | DObj "(string \<times> demo_json) list"

definition demo_view :: "demo_json json_view" where
  "demo_view = \<lparr>jv_parse = \<lambda>_. Some (DObj [(''stream'', DStr ''ethusdt@depth5@100ms''),
        (''data'', DObj [(''b'', DArr [DArr [DStr ''99.5'', DStr ''2'']]), (''a'', DArr [DArr [DStr ''101'', DStr ''3'']])])]),
     jv_object = \<lambda>v. case v of DObj ms \<Rightarrow> Some (map_of ms) | _ \<Rightarrow> None,
     jv_string = \<lambda>v. case v of DStr t \<Rightarrow> Some t | _ \<Rightarrow> None,
     jv_array = \<lambda>v. case v of DArr vs \<Rightarrow> Some vs | _ \<Rightarrow> None\<rparr>"

definition demo_feed :: feed where
  "demo_feed = \<lparr>fd_ring = \<lparr>rb_capacity = 64, rb_mask = 63, rb_slots = replicate 64 (level_update 0 0 Bid 0 [] []),
      rb_head = 0, rb_tail = 0\<rparr>, fd_metrics = new_feed_metrics, fd_latency = LatencyHistogram\<rparr>"

lemma demo_feed_ok: "ring_ok (fd_ring demo_feed)" "ring_list (fd_ring demo_feed) = []" "feed_room demo_feed = 63"
  by (simp_all add: demo_feed_def ring_ok_def ring_list_def ring_len_def slot_count_def feed_room_def
      exI [of _ 6])

lemma demo_message: "depth_message demo_view raw ''ethusdt@depth5@100ms'' [(''99.5'', ''2'')] [(''101'', ''3'')]"
  by (simp add: depth_message_def demo_view_def level_text_def)

lemma demo_instrument: "instrument_id_from_stream ''ethusdt@depth5@100ms'' = 1" "unat (1 :: u32) < k_feed_n_instruments"
  by (simp_all add: instrument_id_from_stream_def k_feed_n_instruments_def)

theorem feed_appends_in_range_witness:
  "\<exists>pauses f'. run_loop demo_view [([(5, 7, ''x'', 6)], True), ([(8, 9, ''y'', 8)], False)] demo_feed = (pauses, f') \<and>
     ring_ok (fd_ring f') \<and> (\<exists>us. ring_list (fd_ring f') = ring_list (fd_ring demo_feed) @ us \<and>
        (\<forall>u \<in> set us. unat (lu_instrument_id u) < k_feed_n_instruments \<and> unat (lu_depth_level u) < k_max_depth))"
proof -
  obtain pauses f' where r:
    "run_loop demo_view [([(5, 7, ''x'', 6)], True), ([(8, 9, ''y'', 8)], False)] demo_feed = (pauses, f')"
    by fastforce
  from feed_appends_in_range [OF demo_feed_ok(1) r] r show ?thesis by simp
qed

theorem feed_to_book_witness:
  "\<exists>book a'. LobSoA (MemoryArena 4096 65536) 4 16 = Some (book, a') \<and>
     level (fold apply_lob (ring_list (fd_ring (parse_and_enqueue demo_view 5 7 ''x'' 6 demo_feed))) book) (Bid, 1, 0)
       = Some (parse_price ''99.5'', parse_price ''2'')"
proof -
  obtain book a' where new: "LobSoA (MemoryArena 4096 65536) 4 16 = Some (book, a')"
    by (simp add: LobSoA_def alloc_def MemoryArena_def align_up_def alloc_alignment_def holo_simps
        float_type_def u32_type_def u64_type_def line_type_def Let_def)
  from feed_to_book [OF demo_message demo_instrument demo_feed_ok(1,2) _ _ refl, of book 5 7 "''x''" 6 Bid 1 0]
    LobSoA_ok [OF new] new show ?thesis
    by (simp add: demo_feed_ok k_max_depth_def in_book_def)
qed

end
