(* ===== verification/Floer_Rank.thy ===== *)
theory Floer_Rank
  imports Prelude
begin

text \<open>
  The rank computation of the homology pass (\<open>gaussian_rank_z2\<close> of \<open>math/floer_homology.cu\<close>): Gaussian
  elimination over the two-element field on the parities of an integer matrix. The matrix is a
  function of row and column; the code stores it row by row. The theorem compares the result with
  the number of elements of the row space.
\<close>

section \<open>The elimination\<close>

type_synonym matrix = "nat \<Rightarrow> nat \<Rightarrow> int"

definition find_pivot :: "matrix \<Rightarrow> nat \<Rightarrow> nat \<Rightarrow> nat \<Rightarrow> nat option" where
  "find_pivot mat rows pivot_row col = List.find (\<lambda>r. odd (mat r col)) [pivot_row..<rows]"

definition swap_rows :: "nat \<Rightarrow> nat \<Rightarrow> matrix \<Rightarrow> matrix" where
  "swap_rows a b mat = (\<lambda>r. if r = a then mat b else if r = b then mat a else mat r)"

definition eliminate :: "nat \<Rightarrow> nat \<Rightarrow> nat \<Rightarrow> nat \<Rightarrow> matrix \<Rightarrow> matrix" where
  "eliminate rows cols pivot_row col mat =
     (\<lambda>r c. if r < rows \<and> r \<noteq> pivot_row \<and> odd (mat r col) \<and> c < cols
            then mat r c XOR mat pivot_row c else mat r c)"

function gauss_loop :: "nat \<Rightarrow> nat \<Rightarrow> nat \<Rightarrow> nat \<Rightarrow> nat \<Rightarrow> matrix \<Rightarrow> nat" where
  "gauss_loop rows cols col pivot_row rank mat =
     (if col < cols \<and> pivot_row < rows then
        (case find_pivot mat rows pivot_row col of
           None \<Rightarrow> gauss_loop rows cols (Suc col) pivot_row rank mat
         | Some pivot \<Rightarrow>
             gauss_loop rows cols (Suc col) (Suc pivot_row) (Suc rank)
               (eliminate rows cols pivot_row col (swap_rows pivot_row pivot mat)))
      else rank)"
  by pat_completeness auto
termination
  by (relation "measure (\<lambda>(rows, cols, col, pivot_row, rank, mat). cols - col)") auto

declare gauss_loop.simps [simp del]

definition gaussian_rank_z2 :: "nat \<Rightarrow> nat \<Rightarrow> matrix \<Rightarrow> nat" where
  "gaussian_rank_z2 rows cols mat = gauss_loop rows cols 0 0 0 mat"

section \<open>Spans over the two-element field\<close>

text \<open>A vector is the set of its odd columns; addition is the symmetric difference.\<close>

definition vadd :: "nat set \<Rightarrow> nat set \<Rightarrow> nat set" where
  "vadd x y = (x - y) \<union> (y - x)"

lemma in_vadd [simp]: "c \<in> vadd x y \<longleftrightarrow> (c \<in> x) \<noteq> (c \<in> y)"
  by (auto simp: vadd_def)

lemma vadd_simps [simp]: "vadd x x = {}" "vadd {} x = x" "vadd x {} = x" "vadd (vadd x y) y = x"
  by (auto simp: vadd_def)

inductive_set vspan :: "nat set set \<Rightarrow> nat set set" for S where
  zero: "{} \<in> vspan S"
| base: "x \<in> S \<Longrightarrow> x \<in> vspan S"
| add: "x \<in> vspan S \<Longrightarrow> y \<in> vspan S \<Longrightarrow> vadd x y \<in> vspan S"

lemma vspan_least:
  assumes "S \<subseteq> vspan T"
  shows "vspan S \<subseteq> vspan T"
proof
  fix x
  assume "x \<in> vspan S"
  then show "x \<in> vspan T" by (induction rule: vspan.induct) (use assms in \<open>auto intro: vspan.intros\<close>)
qed

lemma vspan_eqI: "S \<subseteq> vspan T \<Longrightarrow> T \<subseteq> vspan S \<Longrightarrow> vspan S = vspan T"
  using vspan_least by blast

definition row_vec :: "nat \<Rightarrow> matrix \<Rightarrow> nat \<Rightarrow> nat set" where
  "row_vec cols mat r = {c. c < cols \<and> odd (mat r c)}"

definition row_space :: "nat \<Rightarrow> nat \<Rightarrow> matrix \<Rightarrow> nat set set" where
  "row_space rows cols mat = vspan (row_vec cols mat ` {..<rows})"

lemma row_vec_swap: "row_vec cols (swap_rows a b mat) r =
    row_vec cols mat (if r = a then b else if r = b then a else r)"
  by (auto simp: row_vec_def swap_rows_def)

lemma odd_xor: "odd ((a :: int) XOR b) \<longleftrightarrow> odd a \<noteq> odd b"
  by (simp add: even_xor_iff)

lemma row_vec_eliminate:
  assumes "col < cols"
  shows "row_vec cols (eliminate rows cols k col mat) r =
    (if r < rows \<and> r \<noteq> k \<and> col \<in> row_vec cols mat r then vadd (row_vec cols mat r) (row_vec cols mat k)
     else row_vec cols mat r)"
  using assms by (auto simp: row_vec_def eliminate_def odd_xor)

lemma row_space_swap:
  assumes "a < rows" and "b < rows"
  shows "row_space rows cols (swap_rows a b mat) = row_space rows cols mat"
proof -
  have "row_vec cols (swap_rows a b mat) ` {..<rows} = row_vec cols mat ` {..<rows}"
  proof (intro equalityI subsetI)
    fix x
    assume "x \<in> row_vec cols mat ` {..<rows}"
    then obtain r where r: "r < rows" "x = row_vec cols mat r" by blast
    let ?r = "if r = a then b else if r = b then a else r"
    have "x = row_vec cols (swap_rows a b mat) ?r" "?r < rows"
      using r assms by (auto simp: row_vec_swap)
    then show "x \<in> row_vec cols (swap_rows a b mat) ` {..<rows}" by blast
  qed (use assms in \<open>auto simp: row_vec_swap split: if_splits\<close>)
  then show ?thesis by (simp add: row_space_def)
qed

lemma row_space_eliminate:
  assumes "col < cols" and "k < rows"
  shows "row_space rows cols (eliminate rows cols k col mat) = row_space rows cols mat"
proof -
  let ?v = "row_vec cols mat" and ?w = "row_vec cols (eliminate rows cols k col mat)"
  have w: "?w r = (if r < rows \<and> r \<noteq> k \<and> col \<in> ?v r then vadd (?v r) (?v k) else ?v r)" for r
    using row_vec_eliminate [OF assms(1)] .
  have v: "?v r \<in> vspan (?v ` {..<rows})" and ww: "?w r \<in> vspan (?w ` {..<rows})" if "r < rows" for r
    using that by (auto intro: vspan.base)
  have "?w r \<in> vspan (?v ` {..<rows})" if "r < rows" for r
    using v [OF that] v [OF assms(2)] vspan.add by (simp add: w)
  moreover have "?v r \<in> vspan (?w ` {..<rows})" if "r < rows" for r
  proof (cases "r \<noteq> k \<and> col \<in> ?v r")
    case True
    then have "?v r = vadd (?w r) (?w k)" using that by (simp add: w)
    then show ?thesis using vspan.add [OF ww [OF that] ww [OF assms(2)]] by simp
  next
    case False
    then have "?v r = ?w r" by (auto simp: w)
    then show ?thesis using ww [OF that] by simp
  qed
  ultimately show ?thesis unfolding row_space_def by (intro vspan_eqI) auto
qed

section \<open>Counting the row space of an eliminated matrix\<close>

definition xsum :: "(nat \<Rightarrow> nat set) \<Rightarrow> nat set \<Rightarrow> nat set" where
  "xsum v A = {c. odd (card {i \<in> A. c \<in> v i})}"

lemma odd_card_sym_diff:
  assumes "finite A" "finite B"
  shows "odd (card ((A - B) \<union> (B - A))) \<longleftrightarrow> odd (card A) \<noteq> odd (card B)"
proof -
  have "card A = card (A - B) + card (A \<inter> B)" "card B = card (B - A) + card (A \<inter> B)"
    using assms by (metis card_Int_Diff add.commute, metis card_Int_Diff add.commute Int_commute)
  moreover have "card ((A - B) \<union> (B - A)) = card (A - B) + card (B - A)"
    using assms by (intro card_Un_disjoint) auto
  ultimately show ?thesis by auto
qed

lemma xsum_vadd:
  assumes "finite A" "finite B"
  shows "vadd (xsum v A) (xsum v B) = xsum v (vadd A B)"
proof (rule set_eqI)
  fix c
  let ?A = "{i \<in> A. c \<in> v i}" and ?B = "{i \<in> B. c \<in> v i}"
  have "{i \<in> vadd A B. c \<in> v i} = (?A - ?B) \<union> (?B - ?A)" by auto
  then have "c \<in> xsum v (vadd A B) \<longleftrightarrow> odd (card ((?A - ?B) \<union> (?B - ?A)))" by (simp only: xsum_def mem_Collect_eq)
  also have "\<dots> \<longleftrightarrow> odd (card ?A) \<noteq> odd (card ?B)" by (rule odd_card_sym_diff) (use assms in simp_all)
  finally show "c \<in> vadd (xsum v A) (xsum v B) \<longleftrightarrow> c \<in> xsum v (vadd A B)" by (simp add: xsum_def)
qed

lemma xsum_empty [simp]: "xsum v {} = {}" by (simp add: xsum_def)

lemma xsum_single [simp]: "xsum v {i} = v i"
proof -
  have "{j \<in> {i}. c \<in> v j} = (if c \<in> v i then {i} else {})" for c by auto
  then show ?thesis by (auto simp: xsum_def)
qed

lemma vspan_xsum: "vspan (v ` {..<k}) = xsum v ` Pow {..<k}"
proof
  show "vspan (v ` {..<k}) \<subseteq> xsum v ` Pow {..<k}"
  proof
    fix x
    assume "x \<in> vspan (v ` {..<k})"
    then show "x \<in> xsum v ` Pow {..<k}"
    proof (induction rule: vspan.induct)
      case zero
      show ?case by (rule image_eqI [of _ _ "{}"]) simp_all
    next
      case (base x)
      then obtain i where "i < k" "x = xsum v {i}" by auto
      then show ?case by (intro image_eqI [of _ _ "{i}"]) simp_all
    next
      case (add x y)
      then obtain A B where AB: "x = xsum v A" "y = xsum v B" "A \<subseteq> {..<k}" "B \<subseteq> {..<k}" by auto
      then have "finite A" "finite B" by (simp_all add: finite_subset)
      then have "vadd x y = xsum v (vadd A B)" using AB by (simp add: xsum_vadd)
      moreover have "vadd A B \<in> Pow {..<k}" using AB by (auto simp: vadd_def)
      ultimately show ?case by (rule image_eqI)
    qed
  qed
next
  have "xsum v A \<in> vspan (v ` {..<k})" if "A \<subseteq> {..<k}" for A
  proof -
    have "finite A" using that finite_subset by blast
    then show ?thesis using that
    proof (induction A rule: finite_induct)
      case (insert i A)
      have "vadd {i} A = insert i A" using insert.hyps by (auto simp: vadd_def)
      then have "xsum v (insert i A) = vadd (v i) (xsum v A)"
        using xsum_vadd [of "{i}" A v] insert.hyps by simp
      moreover have "v i \<in> vspan (v ` {..<k})" using insert.prems by (auto intro: vspan.base)
      moreover have "xsum v A \<in> vspan (v ` {..<k})" using insert by simp
      ultimately show ?case by (simp add: vspan.add)
    qed (simp add: vspan.zero)
  qed
  then show "xsum v ` Pow {..<k} \<subseteq> vspan (v ` {..<k})" by blast
qed

lemma card_vspan_pivots:
  assumes "\<And>i j. i < k \<Longrightarrow> j < k \<Longrightarrow> p i \<in> v j \<longleftrightarrow> i = j"
  shows "card (vspan (v ` {..<k})) = 2 ^ k"
proof -
  have mem: "p i \<in> xsum v A \<longleftrightarrow> i \<in> A" if "A \<subseteq> {..<k}" "i < k" for A i
  proof -
    have "{j \<in> A. p i \<in> v j} = (if i \<in> A then {i} else {})" using assms that by auto
    then show ?thesis by (simp add: xsum_def)
  qed
  have "inj_on (xsum v) (Pow {..<k})"
  proof (rule inj_onI)
    fix A B
    assume "A \<in> Pow {..<k}" "B \<in> Pow {..<k}" "xsum v A = xsum v B"
    with mem show "A = B" by (metis PowD lessThan_iff subsetD subsetI subset_antisym)
  qed
  then show ?thesis by (simp add: vspan_xsum card_image card_Pow)
qed

section \<open>Correctness\<close>

text \<open>
  The state of the elimination before a column: rows below the rank have a pivot column each, in
  which no other row has a one, and the remaining rows are zero in all earlier columns.
\<close>

definition gauss_inv :: "nat \<Rightarrow> nat \<Rightarrow> (nat \<Rightarrow> nat) \<Rightarrow> nat \<Rightarrow> nat \<Rightarrow> matrix \<Rightarrow> bool" where
  "gauss_inv rows cols p col k mat \<longleftrightarrow> k \<le> rows \<and>
     (\<forall>i < k. p i < col \<and> (\<forall>r < rows. p i \<in> row_vec cols mat r \<longleftrightarrow> r = i)) \<and>
     (\<forall>r < rows. k \<le> r \<longrightarrow> (\<forall>c \<in> row_vec cols mat r. col \<le> c))"

lemma find_pivot_None:
  assumes "find_pivot mat rows k col = None" "col < cols"
  shows "\<forall>r < rows. k \<le> r \<longrightarrow> col \<notin> row_vec cols mat r"
  using assms by (auto simp: find_pivot_def find_None_iff row_vec_def)

lemma find_pivot_Some:
  assumes "find_pivot mat rows k col = Some b" "col < cols"
  shows "k \<le> b" "b < rows" "col \<in> row_vec cols mat b"
proof -
  have "b \<in> set [k..<rows] \<and> odd (mat b col)"
    using assms(1) unfolding find_pivot_def by (auto simp: find_Some_iff)
  then show "k \<le> b" "b < rows" "col \<in> row_vec cols mat b" using assms(2) by (auto simp: row_vec_def)
qed

lemma gauss_inv_skip:
  assumes "gauss_inv rows cols p col k mat" "\<forall>r < rows. k \<le> r \<longrightarrow> col \<notin> row_vec cols mat r"
  shows "gauss_inv rows cols p (Suc col) k mat"
proof -
  have "Suc col \<le> c" if "r < rows" "k \<le> r" "c \<in> row_vec cols mat r" for r c
  proof -
    have "col \<le> c" using assms(1) that unfolding gauss_inv_def by blast
    moreover have "c \<noteq> col" using assms(2) that by blast
    ultimately show ?thesis by simp
  qed
  then show ?thesis using assms(1) unfolding gauss_inv_def by (auto simp: less_Suc_eq)
qed

lemma gauss_inv_pivot:
  assumes inv: "gauss_inv rows cols p col k mat" and "col < cols"
    and b: "k \<le> b" "b < rows" "col \<in> row_vec cols mat b"
  shows "gauss_inv rows cols (p(k := col)) (Suc col) (Suc k)
    (eliminate rows cols k col (swap_rows k b mat))"
proof -
  let ?v = "row_vec cols mat" and ?u = "row_vec cols (swap_rows k b mat)"
  let ?w = "row_vec cols (eliminate rows cols k col (swap_rows k b mat))"
  have u: "?u r = ?v (if r = k then b else if r = b then k else r)" for r by (rule row_vec_swap)
  have w: "?w r = (if r < rows \<and> r \<noteq> k \<and> col \<in> ?u r then vadd (?u r) (?u k) else ?u r)" for r
    using row_vec_eliminate [OF \<open>col < cols\<close>] .
  have uk: "?u k = ?v b" by (simp add: u)
  have old: "p i \<in> ?u r \<longleftrightarrow> r = i" if "i < k" "r < rows" for i r
    using inv that b unfolding gauss_inv_def by (auto simp: u)
  have low: "\<forall>c \<in> ?u r. col \<le> c" if "k \<le> r" "r < rows" for r
  proof -
    let ?r = "if r = k then b else if r = b then k else r"
    have "k \<le> ?r" "?r < rows" using that b by auto
    with inv show ?thesis unfolding gauss_inv_def u by blast
  qed
  have "\<forall>r < rows. p i \<in> ?w r \<longleftrightarrow> r = i" if "i < k" for i
    using old [OF that] that b by (auto simp: w)
  moreover have "\<forall>r < rows. col \<in> ?w r \<longleftrightarrow> r = k" using b(3) by (auto simp: w uk)
  moreover have "col < c" if "c \<in> ?w r" "r < rows" "Suc k \<le> r" for c r
  proof -
    have "col \<le> c" using low [of r] low [of k] that b by (auto simp: w split: if_splits)
    moreover have "c \<noteq> col" using calculation that b(3) by (auto simp: w uk split: if_splits)
    ultimately show ?thesis by simp
  qed
  moreover have "p i < col" if "i < k" for i using inv that unfolding gauss_inv_def by blast
  ultimately show ?thesis
    using b unfolding gauss_inv_def by (auto simp: less_Suc_eq Suc_le_eq)
qed

lemma gauss_done:
  assumes inv: "gauss_inv rows cols p col k mat" and fin: "\<not> (col < cols \<and> k < rows)"
  shows "card (row_space rows cols mat) = 2 ^ k"
proof -
  let ?v = "row_vec cols mat"
  have k: "k \<le> rows" using inv by (simp add: gauss_inv_def)
  have zero: "?v r = {}" if "r < rows" "k \<le> r" for r
  proof -
    have "cols \<le> col" using fin that by simp
    moreover have "\<forall>c \<in> ?v r. col \<le> c" using inv that by (simp add: gauss_inv_def)
    ultimately show ?thesis by (fastforce simp: row_vec_def)
  qed
  have "?v r \<in> vspan (?v ` {..<k})" if "r < rows" for r
    using that zero [OF that] by (cases "r < k") (auto intro: vspan.base vspan.zero)
  then have "row_space rows cols mat = vspan (?v ` {..<k})"
    unfolding row_space_def using k by (intro vspan_eqI) (auto intro: vspan.base)
  moreover have "p i \<in> ?v j \<longleftrightarrow> i = j" if "i < k" "j < k" for i j
    using inv that k unfolding gauss_inv_def by (metis order_less_le_trans)
  ultimately show ?thesis using card_vspan_pivots [of k p ?v] by simp
qed

lemma gauss_loop_correct:
  "gauss_inv rows cols p col k mat \<Longrightarrow> card (row_space rows cols mat) = 2 ^ gauss_loop rows cols col k k mat"
proof (induction "cols - col" arbitrary: p col k mat rule: less_induct)
  case less
  show ?case
  proof (cases "col < cols \<and> k < rows")
    case False
    then show ?thesis using gauss_done [OF less.prems] by (subst gauss_loop.simps) auto
  next
    case True
    then have dec: "cols - Suc col < cols - col" by (simp add: diff_less_mono2)
    show ?thesis
    proof (cases "find_pivot mat rows k col")
      case None
      with True less.hyps [OF dec gauss_inv_skip [OF less.prems find_pivot_None]] show ?thesis
        by (subst gauss_loop.simps) simp
    next
      case (Some b)
      note b = find_pivot_Some [OF Some, of cols]
      let ?m = "eliminate rows cols k col (swap_rows k b mat)"
      have "row_space rows cols ?m = row_space rows cols mat"
        using True b row_space_eliminate row_space_swap by simp
      moreover have "card (row_space rows cols ?m) = 2 ^ gauss_loop rows cols (Suc col) (Suc k) (Suc k) ?m"
        using less.hyps [OF dec gauss_inv_pivot [OF less.prems]] True b by simp
      ultimately show ?thesis using True Some by (subst gauss_loop.simps) simp
    qed
  qed
qed

text \<open>
  (C33) The elimination computes the rank over the two-element field: the space spanned by the rows of
  the matrix, read modulo two, has exactly 2 to the power of the returned number elements, for every
  matrix of every size.
\<close>

theorem gaussian_rank_z2_correct:
  "card (row_space rows cols mat) = 2 ^ gaussian_rank_z2 rows cols mat"
  unfolding gaussian_rank_z2_def
  by (rule gauss_loop_correct [where p = "\<lambda>_. 0"]) (simp add: gauss_inv_def)

lemma gaussian_rank_z2_zero:
  assumes "\<And>r c. r < rows \<Longrightarrow> c < cols \<Longrightarrow> even (mat r c)"
  shows "gaussian_rank_z2 rows cols mat = 0"
proof -
  have "row_vec cols mat r = {}" if "r < rows" for r using assms that by (auto simp: row_vec_def)
  then have "row_vec cols mat ` {..<rows} \<subseteq> vspan {}" by (auto intro: vspan.zero)
  then have "row_space rows cols mat \<subseteq> vspan {}" unfolding row_space_def by (rule vspan_least)
  moreover have "vspan {} \<subseteq> {{}}"
  proof
    fix x :: "nat set"
    assume "x \<in> vspan {}"
    then show "x \<in> {{}}" by (induction rule: vspan.induct) simp_all
  qed
  ultimately have "row_space rows cols mat \<subseteq> {{}}" by blast
  then have "card (row_space rows cols mat) \<le> 1" using card_mono [of "{{}}" "row_space rows cols mat"] by simp
  then have "2 ^ gaussian_rank_z2 rows cols mat \<le> (1 :: nat)"
    using gauss_loop_correct [of rows cols "\<lambda>_. 0" 0 0 mat]
    by (simp add: gauss_inv_def gaussian_rank_z2_def)
  moreover have "(2 :: nat) ^ 1 \<le> 2 ^ gaussian_rank_z2 rows cols mat" if "gaussian_rank_z2 rows cols mat \<noteq> 0"
    by (rule power_increasing) (use that in simp_all)
  ultimately show ?thesis by fastforce
qed

end
