(* ===== verification/Gpu_Kernels.thy ===== *)
theory Gpu_Kernels
  imports Prelude "HOL-Library.Multiset"
begin

text \<open>
  What the kernels of the engine share: the append of a thread to a bounded buffer through an
  atomic counter, the interleaving of the appends of several threads, and the sum of a block in
  shared memory.

  Device arrays are functions of an index, matrices stored row by row are functions of row and
  column. Threads that write disjoint cells run one after the other; where threads compete for
  slots the order is an argument.
\<close>

section \<open>Appending through an atomic counter\<close>

text \<open>\<open>atomicAdd\<close> on the counter and the guarded store.\<close>

definition emit :: "nat \<Rightarrow> 'a \<Rightarrow> (nat \<Rightarrow> 'a) \<times> nat \<Rightarrow> (nat \<Rightarrow> 'a) \<times> nat" where
  "emit cap x st =
     (case st of (buf, slot) \<Rightarrow> (if slot < cap then buf(slot := x) else buf, Suc slot))"

lemma fold_emit:
  "slot \<le> cap \<Longrightarrow> fold (emit cap) xs (buf, slot) =
     (\<lambda>i. if slot \<le> i \<and> i < min cap (slot + length xs) then xs ! (i - slot) else buf i, slot + length xs)"
proof (induction xs arbitrary: buf slot)
  case (Cons x xs)
  show ?case
  proof (cases "slot < cap")
    case True
    then have "fold (emit cap) (x # xs) (buf, slot) = fold (emit cap) xs (buf(slot := x), Suc slot)"
      by (simp add: emit_def)
    also have "\<dots> = (\<lambda>i. if Suc slot \<le> i \<and> i < min cap (Suc slot + length xs) then xs ! (i - Suc slot)
        else (buf(slot := x)) i, Suc slot + length xs)"
      using True by (intro Cons.IH) simp
    finally show ?thesis using True by (auto simp: fun_eq_iff nth_Cons')
  next
    case False
    then have "fold (emit cap) ys (b, k) = (b, k + length ys)" if "cap \<le> k" for k b and ys :: "'a list"
      using that by (induction ys arbitrary: k) (simp_all add: emit_def)
    from this [of slot "x # xs" buf] False show ?thesis by (auto simp: fun_eq_iff)
  qed
qed (auto simp: fun_eq_iff)

section \<open>Interleaved threads\<close>

text \<open>
  The threads \<open>0, \<dots>, n - 1\<close> have the appends \<open>q 0, \<dots>, q (n - 1)\<close> to make. The schedule says whose
  append is next; when it is used up the threads finish one after the other. Every order in which
  the hardware can serve the appends is the one of some schedule.
\<close>

fun interleave :: "nat \<Rightarrow> nat list \<Rightarrow> (nat \<Rightarrow> 'a list) \<Rightarrow> 'a list" where
  "interleave n [] q = concat (map q [0..<n])"
| "interleave n (v # s) q =
     (if v < n \<and> q v \<noteq> [] then hd (q v) # interleave n s (q(v := tl (q v))) else interleave n s q)"

lemma mset_interleave: "mset (interleave n s q) = (\<Sum>v<n. mset (q v))"
proof (induction s arbitrary: q)
  case Nil
  show ?case by (induction n) (simp_all add: lessThan_Suc)
next
  case (Cons v s)
  show ?case
  proof (cases "v < n \<and> q v \<noteq> []")
    case True
    then have "(\<Sum>w<n. mset (q w)) = mset (q v) + (\<Sum>w\<in>{..<n} - {v}. mset (q w))"
      by (intro sum.remove) auto
    also have "mset (q v) = add_mset (hd (q v)) (mset (tl (q v)))" using True by (cases "q v") auto
    also have "(\<Sum>w\<in>{..<n} - {v}. mset (q w)) = (\<Sum>w\<in>{..<n} - {v}. mset ((q(v := tl (q v))) w))"
      by (intro sum.cong) auto
    also have "add_mset (hd (q v)) (mset (tl (q v))) + \<dots> =
        add_mset (hd (q v)) (\<Sum>w<n. mset ((q(v := tl (q v))) w))"
      using True sum.remove [of "{..<n}" v "\<lambda>w. mset ((q(v := tl (q v))) w)"] by simp
    finally show ?thesis
      unfolding Cons.IH [of "q(v := tl (q v))", symmetric] using True by (simp del: fun_upd_apply)
  qed (use Cons.IH in auto)
qed

lemma set_interleave: "set (interleave n s q) = (\<Union>v<n. set (q v))"
proof -
  have "set_mset (\<Sum>v<n. mset (q v)) = (\<Union>v<n. set (q v))"
    by (induction n) (auto simp: lessThan_Suc)
  then show ?thesis using mset_interleave [of n s q] by (metis set_mset_mset)
qed

lemma length_interleave: "length (interleave n s q) = (\<Sum>v<n. length (q v))"
proof -
  have "size (\<Sum>v<n. mset (q v)) = (\<Sum>v<n. length (q v))" by (induction n) auto
  then show ?thesis using mset_interleave [of n s q] by (metis size_mset)
qed

lemma distinct_interleave:
  assumes "\<And>v. v < n \<Longrightarrow> distinct (q v)"
    and "\<And>v w. v < n \<Longrightarrow> w < n \<Longrightarrow> v \<noteq> w \<Longrightarrow> set (q v) \<inter> set (q w) = {}"
  shows "distinct (interleave n s q)"
proof -
  have "card (\<Union>v<n. set (q v)) = (\<Sum>v<n. length (q v))"
    using assms by (subst card_UN_disjoint) (auto simp: distinct_card)
  then show ?thesis by (intro card_distinct) (simp add: set_interleave length_interleave)
qed

section \<open>Block sums\<close>

text \<open>
  The reduction of a block in shared memory: while \<open>stride\<close> is positive, thread \<open>tid < stride\<close> adds
  the cell \<open>stride\<close> above its own. The barrier after each round makes the rounds sequential; in a
  round the cells read and the cells written are disjoint.
\<close>

function tree_reduce :: "nat \<Rightarrow> (nat \<Rightarrow> flt) \<Rightarrow> (nat \<Rightarrow> flt)" where
  "tree_reduce stride smem =
     (if stride = 0 then smem
      else tree_reduce (stride div 2) (\<lambda>tid. if tid < stride then smem tid + smem (tid + stride) else smem tid))"
  by pat_completeness auto
termination by (relation "measure fst") auto

declare tree_reduce.simps [simp del]

lemma sum_halves: "(\<Sum>i<2 * m. f i) = (\<Sum>i<m. f i + f (i + m))" for f :: "nat \<Rightarrow> flt"
proof -
  have "(\<Sum>i<2 * m. f i) = (\<Sum>i<m. f i) + (\<Sum>i=m..<m + m. f i)"
    by (simp add: mult_2 sum.atLeastLessThan_concat atLeast0LessThan [symmetric])
  also have "(\<Sum>i=m..<m + m. f i) = (\<Sum>i<m. f (i + m))"
    using sum.shift_bounds_nat_ivl [of f 0 m m] by (simp add: atLeast0LessThan add.commute)
  finally show ?thesis by (simp add: sum.distrib)
qed

lemma tree_reduce_sum: "tree_reduce (2 ^ k div 2) smem 0 = (\<Sum>i<2 ^ k. smem i)"
proof (induction k arbitrary: smem)
  case (Suc k)
  have half: "2 ^ Suc k div 2 = (2 ^ k :: nat)" by simp
  have "tree_reduce (2 ^ Suc k div 2) smem 0 =
      tree_reduce (2 ^ k div 2) (\<lambda>tid. if tid < 2 ^ k then smem tid + smem (tid + 2 ^ k) else smem tid) 0"
    unfolding half by (subst tree_reduce.simps) simp
  also have "\<dots> = (\<Sum>i<2 ^ k. smem i + smem (i + 2 ^ k))"
    unfolding Suc.IH by (intro sum.cong) auto
  finally show ?case by (simp add: sum_halves)
qed (simp add: tree_reduce.simps)

text \<open>The blocks of a launch cover a vector.\<close>

lemma sum_blocks:
  fixes f :: "nat \<Rightarrow> flt"
  shows "(\<Sum>b<m. \<Sum>t<B. f (b * B + t)) = (\<Sum>i<m * B. f i)"
proof (induction m)
  case (Suc m)
  have "(\<Sum>i<Suc m * B. f i) = (\<Sum>i<m * B. f i) + (\<Sum>i=m * B..<m * B + B. f i)"
    by (simp add: add.commute sum.atLeastLessThan_concat atLeast0LessThan [symmetric])
  also have "(\<Sum>i=m * B..<m * B + B. f i) = (\<Sum>t<B. f (m * B + t))"
    using sum.shift_bounds_nat_ivl [of f 0 "m * B" B] by (simp add: atLeast0LessThan add.commute)
  finally show ?case using Suc.IH by simp
qed simp

lemma blocks_cover: "0 < B \<Longrightarrow> n \<le> (n + B - 1) div B * B" for n B :: nat
  using round_up_bounds(1) [of B n] by simp

end
