(* ===== verification/Floer_Homology.thy ===== *)
theory Floer_Homology
  imports Floer_Rank Gpu_Kernels
begin

text \<open>
  The homology pass of the pipeline (\<open>math/floer_homology.cu\<close> and its header): the three kernels that
  find critical edges, connect them and fill the boundary matrix, and the host code that turns them
  into a \<open>FloerRecord\<close>.

  A kernel launch runs its threads in some order; the order in which they reach the atomic counter
  is the argument \<open>order\<close>, a list of thread numbers. Device buffers are functions from indices to
  values. Thread numbers beyond the data return at once, as in the code.
\<close>

section \<open>Data\<close>

definition k_floer_max_criticals :: nat where "k_floer_max_criticals = 256"
definition k_instanton_threshold :: flt where "k_instanton_threshold = 1 / 10 ^ 3"
definition k_self_dual_tolerance :: flt where "k_self_dual_tolerance = 15 / 100"

datatype MorseIndex = Minimum | Saddle | Maximum

definition morse_int :: "MorseIndex \<Rightarrow> int" where
  "morse_int m = (case m of Minimum \<Rightarrow> 0 | Saddle \<Rightarrow> 1 | Maximum \<Rightarrow> 2)"

record CriticalPoint =
  cp_edge_idx :: nat
  cp_action :: flt
  cp_curl_magnitude :: flt
  cp_morse_index :: MorseIndex
  cp_self_dual :: bool

record InstantonPath =
  ip_src_critical :: int
  ip_dst_critical :: int
  ip_path_action :: flt
  ip_self_dual_residual :: flt
  ip_valid :: bool

record FloerRecord =
  fr_entry_signal :: MorseIndex
  fr_instanton_found :: bool
  fr_entry_action :: flt
  fr_exit_action :: flt
  fr_instanton_length :: flt
  fr_rank_HF0 :: int
  fr_rank_HF1 :: int
  fr_rank_HF2 :: int
  fr_euler_characteristic :: int
  fr_n_criticals :: nat
  fr_n_instantons :: nat
  fr_mean_self_dual_residual :: flt

definition FloerRecord0 :: FloerRecord where
  "FloerRecord0 = \<lparr>fr_entry_signal = Saddle, fr_instanton_found = False, fr_entry_action = 0,
     fr_exit_action = 0, fr_instanton_length = 0, fr_rank_HF0 = 0, fr_rank_HF1 = 0, fr_rank_HF2 = 0,
     fr_euler_characteristic = 0, fr_n_criticals = 0, fr_n_instantons = 0, fr_mean_self_dual_residual = 0\<rparr>"

text \<open>The per-edge input of the pass.\<close>

record edge_field =
  ef_curl_magnitude :: "flt list"
  ef_curl_coexact :: "flt list"
  ef_edge_src :: "int list"
  ef_edge_dst :: "int list"
  ef_n_edges :: nat
  ef_ym_action :: flt

section \<open>Kernels\<close>

definition neighbours :: "edge_field \<Rightarrow> nat \<Rightarrow> nat list" where
  "neighbours F e =
     (let src = ef_edge_src F ! e; dst = ef_edge_dst F ! e
      in filter (\<lambda>f. f \<noteq> e \<and>
           (ef_edge_src F ! f = src \<or> ef_edge_dst F ! f = dst \<or>
            ef_edge_src F ! f = dst \<or> ef_edge_dst F ! f = src)) [0..<ef_n_edges F])"

definition critical_point :: "edge_field \<Rightarrow> nat \<Rightarrow> CriticalPoint option" where
  "critical_point F e =
     (if e \<ge> ef_n_edges F then None
      else
        let curl_e = ef_curl_magnitude F ! e; coexact_e = ef_curl_coexact F ! e
        in if curl_e < k_instanton_threshold then None
           else
             let ns = neighbours F e
             in if ns = [] then None
                else
                  let avg_neighbour = sum_list (map (\<lambda>f. ef_curl_magnitude F ! f) ns) / real (length ns);
                      hessian = curl_e - avg_neighbour;
                      morse = (if hessian > 5 / 100 then Maximum
                               else if hessian < - (5 / 100) then Minimum else Saddle);
                      self_dual_dev = \<bar>coexact_e - curl_e\<bar> / (curl_e + 1 / 10 ^ 8);
                      local_action = (curl_e * curl_e) /
                        (2 * (314159265 / 10 ^ 8) * (ef_ym_action F + 1 / 10 ^ 8))
                  in Some \<lparr>cp_edge_idx = e, cp_action = local_action, cp_curl_magnitude = curl_e,
                           cp_morse_index = morse, cp_self_dual = self_dual_dev < k_self_dual_tolerance\<rparr>)"

definition kernel_find_critical_points ::
    "nat list \<Rightarrow> edge_field \<Rightarrow> (nat \<Rightarrow> CriticalPoint) \<times> nat \<Rightarrow> (nat \<Rightarrow> CriticalPoint) \<times> nat" where
  "kernel_find_critical_points order F st =
     fold (\<lambda>e st. case critical_point F e of None \<Rightarrow> st | Some cp \<Rightarrow> emit k_floer_max_criticals cp st) order st"

definition instanton :: "edge_field \<Rightarrow> (nat \<Rightarrow> CriticalPoint) \<Rightarrow> nat \<Rightarrow> nat \<Rightarrow> InstantonPath option" where
  "instanton F crit n tid =
     (if tid \<ge> n * n then None
      else
        let i = tid div n; j = tid mod n
        in if i \<ge> j then None
           else
             let cp_i = crit i; cp_j = crit j;
                 build = (\<lambda>src src_idx dst dst_idx.
                   let curl_src = ef_curl_magnitude F ! cp_edge_idx src;
                       curl_dst = ef_curl_magnitude F ! cp_edge_idx dst;
                       coexact_src = ef_curl_coexact F ! cp_edge_idx src;
                       coexact_dst = ef_curl_coexact F ! cp_edge_idx dst
                   in \<lparr>ip_src_critical = int src_idx, ip_dst_critical = int dst_idx,
                       ip_path_action = sqrt (cp_action src * cp_action dst + 1 / 10 ^ 10),
                       ip_self_dual_residual = \<bar>coexact_src + coexact_dst\<bar> / (curl_src + curl_dst + 1 / 10 ^ 8),
                       ip_valid = True\<rparr>)
             in if morse_int (cp_morse_index cp_i) < morse_int (cp_morse_index cp_j) then Some (build cp_i i cp_j j)
                else if morse_int (cp_morse_index cp_j) < morse_int (cp_morse_index cp_i) then Some (build cp_j j cp_i i)
                else None)"

definition kernel_find_instantons ::
    "nat list \<Rightarrow> edge_field \<Rightarrow> (nat \<Rightarrow> CriticalPoint) \<Rightarrow> nat \<Rightarrow> (nat \<Rightarrow> InstantonPath) \<times> nat
     \<Rightarrow> (nat \<Rightarrow> InstantonPath) \<times> nat" where
  "kernel_find_instantons order F crit n st =
     fold (\<lambda>tid st. case instanton F crit n tid of
         None \<Rightarrow> st | Some p \<Rightarrow> emit (k_floer_max_criticals * k_floer_max_criticals) p st) order st"

definition boundary_thread ::
    "(nat \<Rightarrow> CriticalPoint) \<Rightarrow> (nat \<Rightarrow> InstantonPath) \<Rightarrow> nat \<Rightarrow> nat \<Rightarrow> nat \<Rightarrow> (nat \<Rightarrow> int) \<Rightarrow> (nat \<Rightarrow> int)" where
  "boundary_thread crit inst n n_inst tid mat =
     (if tid \<ge> n_inst then mat
      else
        let p = inst tid
        in if \<not> ip_valid p then mat
           else if ip_src_critical p < 0 \<or> ip_dst_critical p < 0 then mat
           else if ip_src_critical p \<ge> int n \<or> ip_dst_critical p \<ge> int n then mat
           else
             let src = nat (ip_src_critical p); dst = nat (ip_dst_critical p);
                 src_morse = morse_int (cp_morse_index (crit src));
                 dst_morse = morse_int (cp_morse_index (crit dst))
             in if \<bar>dst_morse - src_morse\<bar> \<noteq> 1 then mat
                else mat(dst * n + src := mat (dst * n + src) XOR 1))"

definition kernel_build_floer_boundary ::
    "nat list \<Rightarrow> (nat \<Rightarrow> CriticalPoint) \<Rightarrow> (nat \<Rightarrow> InstantonPath) \<Rightarrow> nat \<Rightarrow> nat \<Rightarrow> (nat \<Rightarrow> int) \<Rightarrow> (nat \<Rightarrow> int)" where
  "kernel_build_floer_boundary order crit inst n n_inst mat =
     fold (boundary_thread crit inst n n_inst) order mat"

section \<open>Homology\<close>

text \<open>The critical points of one Morse index, in the order of their indices.\<close>

definition grade :: "CriticalPoint list \<Rightarrow> MorseIndex \<Rightarrow> nat list" where
  "grade crit m = filter (\<lambda>i. cp_morse_index (crit ! i) = m) [0..<length crit]"

definition sub_matrix :: "(nat \<Rightarrow> int) \<Rightarrow> nat \<Rightarrow> nat list \<Rightarrow> nat list \<Rightarrow> matrix" where
  "sub_matrix boundary n rows cols = (\<lambda>r c. boundary (rows ! r * n + cols ! c))"

definition boundary_rank :: "(nat \<Rightarrow> int) \<Rightarrow> CriticalPoint list \<Rightarrow> MorseIndex \<Rightarrow> MorseIndex \<Rightarrow> nat" where
  "boundary_rank boundary crit lower upper =
     (let rs = grade crit lower; cs = grade crit upper
      in if length rs > 0 \<and> length cs > 0
         then gaussian_rank_z2 (length rs) (length cs) (sub_matrix boundary (length crit) rs cs) else 0)"

record instanton_scan =
  sc_best_entry :: flt
  sc_best_exit :: flt
  sc_best_len :: flt
  sc_total_asd :: flt
  sc_any :: bool

definition scan_instanton :: "CriticalPoint list \<Rightarrow> InstantonPath \<Rightarrow> instanton_scan \<Rightarrow> instanton_scan" where
  "scan_instanton crit p st =
     (let n = int (length crit) in
      if \<not> ip_valid p then st
      else if ip_src_critical p < 0 \<or> ip_src_critical p \<ge> n then st
      else if ip_dst_critical p < 0 \<or> ip_dst_critical p \<ge> n then st
      else
        let s = crit ! nat (ip_src_critical p); d = crit ! nat (ip_dst_critical p);
            st1 = (if cp_morse_index s = Minimum \<and> cp_action s < sc_best_entry st
                   then st\<lparr>sc_best_entry := cp_action s, sc_best_len := ip_path_action p, sc_any := True\<rparr> else st);
            st2 = (if cp_morse_index d = Maximum \<and> cp_action d > sc_best_exit st1
                   then st1\<lparr>sc_best_exit := cp_action d\<rparr> else st1)
        in st2\<lparr>sc_total_asd := sc_total_asd st2 + ip_self_dual_residual p\<rparr>)"

definition compute_floer_homology ::
    "CriticalPoint list \<Rightarrow> InstantonPath list \<Rightarrow> (nat \<Rightarrow> int) \<Rightarrow> FloerRecord" where
  "compute_floer_homology crit inst boundary =
     (let rec = FloerRecord0\<lparr>fr_n_criticals := length crit, fr_n_instantons := length inst\<rparr> in
      if crit = [] then rec\<lparr>fr_entry_signal := Saddle\<rparr>
      else
        let n0 = length (grade crit Minimum); n1 = length (grade crit Saddle); n2 = length (grade crit Maximum);
            rank_d1 = boundary_rank boundary crit Minimum Saddle;
            rank_d2 = boundary_rank boundary crit Saddle Maximum;
            h0 = max 0 (int n0 - int rank_d1);
            h1 = max 0 (int n1 - int rank_d1 - int rank_d2);
            h2 = max 0 (int n2 - int rank_d2);
            st = fold (scan_instanton crit) inst
              \<lparr>sc_best_entry = 10 ^ 30, sc_best_exit = 0, sc_best_len = 0, sc_total_asd = 0, sc_any = False\<rparr>
        in rec\<lparr>fr_rank_HF0 := h0, fr_rank_HF1 := h1, fr_rank_HF2 := h2,
               fr_euler_characteristic := h0 - h1 + h2,
               fr_instanton_found := sc_any st,
               fr_entry_action := (if sc_best_entry st < 10 ^ 29 then sc_best_entry st else 0),
               fr_exit_action := sc_best_exit st,
               fr_instanton_length := sc_best_len st,
               fr_mean_self_dual_residual :=
                 (if length inst > 0 then sc_total_asd st / real (length inst) else 0),
               fr_entry_signal :=
                 (if h0 > h2 \<and> h0 > h1 then Minimum
                  else if h2 > h0 \<and> h2 > h1 then Maximum else Saddle)\<rparr>)"

text \<open>
  The whole pass. The critical-point buffer and the matrix are cleared, the instanton buffer
  \<open>old\<close> still holds the values of the previous call. The three orders are those of the launches.
\<close>

definition zero_critical :: CriticalPoint where
  "zero_critical = \<lparr>cp_edge_idx = 0, cp_action = 0, cp_curl_magnitude = 0, cp_morse_index = Minimum,
     cp_self_dual = False\<rparr>"

definition run_floer_analysis ::
    "nat list \<Rightarrow> nat list \<Rightarrow> nat list \<Rightarrow> (nat \<Rightarrow> InstantonPath) \<Rightarrow> edge_field \<Rightarrow> FloerRecord" where
  "run_floer_analysis order1 order2 order3 old F =
     (if ef_n_edges F = 0 then FloerRecord0
      else
        case kernel_find_critical_points order1 F (\<lambda>_. zero_critical, 0) of (crit, emitted) \<Rightarrow>
          let n = min emitted k_floer_max_criticals
          in if n < 2 then FloerRecord0\<lparr>fr_n_criticals := n\<rparr>
             else
               case kernel_find_instantons order2 F crit n (old, 0) of (inst, emitted2) \<Rightarrow>
                 let n_inst = min emitted2 (k_floer_max_criticals * k_floer_max_criticals);
                     boundary = (if n_inst > 0 then kernel_build_floer_boundary order3 crit inst n n_inst (\<lambda>_. 0)
                                 else (\<lambda>_. 0))
                 in compute_floer_homology (map crit [0..<n]) (map inst [0..<n_inst]) boundary)"

section \<open>What a launch leaves in its buffer\<close>

lemma fold_emit_threads:
  "fold (\<lambda>t st. case f t of None \<Rightarrow> st | Some x \<Rightarrow> emit cap x st) order (buf, n) = (buf', n') \<Longrightarrow>
     n' = n + length (List.map_filter f order) \<and>
     (\<forall>k < min n' cap. buf' k = (if k < n then buf k else List.map_filter f order ! (k - n)))"
proof (induction order arbitrary: buf n)
  case Nil
  then show ?case by (simp add: List.map_filter_simps)
next
  case (Cons t order)
  show ?case
  proof (cases "f t")
    case None
    with Cons.prems Cons.IH [of buf n] show ?thesis by (simp add: List.map_filter_simps)
  next
    case (Some x)
    let ?buf = "if n < cap then buf(n := x) else buf"
    have ih: "n' = Suc n + length (List.map_filter f order)"
      "\<forall>k < min n' cap. buf' k = (if k < Suc n then ?buf k else List.map_filter f order ! (k - Suc n))"
      using Cons.IH [of ?buf "Suc n"] Cons.prems Some by (simp_all add: emit_def)
    have "buf' k = (if k < n then buf k else (x # List.map_filter f order) ! (k - n))" if "k < min n' cap" for k
      using ih(2) that by (cases "k = n") (auto simp: nth_Cons' less_Suc_eq Suc_diff_Suc)
    with ih(1) Some show ?thesis by (simp add: List.map_filter_simps)
  qed
qed

text \<open>The critical points that survive, in the order of the launch.\<close>

definition criticals :: "nat list \<Rightarrow> edge_field \<Rightarrow> CriticalPoint list" where
  "criticals order F = take k_floer_max_criticals (List.map_filter (critical_point F) order)"

lemma kernel_find_critical_points_result:
  assumes "kernel_find_critical_points order F (buf, 0) = (crit, emitted)"
    and "n = min emitted k_floer_max_criticals"
  shows "map crit [0..<n] = criticals order F \<and> n = length (criticals order F)"
proof -
  note f = fold_emit_threads [OF assms(1) [unfolded kernel_find_critical_points_def]]
  then have n: "n = length (criticals order F)" using assms(2) by (simp add: criticals_def min.commute)
  moreover have "map crit [0..<n] = criticals order F"
    by (rule nth_equalityI) (use f n assms(2) in \<open>auto simp: criticals_def\<close>)
  ultimately show ?thesis by simp
qed

lemma kernel_find_instantons_slot:
  assumes "kernel_find_instantons order F crit n (old, 0) = (inst, emitted)"
    and "k < min emitted (k_floer_max_criticals * k_floer_max_criticals)"
  shows "\<exists>tid. instanton F crit n tid = Some (inst k)"
proof -
  let ?ps = "List.map_filter (instanton F crit n) order"
  note f = fold_emit_threads [OF assms(1) [unfolded kernel_find_instantons_def]]
  then have "inst k = ?ps ! k" "k < length ?ps" using assms(2) by auto
  then have "inst k \<in> set ?ps" using nth_mem by metis
  then show ?thesis by (auto simp: List.map_filter_def)
qed

lemma instanton_upward:
  assumes "instanton F crit n tid = Some p"
  shows "\<exists>s d. ip_src_critical p = int s \<and> ip_dst_critical p = int d \<and> s < n \<and> d < n \<and>
     morse_int (cp_morse_index (crit s)) < morse_int (cp_morse_index (crit d))"
proof -
  have "0 < n" using assms by (cases n) (simp_all add: instanton_def)
  then have b: "tid div n < n" "tid mod n < n" if "tid < n * n" using that by (simp_all add: less_mult_imp_div_less)
  show ?thesis using assms b by (auto simp: instanton_def Let_def not_le split: if_splits)
qed

section \<open>The boundary matrix is read on the wrong side of the diagonal\<close>

lemma fold_inv: "P s \<Longrightarrow> (\<And>x s. P s \<Longrightarrow> P (f x s)) \<Longrightarrow> P (fold f xs s)"
  by (induction xs arbitrary: s) auto

lemma flat_index_inj: "j < n \<Longrightarrow> s < n \<Longrightarrow> i * n + j = d * n + s \<longleftrightarrow> i = d \<and> j = (s :: nat)"
  by (metis add.commute div_mult_self1 div_less mod_mult_self1 mod_less mult.commute add_0 less_nat_zero_code)

lemma boundary_lower_zero:
  assumes inst: "\<And>k. k < n_inst \<Longrightarrow> \<exists>tid. instanton F crit n tid = Some (inst k)"
    and ij: "i < n" "j < n" "morse_int (cp_morse_index (crit i)) \<le> morse_int (cp_morse_index (crit j))"
  shows "kernel_build_floer_boundary order crit inst n n_inst (\<lambda>_. 0) (i * n + j) = 0"
  unfolding kernel_build_floer_boundary_def
proof (rule fold_inv [where P = "\<lambda>mat. mat (i * n + j) = 0"])
  fix tid mat
  assume z: "mat (i * n + j) = (0 :: int)"
  show "boundary_thread crit inst n n_inst tid mat (i * n + j) = 0"
  proof (cases "tid < n_inst")
    case True
    then obtain s d where sd: "ip_src_critical (inst tid) = int s" "ip_dst_critical (inst tid) = int d"
      "s < n" "d < n" "morse_int (cp_morse_index (crit s)) < morse_int (cp_morse_index (crit d))"
      using inst [OF True] instanton_upward by blast
    then have "i * n + j \<noteq> d * n + s" using ij by (auto simp: flat_index_inj)
    with z sd show ?thesis by (simp add: boundary_thread_def Let_def)
  qed (simp add: boundary_thread_def z)
qed simp

lemma grade_mem: "i \<in> set (grade crit m) \<longleftrightarrow> i < length crit \<and> cp_morse_index (crit ! i) = m"
  by (auto simp: grade_def)

lemma boundary_rank_zero:
  assumes "\<And>i j. i < length crit \<Longrightarrow> j < length crit \<Longrightarrow>
      cp_morse_index (crit ! i) = lower \<Longrightarrow> cp_morse_index (crit ! j) = upper \<Longrightarrow> boundary (i * length crit + j) = 0"
  shows "boundary_rank boundary crit lower upper = 0"
proof -
  have "sub_matrix boundary (length crit) (grade crit lower) (grade crit upper) r c = 0"
    if "r < length (grade crit lower)" "c < length (grade crit upper)" for r c
    using assms nth_mem [OF that(1)] nth_mem [OF that(2)] by (simp add: sub_matrix_def grade_mem)
  then show ?thesis by (simp add: boundary_rank_def gaussian_rank_z2_zero Let_def)
qed

definition n_grade :: "CriticalPoint list \<Rightarrow> MorseIndex \<Rightarrow> int" where
  "n_grade crit m = int (length (filter (\<lambda>cp. cp_morse_index cp = m) crit))"

lemma length_grade: "int (length (grade crit m)) = n_grade crit m"
proof -
  have "filter (\<lambda>cp. cp_morse_index cp = m) (map (\<lambda>i. crit ! i) [0..<length crit]) =
      map (\<lambda>i. crit ! i) (grade crit m)"
    by (simp add: grade_def filter_map comp_def)
  then show ?thesis by (simp add: n_grade_def map_nth)
qed

lemma run_floer_homology:
  assumes "ef_n_edges F > 0" and "2 \<le> length (criticals order1 F)"
  shows "\<exists>inst boundary. run_floer_analysis order1 order2 order3 old F =
      compute_floer_homology (criticals order1 F) inst boundary \<and>
      boundary_rank boundary (criticals order1 F) Minimum Saddle = 0 \<and>
      boundary_rank boundary (criticals order1 F) Saddle Maximum = 0"
proof -
  obtain crit emitted where k1: "kernel_find_critical_points order1 F (\<lambda>_. zero_critical, 0) = (crit, emitted)"
    by fastforce
  let ?cs = "criticals order1 F"
  let ?n = "length ?cs"
  have n: "min emitted k_floer_max_criticals = ?n" and cs: "map crit [0..<?n] = ?cs"
    using kernel_find_critical_points_result [OF k1 refl] by metis+
  obtain inst emitted2 where k2: "kernel_find_instantons order2 F crit ?n (old, 0) = (inst, emitted2)" by fastforce
  let ?m = "min emitted2 (k_floer_max_criticals * k_floer_max_criticals)"
  let ?b = "if ?m > 0 then kernel_build_floer_boundary order3 crit inst ?n ?m (\<lambda>_. 0) else (\<lambda>_. 0)"
  have run: "run_floer_analysis order1 order2 order3 old F = compute_floer_homology ?cs (map inst [0..<?m]) ?b"
    using assms unfolding run_floer_analysis_def
    by (simp only: k1 prod.case Let_def n k2 cs) (simp add: not_less)
  have nth: "?cs ! i = crit i" if "i < ?n" for i using arg_cong [OF cs, of "\<lambda>xs. xs ! i"] that by simp
  have slot: "\<exists>tid. instanton F crit ?n tid = Some (inst k)" if "k < ?m" for k
    using kernel_find_instantons_slot [OF k2 that] .
  have "boundary_rank ?b ?cs lower upper = 0" if "morse_int lower \<le> morse_int upper" for lower upper
  proof (rule boundary_rank_zero)
    fix i j
    assume "i < ?n" "j < ?n" "cp_morse_index (?cs ! i) = lower" "cp_morse_index (?cs ! j) = upper"
    with that show "?b (i * ?n + j) = 0"
      using boundary_lower_zero [where i = i and j = j and order = order3 and n_inst = ?m and inst = inst, OF slot] nth
      by auto
  qed
  then have "boundary_rank ?b ?cs Minimum Saddle = 0" "boundary_rank ?b ?cs Saddle Maximum = 0"
    by (simp_all add: morse_int_def)
  with run show ?thesis by blast
qed

lemma n_grade_sum: "n_grade cs Minimum + n_grade cs Saddle + n_grade cs Maximum = int (length cs)"
proof (induction cs)
  case (Cons c cs)
  then show ?case by (cases "cp_morse_index c") (simp_all add: n_grade_def)
qed (simp add: n_grade_def)

lemma compute_floer_ranks:
  assumes "crit \<noteq> []" and "boundary_rank boundary crit Minimum Saddle = 0" "boundary_rank boundary crit Saddle Maximum = 0"
    and "r = compute_floer_homology crit inst boundary"
  shows "fr_n_criticals r = length crit" "fr_rank_HF0 r = n_grade crit Minimum" "fr_rank_HF1 r = n_grade crit Saddle"
    "fr_rank_HF2 r = n_grade crit Maximum"
    "fr_euler_characteristic r = n_grade crit Minimum - n_grade crit Saddle + n_grade crit Maximum"
    "fr_entry_signal r =
       (if n_grade crit Minimum > n_grade crit Maximum \<and> n_grade crit Minimum > n_grade crit Saddle then Minimum
        else if n_grade crit Maximum > n_grade crit Minimum \<and> n_grade crit Maximum > n_grade crit Saddle then Maximum
        else Saddle)"
proof -
  have "max 0 (n_grade crit m) = n_grade crit m" for m by (simp add: n_grade_def)
  then show "fr_n_criticals r = length crit" "fr_rank_HF0 r = n_grade crit Minimum" "fr_rank_HF1 r = n_grade crit Saddle"
    "fr_rank_HF2 r = n_grade crit Maximum"
    "fr_euler_characteristic r = n_grade crit Minimum - n_grade crit Saddle + n_grade crit Maximum"
    "fr_entry_signal r =
       (if n_grade crit Minimum > n_grade crit Maximum \<and> n_grade crit Minimum > n_grade crit Saddle then Minimum
        else if n_grade crit Maximum > n_grade crit Minimum \<and> n_grade crit Maximum > n_grade crit Saddle then Maximum
        else Saddle)"
    unfolding assms(4) compute_floer_homology_def Let_def assms(2,3) of_nat_0 diff_0_right length_grade
    using assms(1) by simp_all
qed

text \<open>
  (C38) The homology pass never cancels anything: whatever the field and the scheduling of the kernels,
  once there are two critical edges the three ranks are exactly the numbers of critical edges of the
  three Morse indices, as if no instanton existed, and the Euler characteristic is their alternating
  sum. The boundary kernel writes every entry at (higher index, lower index) and the rank
  computation reads the entries at (lower index, higher index), which stay zero.
\<close>

theorem floer_ranks_ignore_instantons:
  assumes "ef_n_edges F > 0" and "2 \<le> length (criticals order1 F)"
    and "r = run_floer_analysis order1 order2 order3 old F"
  shows "fr_rank_HF0 r = n_grade (criticals order1 F) Minimum \<and>
     fr_rank_HF1 r = n_grade (criticals order1 F) Saddle \<and>
     fr_rank_HF2 r = n_grade (criticals order1 F) Maximum \<and>
     fr_rank_HF0 r + fr_rank_HF1 r + fr_rank_HF2 r = int (fr_n_criticals r) \<and>
     fr_euler_characteristic r = fr_rank_HF0 r - fr_rank_HF1 r + fr_rank_HF2 r"
proof -
  let ?cs = "criticals order1 F"
  obtain inst boundary where run: "r = compute_floer_homology ?cs inst boundary"
    and z: "boundary_rank boundary ?cs Minimum Saddle = 0" "boundary_rank boundary ?cs Saddle Maximum = 0"
    using run_floer_homology [OF assms(1,2)] assms(3) by metis
  have ne: "?cs \<noteq> []" using assms(2) by auto
  show ?thesis using compute_floer_ranks [OF ne z run] n_grade_sum [of ?cs] by simp
qed

text \<open>
  A triangle of edges with a strong, a medium and a weak curl: one critical edge of each index, all
  connected by instantons.
\<close>

definition demo_field :: edge_field where
  "demo_field = \<lparr>ef_curl_magnitude = [1, 1 / 2, 1 / 50], ef_curl_coexact = [1, 1 / 2, 1 / 50],
     ef_edge_src = [0, 1, 2], ef_edge_dst = [1, 2, 0], ef_n_edges = 3, ef_ym_action = 1\<rparr>"

lemma demo_neighbours: "neighbours demo_field 0 = [1, 2]" "neighbours demo_field (Suc 0) = [0, 2]" "neighbours demo_field 2 = [0, 1]"
  by (simp_all add: neighbours_def demo_field_def Let_def upt_conv_Cons)

lemma demo_critical:
  "map_option cp_morse_index (critical_point demo_field 0) = Some Maximum"
  "map_option cp_morse_index (critical_point demo_field 1) = Some Saddle"
  "map_option cp_morse_index (critical_point demo_field 2) = Some Minimum"
  by (simp_all add: critical_point_def demo_neighbours Let_def)
    (simp_all add: demo_field_def k_instanton_threshold_def)

definition demo_instantons :: "nat \<Rightarrow> InstantonPath" where
  "demo_instantons = (\<lambda>_. \<lparr>ip_src_critical = -1, ip_dst_critical = -1, ip_path_action = 0,
     ip_self_dual_residual = 0, ip_valid = False\<rparr>)"

theorem floer_ranks_ignore_instantons_witness:
  "let r = run_floer_analysis [0, 1, 2] [0, 1, 2, 3, 4, 5, 6, 7, 8] [0, 1, 2] demo_instantons demo_field
   in fr_rank_HF0 r = 1 \<and> fr_rank_HF1 r = 1 \<and> fr_rank_HF2 r = 1"
proof -
  obtain a b c where c: "critical_point demo_field 0 = Some a" "critical_point demo_field 1 = Some b"
    "critical_point demo_field 2 = Some c" and m: "cp_morse_index a = Maximum" "cp_morse_index b = Saddle"
    "cp_morse_index c = Minimum"
    using demo_critical by (auto simp: map_option_case split: option.splits)
  have cs: "criticals [0, 1, 2] demo_field = [a, b, c]"
    by (simp add: criticals_def c [simplified] List.map_filter_simps k_floer_max_criticals_def)
  show ?thesis
    using floer_ranks_ignore_instantons [OF _ _ refl, of demo_field "[0, 1, 2]" "[0, 1, 2, 3, 4, 5, 6, 7, 8]" "[0, 1, 2]" demo_instantons]
    by (simp add: cs [simplified] n_grade_def m demo_field_def [THEN arg_cong, of ef_n_edges] Let_def)
qed

section \<open>Independence of the scheduling\<close>

lemma map_filter_mset: "mset xs = mset ys \<Longrightarrow> mset (List.map_filter f xs) = mset (List.map_filter f ys)"
  by (simp add: List.map_filter_def mset_map mset_filter)

text \<open>
  The ranks do not depend on how the GPU schedules its threads: as long as the field has at most
  256 critical edges, two passes over the same field, in whatever order the threads of the three
  kernels run, report the same number of critical edges, the same ranks, the same Euler
  characteristic and the same entry signal.
\<close>

theorem floer_schedule_independent:
  assumes "mset order1 = mset order1'" and "length (List.map_filter (critical_point F) order1) \<le> k_floer_max_criticals"
    and "r = run_floer_analysis order1 order2 order3 old F" and "r' = run_floer_analysis order1' order2' order3' old' F"
  shows "fr_n_criticals r = fr_n_criticals r' \<and> fr_rank_HF0 r = fr_rank_HF0 r' \<and> fr_rank_HF1 r = fr_rank_HF1 r' \<and>
     fr_rank_HF2 r = fr_rank_HF2 r' \<and> fr_euler_characteristic r = fr_euler_characteristic r' \<and>
     fr_entry_signal r = fr_entry_signal r'"
proof -
  let ?cs = "criticals order1 F" and ?cs' = "criticals order1' F"
  have m: "mset (List.map_filter (critical_point F) order1) = mset (List.map_filter (critical_point F) order1')"
    using assms(1) by (rule map_filter_mset)
  then have "length (List.map_filter (critical_point F) order1') \<le> k_floer_max_criticals"
    using assms(2) mset_eq_length by metis
  with m assms(2) have eq: "mset ?cs = mset ?cs'" by (simp add: criticals_def)
  then have len: "length ?cs = length ?cs'" by (rule mset_eq_length)
  have grade: "n_grade ?cs g = n_grade ?cs' g" for g
    using arg_cong [OF eq, of "\<lambda>M. size (filter_mset (\<lambda>cp. cp_morse_index cp = g) M)"]
    by (simp add: n_grade_def flip: mset_filter)
  show ?thesis
  proof (cases "0 < ef_n_edges F \<and> 2 \<le> length ?cs")
    case True
    then have t': "0 < ef_n_edges F" "2 \<le> length ?cs'" using len by simp_all
    obtain i1 b1 where r1: "r = compute_floer_homology ?cs i1 b1" "boundary_rank b1 ?cs Minimum Saddle = 0"
        "boundary_rank b1 ?cs Saddle Maximum = 0"
      using run_floer_homology True assms(3) by metis
    obtain i2 b2 where r2: "r' = compute_floer_homology ?cs' i2 b2" "boundary_rank b2 ?cs' Minimum Saddle = 0"
        "boundary_rank b2 ?cs' Saddle Maximum = 0"
      using run_floer_homology t' assms(4) by metis
    have "?cs \<noteq> []" "?cs' \<noteq> []" using True t' by auto
    then show ?thesis
      using compute_floer_ranks [OF _ r1(2,3,1)] compute_floer_ranks [OF _ r2(2,3,1)] len grade by simp
  next
    case False
    have small: "run_floer_analysis o1 o2 o3 old F = (if ef_n_edges F = 0 then FloerRecord0
        else FloerRecord0\<lparr>fr_n_criticals := length (criticals o1 F)\<rparr>)"
      if "\<not> (0 < ef_n_edges F \<and> 2 \<le> length (criticals o1 F))" for o1 o2 o3 old
    proof -
      obtain crit emitted where k1: "kernel_find_critical_points o1 F (\<lambda>_. zero_critical, 0) = (crit, emitted)"
        by fastforce
      have "min emitted k_floer_max_criticals = length (criticals o1 F)"
        using kernel_find_critical_points_result [OF k1 refl] by simp
      with that show ?thesis by (auto simp: run_floer_analysis_def k1 Let_def)
    qed
    show ?thesis using small [of order1] small [of order1'] False len assms(3,4) by simp
  qed
qed

theorem floer_schedule_independent_witness:
  "fr_entry_signal (run_floer_analysis [0, 1, 2] [0, 1, 2] [0] demo_instantons demo_field) =
   fr_entry_signal (run_floer_analysis [2, 0, 1] [2, 1, 0] [0] demo_instantons demo_field)"
proof -
  have "length (List.map_filter (critical_point demo_field) [0, 1, 2]) \<le> k_floer_max_criticals"
    by (simp add: List.map_filter_def k_floer_max_criticals_def)
  from floer_schedule_independent [OF _ this refl refl, of "[2, 0, 1]"] show ?thesis
    by (simp add: add_mset_commute)
qed

end
