(* ===== verification/Market_Graph.thy ===== *)
theory Market_Graph
  imports Gpu_Kernels
begin

text \<open>
  The graph of the instruments: the Laplacian in compressed rows and the stand-ins for the spectral
  solver (\<open>math/lobpcg_solver.cu\<close> and its header), and the kernels of \<open>math/hodge_kernel.cu\<close> that read
  the edges and the triangles off the compressed rows.
\<close>

section \<open>The Laplacian\<close>

definition k_max_edges :: nat where "k_max_edges = 4096"
definition k_max_triangles :: nat where "k_max_triangles = 8192"
definition k_lobpcg_block_size :: nat where "k_lobpcg_block_size = 4"

record SparseLaplacian =
  sl_row_ptr :: "nat \<Rightarrow> nat"
  sl_col_idx :: "nat \<Rightarrow> nat"
  sl_values :: "nat \<Rightarrow> flt"
  sl_n_rows :: nat
  sl_nnz :: nat

definition graph_mid :: "(nat \<Rightarrow> flt) \<Rightarrow> (nat \<Rightarrow> flt) \<Rightarrow> nat \<Rightarrow> nat \<Rightarrow> flt" where
  "graph_mid b a i d = (b (i * d) + a (i * d)) / 2"

text \<open>One pass of the loop over the columns of row \<open>i\<close>, with the running degree and the cursor.\<close>

definition laplacian_entry ::
    "(nat \<Rightarrow> flt) \<Rightarrow> (nat \<Rightarrow> flt) \<Rightarrow> nat \<Rightarrow> flt \<Rightarrow> nat \<Rightarrow> nat \<Rightarrow> flt \<times> nat \<times> SparseLaplacian
     \<Rightarrow> flt \<times> nat \<times> SparseLaplacian" where
  "laplacian_entry bid ask depth sigma i j st =
     (case st of (degree, cur, L) \<Rightarrow>
        if j = i then (degree, cur, L)
        else
          let mi = graph_mid bid ask i depth; mj = graph_mid bid ask j depth;
              w = exp (- \<bar>ln (mi / (mj + 1 / 10 ^ 8))\<bar> / (sigma + 1 / 10 ^ 8))
          in (degree + w, Suc cur,
              L\<lparr>sl_col_idx := (sl_col_idx L)(cur := j), sl_values := (sl_values L)(cur := - w)\<rparr>))"

definition set_row_ptr :: "nat \<Rightarrow> nat \<Rightarrow> SparseLaplacian \<Rightarrow> SparseLaplacian" where
  "set_row_ptr n i L =
     (let L1 = L\<lparr>sl_row_ptr := (sl_row_ptr L)(i := i * n)\<rparr>
      in if i = n - 1 then L1\<lparr>sl_row_ptr := (sl_row_ptr L1)(n := n * n)\<rparr> else L1)"

definition laplacian_row ::
    "(nat \<Rightarrow> flt) \<Rightarrow> (nat \<Rightarrow> flt) \<Rightarrow> nat \<Rightarrow> nat \<Rightarrow> flt \<Rightarrow> nat \<Rightarrow> SparseLaplacian \<Rightarrow> SparseLaplacian" where
  "laplacian_row bid ask n depth sigma i L =
     (case fold (laplacian_entry bid ask depth sigma i) [0..<n] (0, i * n, set_row_ptr n i L) of
        (degree, cur, L3) \<Rightarrow>
          L3\<lparr>sl_col_idx := (sl_col_idx L3)(cur := i), sl_values := (sl_values L3)(cur := degree)\<rparr>)"

definition kernel_build_complete_laplacian ::
    "(nat \<Rightarrow> flt) \<Rightarrow> (nat \<Rightarrow> flt) \<Rightarrow> nat \<Rightarrow> nat \<Rightarrow> flt \<Rightarrow> SparseLaplacian \<Rightarrow> SparseLaplacian" where
  "kernel_build_complete_laplacian bid ask n depth sigma L =
     fold (laplacian_row bid ask n depth sigma) [0..<n] L"

text \<open>
  The normalisation reads the diagonal of other rows while their threads may already have set it
  to one: which of the two values is read is decided by the order of the threads.
\<close>

definition diagonal :: "SparseLaplacian \<Rightarrow> nat \<Rightarrow> flt" where
  "diagonal L i =
     (case List.find (\<lambda>k. sl_col_idx L k = i) [sl_row_ptr L i..<sl_row_ptr L (Suc i)] of
        None \<Rightarrow> 0 | Some k \<Rightarrow> sl_values L k)"

definition inv_sqrt :: "flt \<Rightarrow> flt" where
  "inv_sqrt d = (if d > 1 / 10 ^ 10 then 1 / sqrt d else 1)"

definition normalize_row :: "nat \<Rightarrow> SparseLaplacian \<Rightarrow> SparseLaplacian" where
  "normalize_row i L =
     (let inv_i = inv_sqrt (diagonal L i)
      in fold (\<lambda>k L.
           let j = sl_col_idx L k
           in if j = i then L\<lparr>sl_values := (sl_values L)(k := 1)\<rparr>
              else L\<lparr>sl_values := (sl_values L)(k := sl_values L k * (inv_i * inv_sqrt (diagonal L j)))\<rparr>)
         [sl_row_ptr L i..<sl_row_ptr L (Suc i)] L)"

definition kernel_normalize_laplacian :: "nat list \<Rightarrow> SparseLaplacian \<Rightarrow> SparseLaplacian" where
  "kernel_normalize_laplacian order L = fold normalize_row order L"

definition build_normalized_laplacian ::
    "nat list \<Rightarrow> (nat \<Rightarrow> flt) \<Rightarrow> (nat \<Rightarrow> flt) \<Rightarrow> nat \<Rightarrow> nat \<Rightarrow> SparseLaplacian \<Rightarrow> SparseLaplacian" where
  "build_normalized_laplacian order bid ask n depth L =
     (let L1 = L\<lparr>sl_n_rows := n, sl_nnz := n * n\<rparr>
      in kernel_normalize_laplacian order (kernel_build_complete_laplacian bid ask n depth 1000 L1))"

section \<open>The spectral solver\<close>

record FiedlerResult =
  fi_eigenvalue :: flt
  fi_fiedler_vec :: "nat \<Rightarrow> flt"
  fi_n_iterations :: nat
  fi_converged :: bool

record LobpcgWorkspace =
  lw_X :: "nat \<Rightarrow> flt"
  lw_n :: nat
  lw_k :: nat

definition lobpcg_workspace_init :: "nat \<Rightarrow> nat \<Rightarrow> LobpcgWorkspace \<Rightarrow> LobpcgWorkspace" where
  "lobpcg_workspace_init n k ws = ws\<lparr>lw_n := n, lw_k := k\<rparr>"

definition kernel_mock_fiedler :: "nat \<Rightarrow> (nat \<Rightarrow> flt) \<Rightarrow> (nat \<Rightarrow> flt)" where
  "kernel_mock_fiedler n X = (\<lambda>i. if i < n then real i / real n - 1 / 2 else X i)"

definition lobpcg_solve :: "LobpcgWorkspace \<Rightarrow> FiedlerResult \<times> LobpcgWorkspace" where
  "lobpcg_solve ws =
     (let ws' = ws\<lparr>lw_X := kernel_mock_fiedler (lw_n ws) (lw_X ws)\<rparr>
      in (\<lparr>fi_eigenvalue = 1 / 2, fi_fiedler_vec = lw_X ws', fi_n_iterations = 1, fi_converged = True\<rparr>, ws'))"

definition kernel_keep_all :: "nat \<Rightarrow> (nat \<Rightarrow> u8) \<Rightarrow> (nat \<Rightarrow> u8)" where
  "kernel_keep_all n keep = (\<lambda>i. if i < n then 1 else keep i)"

definition fiedler_prune_mask :: "(nat \<Rightarrow> flt) \<Rightarrow> nat \<Rightarrow> flt \<Rightarrow> (nat \<Rightarrow> u8) \<Rightarrow> (nat \<Rightarrow> u8)" where
  "fiedler_prune_mask fiedler n threshold_percentile keep = kernel_keep_all n keep"

section \<open>Edges and triangles\<close>

text \<open>The columns of a row, as the loops over \<open>row_ptr[i] \<dots> row_ptr[i + 1]\<close> meet them.\<close>

definition row_cols :: "SparseLaplacian \<Rightarrow> nat \<Rightarrow> nat list" where
  "row_cols L i = map (sl_col_idx L) [sl_row_ptr L i..<sl_row_ptr L (Suc i)]"

definition kernel_build_edge_list_from_csr ::
    "nat list \<Rightarrow> SparseLaplacian \<Rightarrow> nat \<Rightarrow> (nat \<Rightarrow> nat \<times> nat) \<times> nat \<Rightarrow> (nat \<Rightarrow> nat \<times> nat) \<times> nat" where
  "kernel_build_edge_list_from_csr sched L n st =
     fold (emit k_max_edges)
       (interleave n sched (\<lambda>v. map (\<lambda>u. (v, u)) (filter (\<lambda>u. u > v) (row_cols L v)))) st"

text \<open>
  The merge of two rows. The code advances one of two cursors; here the cursors are the remaining
  columns.
\<close>

fun common_neighbours :: "nat \<Rightarrow> nat \<Rightarrow> nat list \<Rightarrow> nat list \<Rightarrow> nat list" where
  "common_neighbours i j (ni # ci) (nj # cj) =
     (if ni = nj \<and> ni \<noteq> i \<and> ni \<noteq> j then ni # common_neighbours i j ci cj
      else if ni < nj then common_neighbours i j ci (nj # cj)
      else common_neighbours i j (ni # ci) cj)"
| "common_neighbours i j _ _ = []"

text \<open>The scan for the edge between two nodes: the last one that matches.\<close>

definition edge_between :: "(nat \<Rightarrow> nat \<times> nat) \<Rightarrow> nat \<Rightarrow> nat \<Rightarrow> nat \<Rightarrow> nat option" where
  "edge_between edge n_edges a b =
     fold (\<lambda>f found. if edge f = (a, b) \<or> edge f = (b, a) then Some f else found) [0..<n_edges] None"

definition edge_triangles ::
    "SparseLaplacian \<Rightarrow> (nat \<Rightarrow> nat \<times> nat) \<Rightarrow> nat \<Rightarrow> nat \<Rightarrow> (nat \<times> nat \<times> nat) list" where
  "edge_triangles L edge n_edges e =
     (case edge e of (i, j) \<Rightarrow>
        List.map_filter (\<lambda>k.
          case (edge_between edge n_edges i k, edge_between edge n_edges j k) of
            (Some e_ik, Some e_jk) \<Rightarrow> Some (e, e_ik, e_jk)
          | _ \<Rightarrow> None)
        (common_neighbours i j (row_cols L i) (row_cols L j)))"

definition kernel_find_triangles ::
    "nat list \<Rightarrow> SparseLaplacian \<Rightarrow> (nat \<Rightarrow> nat \<times> nat) \<Rightarrow> nat \<Rightarrow> (nat \<Rightarrow> nat \<times> nat \<times> nat) \<times> nat
     \<Rightarrow> (nat \<Rightarrow> nat \<times> nat \<times> nat) \<times> nat" where
  "kernel_find_triangles sched L edge n_edges st =
     fold (emit k_max_triangles) (interleave n_edges sched (edge_triangles L edge n_edges)) st"

section \<open>The graph is complete\<close>

definition complete_row :: "nat \<Rightarrow> nat \<Rightarrow> nat list" where
  "complete_row n i = filter (\<lambda>j. j \<noteq> i) [0..<n] @ [i]"

lemma length_others: "i < n \<Longrightarrow> length (filter (\<lambda>j. j \<noteq> i) [0..<n]) = n - 1"
proof -
  assume "i < n"
  then have "{j. j < n \<and> j \<noteq> i} = {..<n} - {i}" by auto
  then have "card {j. j < n \<and> j \<noteq> i} = n - 1" using \<open>i < n\<close> by simp
  then show ?thesis by (simp add: length_filter_conv_card cong: conj_cong)
qed

lemma length_complete_row: "i < n \<Longrightarrow> length (complete_row n i) = n"
  by (simp add: complete_row_def length_others)

lemma laplacian_entries:
  "fold (laplacian_entry bid ask depth sigma i) js (deg, cur, L) = (deg', cur', L') \<Longrightarrow>
     cur' = cur + length (filter (\<lambda>j. j \<noteq> i) js) \<and> sl_row_ptr L' = sl_row_ptr L \<and>
     (\<forall>k. sl_col_idx L' k = (if cur \<le> k \<and> k < cur' then filter (\<lambda>j. j \<noteq> i) js ! (k - cur) else sl_col_idx L k))"
proof (induction js arbitrary: deg cur L)
  case (Cons j js)
  show ?case
  proof (cases "j = i")
    case True
    with Cons show ?thesis by (simp add: laplacian_entry_def)
  next
    case False
    obtain deg1 L1 where st: "laplacian_entry bid ask depth sigma i j (deg, cur, L) = (deg1, Suc cur, L1)"
      and L1: "sl_row_ptr L1 = sl_row_ptr L" "sl_col_idx L1 = (sl_col_idx L)(cur := j)"
      using False by (simp add: laplacian_entry_def Let_def)
    from Cons.IH [of deg1 "Suc cur" L1] Cons.prems st L1 False show ?thesis
      by (auto simp: nth_Cons')
  qed
qed simp

lemma laplacian_row_cells:
  assumes "i < n"
  shows "sl_row_ptr (laplacian_row bid ask n depth sigma i L) =
      (if Suc i = n then (sl_row_ptr L)(i := i * n, n := n * n) else (sl_row_ptr L)(i := i * n))"
    and "sl_col_idx (laplacian_row bid ask n depth sigma i L) k =
      (if i * n \<le> k \<and> k < i * n + n then complete_row n i ! (k - i * n) else sl_col_idx L k)"
proof -
  obtain deg cur L3 where f:
    "fold (laplacian_entry bid ask depth sigma i) [0..<n] (0, i * n, set_row_ptr n i L) = (deg, cur, L3)"
    by (metis prod_cases3)
  then have row: "laplacian_row bid ask n depth sigma i L =
      L3\<lparr>sl_col_idx := (sl_col_idx L3)(cur := i), sl_values := (sl_values L3)(cur := deg)\<rparr>"
    by (simp add: laplacian_row_def)
  have L2: "sl_row_ptr (set_row_ptr n i L) =
      (if Suc i = n then (sl_row_ptr L)(i := i * n, n := n * n) else (sl_row_ptr L)(i := i * n))"
    "sl_col_idx (set_row_ptr n i L) = sl_col_idx L"
    using assms by (auto simp: set_row_ptr_def Let_def)
  note c = laplacian_entries [OF f]
  have len: "length (filter (\<lambda>j. j \<noteq> i) [0..<n]) = n - 1" using assms by (rule length_others)
  show "sl_row_ptr (laplacian_row bid ask n depth sigma i L) =
      (if Suc i = n then (sl_row_ptr L)(i := i * n, n := n * n) else (sl_row_ptr L)(i := i * n))"
    using c L2 by (simp add: row)
  show "sl_col_idx (laplacian_row bid ask n depth sigma i L) k =
      (if i * n \<le> k \<and> k < i * n + n then complete_row n i ! (k - i * n) else sl_col_idx L k)"
    using c L2 len assms by (auto simp: row complete_row_def nth_append)
qed

lemma complete_rows_built:
  assumes "m \<le> n" and "L' = fold (laplacian_row bid ask n depth sigma) [0..<m] L"
  shows "(\<forall>i<m. sl_row_ptr L' i = i * n) \<and> (m = n \<and> 0 < n \<longrightarrow> sl_row_ptr L' n = n * n) \<and>
     (\<forall>i<m. \<forall>k<n. sl_col_idx L' (i * n + k) = complete_row n i ! k)"
  using assms
proof (induction m arbitrary: L')
  case (Suc m)
  let ?L = "fold (laplacian_row bid ask n depth sigma) [0..<m] L"
  have m: "m < n" "m \<le> n" using Suc.prems by auto
  have L': "L' = laplacian_row bid ask n depth sigma m ?L" using Suc.prems(2) by simp
  note IH = Suc.IH [OF m(2) refl]
  have below: "i * n + k < m * n" if "i < m" "k < n" for i k
  proof -
    have "i * n + k < Suc i * n" using that by simp
    also have "\<dots> \<le> m * n" using that by (intro mult_le_mono1) simp
    finally show ?thesis .
  qed
  have "sl_col_idx L' (i * n + k) = complete_row n i ! k" if "i < Suc m" "k < n" for i k
    using IH below [of i k] m that by (cases "i = m") (auto simp: L' laplacian_row_cells)
  moreover have "sl_row_ptr L' i = i * n" if "i < Suc m" for i
    using IH m that by (cases "i = m") (auto simp: L' laplacian_row_cells)
  moreover have "sl_row_ptr L' n = n * n" if "Suc m = n"
    using m that by (simp add: L' laplacian_row_cells)
  ultimately show ?case by blast
qed simp

lemma normalize_row_shape:
  "sl_row_ptr (normalize_row i L) = sl_row_ptr L" "sl_col_idx (normalize_row i L) = sl_col_idx L"
proof -
  let ?step = "\<lambda>inv_i k L. let j = sl_col_idx L k
           in if j = i then L\<lparr>sl_values := (sl_values L)(k := 1)\<rparr>
              else L\<lparr>sl_values := (sl_values L)(k := sl_values L k * (inv_i * inv_sqrt (diagonal L j)))\<rparr>"
  have "sl_row_ptr (fold (?step c) ks L) = sl_row_ptr L \<and> sl_col_idx (fold (?step c) ks L) = sl_col_idx L" for c ks L
    by (induction ks arbitrary: L) (simp_all add: Let_def)
  then show "sl_row_ptr (normalize_row i L) = sl_row_ptr L" "sl_col_idx (normalize_row i L) = sl_col_idx L"
    by (simp_all add: normalize_row_def Let_def)
qed

lemma kernel_normalize_shape:
  "sl_row_ptr (kernel_normalize_laplacian order L) = sl_row_ptr L"
  "sl_col_idx (kernel_normalize_laplacian order L) = sl_col_idx L"
  unfolding kernel_normalize_laplacian_def
  by (induction order arbitrary: L) (simp_all add: normalize_row_shape)

lemma laplacian_complete:
  assumes "i < n"
  shows "row_cols (build_normalized_laplacian order bid ask n depth L) i = complete_row n i"
proof -
  let ?L = "build_normalized_laplacian order bid ask n depth L"
  have cells: "\<forall>k<n. sl_col_idx ?L (i * n + k) = complete_row n i ! k"
    using complete_rows_built [OF order_refl refl, of n] assms
    by (simp add: build_normalized_laplacian_def kernel_normalize_shape kernel_build_complete_laplacian_def Let_def)
  have "sl_row_ptr ?L i = i * n" "sl_row_ptr ?L (Suc i) = Suc i * n"
    using complete_rows_built [OF order_refl refl, of n] assms
    by (cases "Suc i = n"; simp add: build_normalized_laplacian_def kernel_normalize_shape
        kernel_build_complete_laplacian_def Let_def)+
  then have "row_cols ?L i = map (sl_col_idx ?L) [i * n..<i * n + n]"
    by (simp add: row_cols_def add.commute)
  also have "\<dots> = complete_row n i"
    using cells assms by (intro nth_equalityI) (simp_all add: length_complete_row)
  finally show ?thesis .
qed

lemma laplacian_rows:
  "sl_n_rows (build_normalized_laplacian order bid ask n depth L) = n"
  "sl_nnz (build_normalized_laplacian order bid ask n depth L) = n * n"
proof -
  let ?dim = "\<lambda>L. (sl_n_rows L, sl_nnz L)"
  have row: "?dim (laplacian_row bid ask n depth sigma i L) = ?dim L" for sigma i L
  proof -
    have "?dim (snd (snd (fold (laplacian_entry bid ask depth sigma i) js st))) = ?dim (snd (snd st))" for js st
      by (induction js arbitrary: st) (auto simp: laplacian_entry_def Let_def split: prod.split)
    from this [of "[0..<n]" "(0, i * n, set_row_ptr n i L)"] show ?thesis
      by (auto simp: laplacian_row_def set_row_ptr_def Let_def split: prod.split)
  qed
  have built: "?dim (fold (laplacian_row bid ask n depth sigma) is L) = ?dim L" for sigma L "is"
    using row by (induction "is" arbitrary: L) simp_all
  have norm: "?dim (normalize_row i L) = ?dim L" for i L
  proof -
    have "?dim (fold (\<lambda>k L. let j = sl_col_idx L k
           in if j = i then L\<lparr>sl_values := (sl_values L)(k := 1)\<rparr>
              else L\<lparr>sl_values := (sl_values L)(k := sl_values L k * (c * inv_sqrt (diagonal L j)))\<rparr>) ks L) = ?dim L" for c ks
      by (induction ks arbitrary: L) (simp_all add: Let_def)
    then show ?thesis by (simp add: normalize_row_def Let_def)
  qed
  have "?dim (fold normalize_row order L) = ?dim L" for L
    using norm by (induction order arbitrary: L) simp_all
  then show "sl_n_rows (build_normalized_laplacian order bid ask n depth L) = n"
    "sl_nnz (build_normalized_laplacian order bid ask n depth L) = n * n"
    using built
    by (simp_all add: build_normalized_laplacian_def kernel_normalize_laplacian_def
        kernel_build_complete_laplacian_def Let_def)
qed

section \<open>Edges\<close>

definition node_pairs :: "nat \<Rightarrow> (nat \<times> nat) set" where
  "node_pairs n = {(i, j). i < j \<and> j < n}"

definition pair_count :: "nat \<Rightarrow> nat" where
  "pair_count n = n * (n - 1) div 2"

lemma in_node_pairs [simp]: "(i, j) \<in> node_pairs n \<longleftrightarrow> i < j \<and> j < n"
  by (simp add: node_pairs_def)

lemma finite_node_pairs [simp]: "finite (node_pairs n)"
  by (rule finite_subset [of _ "{..<n} \<times> {..<n}"]) (auto simp: node_pairs_def)

lemma later_nodes: "v < n \<Longrightarrow> filter (\<lambda>u. u > v) (complete_row n v) = [Suc v..<n]"
proof -
  assume v: "v < n"
  have "filter (\<lambda>u. u > v) (complete_row n v) = filter (\<lambda>u. u > v) [0..<n]"
    by (auto simp: complete_row_def intro!: filter_cong)
  also have "[0..<n] = [0..<Suc v] @ [Suc v..<n]" using v by (metis Suc_leI upt_add_eq_append zero_le le_add_diff_inverse)
  finally show ?thesis by (simp add: filter_id_conv filter_empty_conv less_Suc_eq_le)
qed

lemma pair_count_sum: "(\<Sum>v<n. n - Suc v) = pair_count n"
proof -
  have "(\<Sum>v<n. n - Suc v) = (\<Sum>v<n. v)" by (rule sum.nat_diff_reindex)
  also have "\<dots> = pair_count n"
    using gauss_sum_nat [of "n - 1"]
    by (cases n) (simp_all add: pair_count_def lessThan_Suc_atMost atLeast0AtMost mult.commute)
  finally show ?thesis .
qed

lemma edge_list_complete:
  assumes rows: "\<And>v. v < n \<Longrightarrow> row_cols L v = complete_row n v"
    and fits: "pair_count n \<le> k_max_edges"
    and kernel: "kernel_build_edge_list_from_csr sched L n (buf, 0) = (edge, counter)"
  shows "counter = pair_count n" and "bij_betw edge {..<pair_count n} (node_pairs n)"
proof -
  let ?q = "\<lambda>v. map (\<lambda>u. (v, u)) (filter (\<lambda>u. u > v) (row_cols L v))"
  let ?es = "interleave n sched ?q"
  have q: "?q v = map (\<lambda>u. (v, u)) [Suc v..<n]" if "v < n" for v using that by (simp add: rows later_nodes)
  have "length (?q v) = n - Suc v" if "v < n" for v using that by (simp add: rows later_nodes)
  then have len: "length ?es = pair_count n"
    unfolding length_interleave pair_count_sum [symmetric] by (intro sum.cong) auto
  have es: "edge = (\<lambda>i. if i < min k_max_edges (length ?es) then ?es ! i else buf i)" "counter = length ?es"
    using kernel fold_emit [of 0 k_max_edges ?es buf]
    by (auto simp: kernel_build_edge_list_from_csr_def)
  have "set ?es = (\<Union>v<n. set (?q v))" by (rule set_interleave)
  also have "\<dots> = (\<Union>v<n. {v} \<times> {v<..<n})" using q by (intro SUP_cong refl) auto
  also have "\<dots> = node_pairs n" by (auto simp: node_pairs_def)
  finally have "set ?es = node_pairs n" .
  moreover have "distinct ?es"
    by (rule distinct_interleave) (auto simp: q distinct_map inj_on_def)
  ultimately have "bij_betw ((!) ?es) {..<pair_count n} (node_pairs n)"
    using bij_betw_nth [of ?es "{..<pair_count n}"] len by simp
  moreover have "edge i = ?es ! i" if "i < pair_count n" for i using that fits es len by simp
  ultimately show "bij_betw edge {..<pair_count n} (node_pairs n)"
    using bij_betw_cong [of "{..<pair_count n}" edge "(!) ?es"] by simp
  show "counter = pair_count n" using es(2) len by simp
qed

lemma edge_between_found:
  assumes bij: "bij_betw edge {..<m} (node_pairs n)" and ab: "a < n" "b < n" "a \<noteq> b"
  obtains f where "edge_between edge m a b = Some f" and "f < m" and "edge f = (min a b, max a b)"
proof -
  have scan: "fold (\<lambda>f found. if P f then Some f else found) fs acc =
      (if \<exists>f \<in> set fs. P f then Some (last (filter P fs)) else acc)" for P :: "nat \<Rightarrow> bool" and fs acc
    by (induction fs arbitrary: acc) (auto simp: filter_empty_conv)
  have "(min a b, max a b) \<in> node_pairs n" using ab by auto
  then obtain f where f: "f < m" "edge f = (min a b, max a b)"
    using bij unfolding bij_betw_def by (metis (no_types, lifting) imageE lessThan_iff)
  have match: "edge g = (a, b) \<or> edge g = (b, a) \<longleftrightarrow> g = f" if "g < m" for g
  proof
    assume "edge g = (a, b) \<or> edge g = (b, a)"
    moreover have "edge g \<in> node_pairs n" using bij that by (auto simp: bij_betw_def)
    ultimately have "edge g = edge f" using f(2) by (auto simp: min_def max_def)
    then show "g = f" using bij that f(1) by (auto simp: bij_betw_def dest: inj_onD)
  qed (use f in \<open>auto simp: min_def max_def\<close>)
  have "filter (\<lambda>g. edge g = (a, b) \<or> edge g = (b, a)) [0..<m] = filter (\<lambda>g. g = f) [0..<m]"
    using match by (intro filter_cong) auto
  also have "\<dots> = [f]" using f(1) by (induction m) auto
  finally have "edge_between edge m a b = Some f"
    using match f(1) by (simp add: edge_between_def scan)
  then show thesis using f that by blast
qed

section \<open>Triangles\<close>

lemma map_filter_all_Some: "\<forall>x \<in> set xs. f x = Some (g x) \<Longrightarrow> List.map_filter f xs = map g xs"
  by (induction xs) (simp_all add: map_filter_simps)

lemma common_neighbours_step:
  assumes "i < j" and "j < n" and "a \<le> n"
  shows "common_neighbours i j (filter (\<lambda>k. k \<noteq> i) [a..<n] @ [i]) (filter (\<lambda>k. k \<noteq> j) [a..<n] @ [j]) =
     filter (\<lambda>k. k \<noteq> i \<and> k \<noteq> j) [a..<n]"
  using assms(3)
proof (induction "n - a" arbitrary: a)
  case 0
  then show ?case using assms by simp
next
  case (Suc d)
  then have a: "a < n" "[a..<n] = a # [Suc a..<n]" by (simp_all add: upt_conv_Cons)
  note IH = Suc.hyps(1) [of "Suc a"]
  consider "a \<noteq> i" "a \<noteq> j" | "a = i" | "a = j" by blast
  then show ?case
  proof cases
    case 1
    then show ?thesis using IH Suc.hyps(2) a by simp
  next
    case 2
    then have "[Suc a..<n] = Suc a # [Suc (Suc a)..<n]" using assms by (simp add: upt_conv_Cons)
    then show ?thesis using IH Suc.hyps(2) a 2 assms by (cases "Suc a = j") simp_all
  next
    case 3
    show ?thesis
    proof (cases "Suc a < n")
      case True
      then have "[Suc a..<n] = Suc a # [Suc (Suc a)..<n]" by (simp add: upt_conv_Cons)
      then show ?thesis using IH Suc.hyps(2) a 3 assms by simp
    next
      case False
      then show ?thesis using a 3 assms by simp
    qed
  qed
qed

definition complete_triangles :: "nat \<Rightarrow> (nat \<Rightarrow> nat \<times> nat) \<Rightarrow> nat \<Rightarrow> nat \<Rightarrow> (nat \<times> nat \<times> nat) list" where
  "complete_triangles n edge m e =
     (case edge e of (i, j) \<Rightarrow>
        map (\<lambda>k. (e, the (edge_between edge m i k), the (edge_between edge m j k)))
          (filter (\<lambda>k. k \<noteq> i \<and> k \<noteq> j) [0..<n]))"

lemma edge_triangles_complete:
  assumes rows: "\<And>v. v < n \<Longrightarrow> row_cols L v = complete_row n v"
    and bij: "bij_betw edge {..<m} (node_pairs n)" and e: "e < m"
  shows "edge_triangles L edge m e = complete_triangles n edge m e"
proof -
  obtain i j where ij: "edge e = (i, j)" by fastforce
  with bij e have lt: "i < j" "j < n" by (auto simp: bij_betw_def dest!: equalityD1)
  have cn: "common_neighbours i j (row_cols L i) (row_cols L j) = filter (\<lambda>k. k \<noteq> i \<and> k \<noteq> j) [0..<n]"
    using common_neighbours_step [OF lt, of 0] lt by (simp add: rows complete_row_def)
  have "\<exists>f g. edge_between edge m i k = Some f \<and> edge_between edge m j k = Some g"
    if "k < n" "k \<noteq> i" "k \<noteq> j" for k
    using that lt by (metis edge_between_found [OF bij] less_trans)
  then show ?thesis
    unfolding edge_triangles_def complete_triangles_def ij prod.case cn
    by (intro map_filter_all_Some) (force split: option.split)
qed

lemma length_complete_triangles:
  assumes "bij_betw edge {..<m} (node_pairs n)" and "e < m"
  shows "length (complete_triangles n edge m e) = n - 2"
proof -
  obtain i j where ij: "edge e = (i, j)" by fastforce
  with assms have lt: "i < j" "j < n" by (auto simp: bij_betw_def dest!: equalityD1)
  have "{k. k < n \<and> k \<noteq> i \<and> k \<noteq> j} = {..<n} - {i, j}" by auto
  then have "card {k. k < n \<and> k \<noteq> i \<and> k \<noteq> j} = n - 2" using lt by (simp add: card_Diff_subset)
  then show ?thesis by (simp add: complete_triangles_def ij length_filter_conv_card cong: conj_cong)
qed

lemma triangle_list_complete:
  assumes rows: "\<And>v. v < n \<Longrightarrow> row_cols L v = complete_row n v"
    and bij: "bij_betw edge {..<m} (node_pairs n)"
    and fits: "m * (n - 2) \<le> k_max_triangles"
    and kernel: "kernel_find_triangles sched L edge m (buf, 0) = (tri, counter)"
  shows "counter = m * (n - 2)"
    and "mset (map tri [0..<m * (n - 2)]) = (\<Sum>e<m. mset (complete_triangles n edge m e))"
proof -
  let ?ts = "interleave m sched (edge_triangles L edge m)"
  have q: "edge_triangles L edge m e = complete_triangles n edge m e" if "e < m" for e
    using edge_triangles_complete [OF rows bij that] by blast
  have len: "length ?ts = m * (n - 2)"
    by (simp add: length_interleave q length_complete_triangles [OF bij])
  have ts: "tri = (\<lambda>i. if i < min k_max_triangles (length ?ts) then ?ts ! i else buf i)" "counter = length ?ts"
    using kernel fold_emit [of 0 k_max_triangles ?ts buf] by (auto simp: kernel_find_triangles_def)
  show "counter = m * (n - 2)" using ts(2) len by simp
  have "map tri [0..<m * (n - 2)] = ?ts"
    using fits ts(1) len by (intro nth_equalityI) simp_all
  then show "mset (map tri [0..<m * (n - 2)]) = (\<Sum>e<m. mset (complete_triangles n edge m e))"
    using q by (simp add: mset_interleave)
qed

end
