(* ===== verification/Hodge_Kernel.thy ===== *)
theory Hodge_Kernel
  imports Market_Graph
begin

text \<open>
  The decomposition of the flow on the edges of the graph (\<open>math/hodge_kernel.cu\<close> and its header):
  incidence matrices, the Laplacian on edges, the harmonic, exact and coexact parts of the flow, the
  action and the signal extracted from them.

  The symmetric eigensolver is a library routine: it is an argument, of the number of edges and the
  matrix, that returns the eigenvalues and the eigenvectors. The clock is an argument of
  \<open>extract_arbitrage_signal\<close>. Sums are exact, so the order of the atomic additions of floats does
  not matter.
\<close>

section \<open>State\<close>

definition k_hodge_block_dim :: nat where "k_hodge_block_dim = 256"
definition k_harmonic_threshold :: flt where "k_harmonic_threshold = 1 / 10 ^ 4"
definition k_arbitrage_threshold :: flt where "k_arbitrage_threshold = 1 / 10 ^ 3"

record HodgeWorkspace =
  hw_B1 :: "nat \<Rightarrow> nat \<Rightarrow> flt"
  hw_B2 :: "nat \<Rightarrow> nat \<Rightarrow> flt"
  hw_L1 :: "nat \<Rightarrow> nat \<Rightarrow> flt"
  hw_omega :: "nat \<Rightarrow> flt"
  hw_gamma :: "nat \<Rightarrow> flt"
  hw_exact :: "nat \<Rightarrow> flt"
  hw_coexact :: "nat \<Rightarrow> flt"
  hw_curl_magnitude :: "nat \<Rightarrow> flt"
  hw_arb_signal :: "nat \<Rightarrow> flt"
  hw_prune_mask :: "nat \<Rightarrow> u8"
  hw_edge :: "nat \<Rightarrow> nat \<times> nat"
  hw_triangle_edges :: "nat \<Rightarrow> nat \<times> nat \<times> nat"
  hw_n_nodes :: nat
  hw_n_edges :: nat
  hw_n_triangles :: nat
  hw_n_harmonic_dims :: nat
  hw_yang_mills_action :: flt

text \<open>\<open>ws\<close> is the fresh device memory, whose other cells are arbitrary.\<close>

definition hodge_workspace_init :: "nat \<Rightarrow> HodgeWorkspace \<Rightarrow> HodgeWorkspace" where
  "hodge_workspace_init n_nodes ws =
     ws\<lparr>hw_B1 := \<lambda>_ _. 0, hw_B2 := \<lambda>_ _. 0, hw_L1 := \<lambda>_ _. 0, hw_omega := \<lambda>_. 0, hw_gamma := \<lambda>_. 0,
        hw_exact := \<lambda>_. 0, hw_coexact := \<lambda>_. 0, hw_curl_magnitude := \<lambda>_. 0, hw_arb_signal := \<lambda>_. 0,
        hw_prune_mask := \<lambda>_. 0, hw_triangle_edges := \<lambda>_. (0, 0, 0),
        hw_n_nodes := n_nodes, hw_n_edges := 0, hw_n_triangles := 0,
        hw_n_harmonic_dims := 0, hw_yang_mills_action := 0\<rparr>"

section \<open>Kernels\<close>

definition imbalance :: "flt \<Rightarrow> flt \<Rightarrow> flt" where
  "imbalance qb qa = (if qb + qa > 1 / 10 ^ 9 then (qb - qa) / (qb + qa) else 0)"

definition kernel_build_flow_vector ::
    "(nat \<Rightarrow> flt) \<Rightarrow> (nat \<Rightarrow> flt) \<Rightarrow> (nat \<Rightarrow> flt) \<Rightarrow> (nat \<Rightarrow> flt) \<Rightarrow> (nat \<Rightarrow> nat \<times> nat) \<Rightarrow> nat \<Rightarrow> nat
     \<Rightarrow> (nat \<Rightarrow> flt) \<Rightarrow> (nat \<Rightarrow> flt)" where
  "kernel_build_flow_vector bid ask bid_qty ask_qty edge n_edges depth omega =
     (\<lambda>e. if e < n_edges then
        (case edge e of (i, j) \<Rightarrow>
           \<Sum>d<depth.
             let mid_i = (bid (i * depth + d) + ask (i * depth + d)) / 2;
                 mid_j = (bid (j * depth + d) + ask (j * depth + d)) / 2;
                 imb_i = imbalance (bid_qty (i * depth + d)) (ask_qty (i * depth + d));
                 imb_j = imbalance (bid_qty (j * depth + d)) (ask_qty (j * depth + d))
             in ln (mid_j / (mid_i + 1 / 10 ^ 8)) * (imb_i - imb_j))
      else omega e)"

definition store :: "nat \<Rightarrow> nat \<Rightarrow> flt \<Rightarrow> (nat \<Rightarrow> nat \<Rightarrow> flt) \<Rightarrow> (nat \<Rightarrow> nat \<Rightarrow> flt)" where
  "store r c x M = M(r := (M r)(c := x))"

definition kernel_build_signed_incidence ::
    "(nat \<Rightarrow> nat \<times> nat) \<Rightarrow> nat \<Rightarrow> (nat \<Rightarrow> nat \<Rightarrow> flt) \<Rightarrow> (nat \<Rightarrow> nat \<Rightarrow> flt)" where
  "kernel_build_signed_incidence edge n_edges B1 =
     fold (\<lambda>e M. store (snd (edge e)) e 1 (store (fst (edge e)) e (-1) M)) [0..<n_edges] B1"

definition store_triangle ::
    "(nat \<Rightarrow> nat \<times> nat \<times> nat) \<Rightarrow> nat \<Rightarrow> nat \<Rightarrow> (nat \<Rightarrow> nat \<Rightarrow> flt) \<Rightarrow> (nat \<Rightarrow> nat \<Rightarrow> flt)" where
  "store_triangle tri n_edges t M =
     (case tri t of (e0, e1, e2) \<Rightarrow>
        let M0 = (if e0 < n_edges then store e0 t 1 M else M);
            M1 = (if e1 < n_edges then store e1 t 1 M0 else M0)
        in if e2 < n_edges then store e2 t (-1) M1 else M1)"

definition kernel_build_triangle_incidence ::
    "(nat \<Rightarrow> nat \<times> nat \<times> nat) \<Rightarrow> nat \<Rightarrow> nat \<Rightarrow> (nat \<Rightarrow> nat \<Rightarrow> flt) \<Rightarrow> (nat \<Rightarrow> nat \<Rightarrow> flt)" where
  "kernel_build_triangle_incidence tri n_triangles n_edges B2 =
     fold (store_triangle tri n_edges) [0..<n_triangles] B2"

definition kernel_hodge1_laplacian ::
    "(nat \<Rightarrow> nat \<Rightarrow> flt) \<Rightarrow> (nat \<Rightarrow> nat \<Rightarrow> flt) \<Rightarrow> nat \<Rightarrow> nat \<Rightarrow> nat \<Rightarrow> (nat \<Rightarrow> nat \<Rightarrow> flt)
     \<Rightarrow> (nat \<Rightarrow> nat \<Rightarrow> flt)" where
  "kernel_hodge1_laplacian B1 B2 n_edges n_nodes n_triangles L1 =
     (\<lambda>row col. if row < n_edges \<and> col < n_edges
        then (\<Sum>v<n_nodes. B1 v row * B1 v col) + (\<Sum>tri<n_triangles. B2 row tri * B2 col tri)
        else L1 row col)"

definition kernel_harmonic_projection ::
    "(nat \<Rightarrow> nat \<Rightarrow> flt) \<Rightarrow> (nat \<Rightarrow> flt) \<Rightarrow> (nat \<Rightarrow> flt) \<Rightarrow> nat \<Rightarrow> nat \<Rightarrow> flt \<Rightarrow> (nat \<Rightarrow> flt) \<Rightarrow> (nat \<Rightarrow> flt)" where
  "kernel_harmonic_projection eigenvectors eigenvalues omega n_edges n_eigs threshold gamma =
     (\<lambda>e. if e < n_edges
        then \<Sum>k<n_eigs. if \<bar>eigenvalues k\<bar> < threshold
               then eigenvectors k e * (\<Sum>f<n_edges. eigenvectors k f * omega f) else 0
        else gamma e)"

definition kernel_exact_component ::
    "(nat \<Rightarrow> nat \<Rightarrow> flt) \<Rightarrow> (nat \<Rightarrow> flt) \<Rightarrow> (nat \<Rightarrow> flt) \<Rightarrow> nat \<Rightarrow> nat \<Rightarrow> (nat \<Rightarrow> flt) \<Rightarrow> (nat \<Rightarrow> flt)" where
  "kernel_exact_component B1 omega gamma n_edges n_nodes exact =
     (\<lambda>e. if e < n_edges
        then \<Sum>v<n_nodes. B1 v e * (\<Sum>f<n_edges. B1 v f * (omega f - gamma f))
        else exact e)"

definition kernel_coexact_component ::
    "(nat \<Rightarrow> flt) \<Rightarrow> (nat \<Rightarrow> flt) \<Rightarrow> (nat \<Rightarrow> flt) \<Rightarrow> nat \<Rightarrow> (nat \<Rightarrow> flt) \<Rightarrow> (nat \<Rightarrow> flt)" where
  "kernel_coexact_component omega gamma exact n_edges coexact =
     (\<lambda>e. if e < n_edges then omega e - gamma e - exact e else coexact e)"

definition kernel_curl_magnitude ::
    "(nat \<Rightarrow> flt) \<Rightarrow> nat \<Rightarrow> flt \<Rightarrow> (nat \<Rightarrow> flt) \<Rightarrow> (nat \<Rightarrow> flt) \<Rightarrow> (nat \<Rightarrow> flt) \<times> (nat \<Rightarrow> flt)" where
  "kernel_curl_magnitude gamma n_edges arb_threshold curl_mag arb_signal =
     (\<lambda>e. if e < n_edges then \<bar>gamma e\<bar> else curl_mag e,
      \<lambda>e. if e < n_edges then (if \<bar>gamma e\<bar> > arb_threshold then gamma e else 0) else arb_signal e)"

definition field_strength :: "flt \<Rightarrow> flt \<Rightarrow> flt" where
  "field_strength A_mu A_nu =
     (let dA = A_mu - A_nu; comm = A_mu * A_nu - A_nu * A_mu; F_munu = dA + comm in F_munu * F_munu)"

definition yang_mills_block ::
    "(nat \<Rightarrow> flt) \<Rightarrow> (nat \<Rightarrow> flt) \<Rightarrow> nat \<Rightarrow> flt \<Rightarrow> nat \<Rightarrow> flt \<Rightarrow> flt" where
  "yang_mills_block gamma coexact n_edges coupling b ym =
     (let smem = (\<lambda>tid. let e = b * k_hodge_block_dim + tid
                        in if e < n_edges then field_strength (gamma e) (coexact e) else 0)
      in ym + tree_reduce (k_hodge_block_dim div 2) smem 0 / (4 * coupling * coupling))"

definition kernel_yang_mills_action ::
    "(nat \<Rightarrow> flt) \<Rightarrow> (nat \<Rightarrow> flt) \<Rightarrow> nat \<Rightarrow> flt \<Rightarrow> flt \<Rightarrow> flt" where
  "kernel_yang_mills_action gamma coexact n_edges coupling ym =
     fold (yang_mills_block gamma coexact n_edges coupling)
       [0..<(n_edges + k_hodge_block_dim - 1) div k_hodge_block_dim] ym"

definition kernel_count_active_loops :: "(nat \<Rightarrow> flt) \<Rightarrow> nat \<Rightarrow> nat \<Rightarrow> nat" where
  "kernel_count_active_loops arb_signal n_edges c =
     fold (\<lambda>e c. if \<bar>arb_signal e\<bar> > 0 then Suc c else c) [0..<n_edges] c"

section \<open>Host code\<close>

definition build_incidence_matrices ::
    "nat list \<Rightarrow> nat list \<Rightarrow> SparseLaplacian \<Rightarrow> HodgeWorkspace \<Rightarrow> HodgeWorkspace" where
  "build_incidence_matrices sched_e sched_t L ws =
     (case kernel_build_edge_list_from_csr sched_e L (sl_n_rows L) (hw_edge ws, 0) of (edge, edge_ctr) \<Rightarrow>
        let ne = min edge_ctr k_max_edges;
            nn = sl_n_rows L;
            B1 = kernel_build_signed_incidence edge ne (\<lambda>_ _. 0)
        in case (if ne > 0 then kernel_find_triangles sched_t L edge ne (hw_triangle_edges ws, 0)
                 else (hw_triangle_edges ws, 0)) of (tri, tri_ctr) \<Rightarrow>
             let nt = min tri_ctr k_max_triangles;
                 B2 = kernel_build_triangle_incidence tri nt ne (\<lambda>_ _. 0)
             in ws\<lparr>hw_edge := edge, hw_n_edges := ne, hw_n_nodes := nn, hw_B1 := B1,
                   hw_triangle_edges := tri, hw_n_triangles := nt, hw_B2 := B2,
                   hw_L1 := kernel_hodge1_laplacian B1 B2 ne nn nt (hw_L1 ws)\<rparr>)"

type_synonym eigensolver = "nat \<Rightarrow> (nat \<Rightarrow> nat \<Rightarrow> flt) \<Rightarrow> (nat \<Rightarrow> flt) \<times> (nat \<Rightarrow> nat \<Rightarrow> flt)"

definition compute_hodge_decomposition :: "eigensolver \<Rightarrow> HodgeWorkspace \<Rightarrow> HodgeWorkspace" where
  "compute_hodge_decomposition syevd ws =
     (let ne = hw_n_edges ws
      in if ne = 0 then ws
         else
           case syevd ne (hw_L1 ws) of (eigenvalues, eigenvectors) \<Rightarrow>
             let n_harmonic = length (filter (\<lambda>i. \<bar>eigenvalues i\<bar> < k_harmonic_threshold) [0..<ne]);
                 gamma = kernel_harmonic_projection eigenvectors eigenvalues (hw_omega ws) ne ne
                   k_harmonic_threshold (hw_gamma ws);
                 exact = kernel_exact_component (hw_B1 ws) (hw_omega ws) gamma ne (hw_n_nodes ws) (hw_exact ws);
                 coexact = kernel_coexact_component (hw_omega ws) gamma exact ne (hw_coexact ws)
             in case kernel_curl_magnitude coexact ne k_arbitrage_threshold (hw_curl_magnitude ws) (hw_arb_signal ws) of
                  (curl, arb) \<Rightarrow>
                    ws\<lparr>hw_n_harmonic_dims := n_harmonic, hw_gamma := gamma, hw_exact := exact,
                       hw_coexact := coexact, hw_curl_magnitude := curl, hw_arb_signal := arb,
                       hw_yang_mills_action := kernel_yang_mills_action gamma coexact ne 1 0\<rparr>)"

record ArbitrageSignal =
  as_harmonic_flow :: "nat \<Rightarrow> flt"
  as_curl_magnitude :: "nat \<Rightarrow> flt"
  as_yang_mills_action :: flt
  as_n_active_loops :: nat
  as_n_edges :: nat
  as_signal_ts_ns :: u64

definition extract_arbitrage_signal :: "u64 \<Rightarrow> HodgeWorkspace \<Rightarrow> ArbitrageSignal" where
  "extract_arbitrage_signal now ws =
     \<lparr>as_harmonic_flow = hw_coexact ws, as_curl_magnitude = hw_curl_magnitude ws,
      as_yang_mills_action = hw_yang_mills_action ws,
      as_n_active_loops = (if hw_n_edges ws > 0 then kernel_count_active_loops (hw_arb_signal ws) (hw_n_edges ws) 0 else 0),
      as_n_edges = hw_n_edges ws, as_signal_ts_ns = now\<rparr>"

definition copy_signal_to_host ::
    "ArbitrageSignal \<Rightarrow> nat \<Rightarrow> (nat \<Rightarrow> flt) \<Rightarrow> (nat \<Rightarrow> flt) \<Rightarrow> (nat \<Rightarrow> flt) \<times> (nat \<Rightarrow> flt)" where
  "copy_signal_to_host sig n_edges h_harmonic h_curl =
     (\<lambda>e. if e < n_edges then as_harmonic_flow sig e else h_harmonic e,
      \<lambda>e. if e < n_edges then as_curl_magnitude sig e else h_curl e)"

section \<open>Incidence matrices\<close>

lemma signed_incidence_cell:
  assumes "\<And>e. e < m \<Longrightarrow> fst (edge e) \<noteq> snd (edge e)"
  shows "kernel_build_signed_incidence edge m (\<lambda>_ _. 0) v e =
     (if e < m then (if v = snd (edge e) then 1 else if v = fst (edge e) then -1 else 0) else 0)"
  using assms unfolding kernel_build_signed_incidence_def
  by (induction m) (auto simp: store_def less_Suc_eq)

lemma triangle_incidence_cell:
  assumes "e < ne"
  shows "kernel_build_triangle_incidence tri m ne (\<lambda>_ _. 0) e t =
     (if t < m then (case tri t of (e0, e1, e2) \<Rightarrow> if e = e2 then -1 else if e = e0 \<or> e = e1 then 1 else 0) else 0)"
proof -
  have step: "store_triangle tri ne t' M e t =
      (if t = t' then (case tri t of (e0, e1, e2) \<Rightarrow> if e = e2 then -1 else if e = e0 \<or> e = e1 then 1 else M e t)
       else M e t)" for t' M
    using assms by (cases "tri t'") (auto simp: store_triangle_def store_def Let_def)
  show ?thesis
    unfolding kernel_build_triangle_incidence_def
    by (induction m) (auto simp: step less_Suc_eq split: prod.split)
qed

text \<open>
  What the incidence matrices promise to the decomposition: for every number of nodes whose edges
  and triangles fit the buffers, the edges are the pairs of nodes, each once, every edge has one
  triangle for each other node, and the cells of the matrices are the signs of the code.
\<close>

locale incidence =
  fixes fits :: "nat \<Rightarrow> bool"
    and edge :: "nat \<Rightarrow> nat \<Rightarrow> nat \<times> nat"
    and tri :: "nat \<Rightarrow> nat \<Rightarrow> nat \<times> nat \<times> nat"
    and B1 B2 :: "nat \<Rightarrow> nat \<Rightarrow> nat \<Rightarrow> flt"
  assumes edges: "fits n \<Longrightarrow> bij_betw (edge n) {..<pair_count n} (node_pairs n)"
    and triangles: "fits n \<Longrightarrow> mset (map (tri n) [0..<pair_count n * (n - 2)]) =
      (\<Sum>e<pair_count n. mset (complete_triangles n (edge n) (pair_count n) e))"
    and B1_cell: "fits n \<Longrightarrow> v < n \<Longrightarrow> e < pair_count n \<Longrightarrow>
      B1 n v e = (if v = snd (edge n e) then 1 else if v = fst (edge n e) then -1 else 0)"
    and B2_cell: "fits n \<Longrightarrow> e < pair_count n \<Longrightarrow> t < pair_count n * (n - 2) \<Longrightarrow>
      B2 n e t = (case tri n t of (e0, e1, e2) \<Rightarrow> if e = e2 then -1 else if e = e0 \<or> e = e1 then 1 else 0)"

section \<open>Flows between nodes\<close>

text \<open>The flow from one node to another, whichever way their edge points.\<close>

definition flow_between :: "(nat \<Rightarrow> nat \<times> nat) \<Rightarrow> nat \<Rightarrow> (nat \<Rightarrow> flt) \<Rightarrow> nat \<Rightarrow> nat \<Rightarrow> flt" where
  "flow_between edge m x a b =
     (if a = b then 0
      else case edge_between edge m a b of
        None \<Rightarrow> 0 | Some f \<Rightarrow> if a < b then x f else - x f)"

lemma edge_between_commute: "edge_between edge m a b = edge_between edge m b a"
  by (simp add: edge_between_def disj_commute)

lemma flow_antisym: "flow_between edge m x a b = - flow_between edge m x b a"
  by (auto simp: flow_between_def edge_between_commute [of edge m a b] split: option.split)

lemma flow_edge:
  assumes "bij_betw edge {..<m} (node_pairs n)" and "e < m" and "edge e = (i, j)"
  shows "flow_between edge m x i j = x e" and "i < j" and "j < n" and "edge_between edge m i j = Some e"
proof -
  have "(i, j) \<in> node_pairs n" using assms unfolding bij_betw_def by (metis imageI lessThan_iff)
  then show lt: "i < j" "j < n" by simp_all
  then obtain f where f: "edge_between edge m i j = Some f" "f < m" "edge f = (min i j, max i j)"
    using edge_between_found [OF assms(1), of i j] by (metis less_irrefl less_trans)
  then have "f = e"
    using inj_on_eq_iff [OF bij_betw_imp_inj_on [OF assms(1)], of f e] assms(2,3) lt by simp
  then show "flow_between edge m x i j = x e" "edge_between edge m i j = Some e"
    using f lt by (simp_all add: flow_between_def)
qed

lemma sum_node_pairs:
  "(\<Sum>p\<in>node_pairs n. g (fst p) (snd p)) = (\<Sum>i<n. \<Sum>j<n. if i < j then g i j else (0 :: flt))"
proof -
  have "(\<Sum>i<n. \<Sum>j<n. if i < j then g i j else 0) = (\<Sum>p\<in>{..<n} \<times> {..<n}. if fst p < snd p then g (fst p) (snd p) else 0)"
    by (simp add: sum.cartesian_product case_prod_unfold)
  also have "\<dots> = (\<Sum>p\<in>{p \<in> {..<n} \<times> {..<n}. fst p < snd p}. g (fst p) (snd p))"
    by (intro sum.inter_filter [symmetric]) simp
  also have "{p \<in> {..<n} \<times> {..<n}. fst p < snd p} = node_pairs n" by (auto simp: node_pairs_def)
  finally show ?thesis ..
qed

lemma sum_edges:
  assumes "bij_betw edge {..<m} (node_pairs n)"
  shows "(\<Sum>e<m. g (fst (edge e)) (snd (edge e))) = (\<Sum>i<n. \<Sum>j<n. if i < j then g i j else (0 :: flt))"
  using sum.reindex_bij_betw [OF assms, of "\<lambda>p. g (fst p) (snd p)"] by (simp add: sum_node_pairs)

lemma edge_values:
  assumes "bij_betw edge {..<m} (node_pairs n)"
  shows "(\<Sum>e<m. h (fst (edge e)) (snd (edge e)) (x e)) =
    (\<Sum>i<n. \<Sum>j<n. if i < j then h i j (flow_between edge m x i j) else (0 :: flt))"
  unfolding sum_edges [OF assms, of "\<lambda>i j. h i j (flow_between edge m x i j)", symmetric]
  by (intro sum.cong refl) (simp add: flow_edge(1) [OF assms])

section \<open>Sums over antisymmetric functions\<close>

lemma sum_squares_pairs:
  assumes "\<And>a b. w a b = - w b (a :: nat)"
  shows "(\<Sum>a<n. \<Sum>b<n. (w a b)\<^sup>2) = 2 * (\<Sum>i<n. \<Sum>j<n. if i < j then (w i j)\<^sup>2 else (0 :: flt))"
proof -
  have z: "w a a = 0" for a using assms [of a a] by simp
  have sq: "(w a b)\<^sup>2 = (w b a)\<^sup>2" for a b by (subst assms) simp
  have "(\<Sum>a<n. \<Sum>b<n. (w a b)\<^sup>2) =
      (\<Sum>a<n. \<Sum>b<n. (if a < b then (w a b)\<^sup>2 else 0) + (if b < a then (w b a)\<^sup>2 else 0))"
    by (intro sum.cong refl) (use z sq in \<open>auto simp: not_less\<close>)
  also have "\<dots> = (\<Sum>a<n. \<Sum>b<n. if a < b then (w a b)\<^sup>2 else 0) + (\<Sum>a<n. \<Sum>b<n. if b < a then (w b a)\<^sup>2 else 0)"
    by (simp add: sum.distrib)
  also have "(\<Sum>a<n. \<Sum>b<n. if b < a then (w b a)\<^sup>2 else 0) = (\<Sum>a<n. \<Sum>b<n. if a < b then (w a b)\<^sup>2 else 0)"
    by (rule sum.swap)
  finally show ?thesis by simp
qed

lemma sum_circulations:
  assumes "\<And>a b. w a b = - w b (a :: nat)"
  shows "(\<Sum>a<n. \<Sum>b<n. \<Sum>c<n. (w a b + w b c + w c a)\<^sup>2) + 6 * (\<Sum>v<n. (\<Sum>u<n. w u v)\<^sup>2) =
    3 * real n * (\<Sum>a<n. \<Sum>b<n. (w a b :: flt)\<^sup>2)"
proof -
  let ?S = "\<Sum>a<n. \<Sum>b<n. (w a b)\<^sup>2" and ?D = "\<Sum>v<n. (\<Sum>u<n. w u v)\<^sup>2"
  have out: "(\<Sum>c<n. w b c) = - (\<Sum>a<n. w a b)" for b
    by (subst assms) (simp add: sum_negf)
  have s1: "(\<Sum>a<n. \<Sum>b<n. \<Sum>c<n. (w a b)\<^sup>2) = real n * ?S"
    by (simp add: sum_distrib_left)
  have s2: "(\<Sum>a<n. \<Sum>b<n. \<Sum>c<n. (w b c)\<^sup>2) = real n * ?S" by simp
  have s3: "(\<Sum>a<n. \<Sum>b<n. \<Sum>c<n. (w c a)\<^sup>2) = real n * ?S"
  proof -
    have "(\<Sum>a<n. \<Sum>b<n. \<Sum>c<n. (w c a)\<^sup>2) = real n * (\<Sum>a<n. \<Sum>c<n. (w c a)\<^sup>2)"
      by (simp add: sum_distrib_left)
    also have "(\<Sum>a<n. \<Sum>c<n. (w c a)\<^sup>2) = ?S" by (rule sum.swap)
    finally show ?thesis .
  qed
  have p1: "(\<Sum>a<n. \<Sum>b<n. \<Sum>c<n. w a b * w b c) = - ?D"
  proof -
    have "(\<Sum>a<n. \<Sum>b<n. \<Sum>c<n. w a b * w b c) = (\<Sum>b<n. \<Sum>a<n. w a b * (\<Sum>c<n. w b c))"
      by (subst sum.swap) (simp add: sum_distrib_left)
    also have "\<dots> = (\<Sum>b<n. (\<Sum>a<n. w a b) * (\<Sum>c<n. w b c))" by (simp add: sum_distrib_right)
    finally show ?thesis by (simp add: out power2_eq_square sum_negf)
  qed
  have p2: "(\<Sum>a<n. \<Sum>b<n. \<Sum>c<n. w b c * w c a) = - ?D"
  proof -
    have "(\<Sum>b<n. \<Sum>c<n. w b c * w c a) = (\<Sum>c<n. (\<Sum>b<n. w b c) * w c a)" for a
      by (subst sum.swap) (simp add: sum_distrib_right)
    then have "(\<Sum>a<n. \<Sum>b<n. \<Sum>c<n. w b c * w c a) = (\<Sum>a<n. \<Sum>c<n. (\<Sum>b<n. w b c) * w c a)" by simp
    also have "\<dots> = (\<Sum>c<n. \<Sum>a<n. (\<Sum>b<n. w b c) * w c a)" by (rule sum.swap)
    also have "\<dots> = (\<Sum>c<n. (\<Sum>b<n. w b c) * (\<Sum>a<n. w c a))" by (simp only: sum_distrib_left)
    finally show ?thesis by (simp add: out power2_eq_square sum_negf)
  qed
  have p3: "(\<Sum>a<n. \<Sum>b<n. \<Sum>c<n. w c a * w a b) = - ?D"
  proof -
    have "(\<Sum>b<n. \<Sum>c<n. w c a * w a b) = (\<Sum>c<n. w c a) * (\<Sum>b<n. w a b)" for a
      unfolding sum_product by (rule sum.swap)
    then show ?thesis by (simp add: out power2_eq_square sum_negf)
  qed
  have "(w a b + w b c + w c a)\<^sup>2 =
      (w a b)\<^sup>2 + (w b c)\<^sup>2 + (w c a)\<^sup>2 + w a b * w b c + w a b * w b c + w b c * w c a + w b c * w c a +
      w c a * w a b + w c a * w a b" for a b c
    by (simp add: power2_eq_square algebra_simps)
  then have "(\<Sum>a<n. \<Sum>b<n. \<Sum>c<n. (w a b + w b c + w c a)\<^sup>2) = 3 * real n * ?S - 6 * ?D"
    by (simp only: sum.distrib s1 s2 s3 p1 p2 p3)
  then show ?thesis by simp
qed

text \<open>A symmetric function of three nodes that vanishes when two of them are equal.\<close>

lemma sum_triples:
  fixes T :: "nat \<Rightarrow> nat \<Rightarrow> nat \<Rightarrow> flt"
  assumes swap: "\<And>a b c. T a b c = T b a c" "\<And>a b c. T a b c = T a c b" and z: "\<And>a c. T a a c = 0"
  shows "(\<Sum>a<n. \<Sum>b<n. \<Sum>c<n. T a b c) = 6 * (\<Sum>a<n. \<Sum>b<n. \<Sum>c<n. if c < a \<and> a < b then T a b c else 0)"
proof -
  let ?D = "{..<n} \<times> {..<n} \<times> {..<n}"
  let ?f = "\<lambda>ord. \<Sum>(a, b, c)\<in>?D. if ord a b c then T a b c else 0"
  have "(\<Sum>(a, b, c)\<in>?D. T a b c) =
      (\<Sum>(a, b, c)\<in>?D. (if c < a \<and> a < b then T a b c else 0) + (if c < b \<and> b < a then T a b c else 0) +
        (if a < c \<and> c < b then T a b c else 0) + (if a < b \<and> b < c then T a b c else 0) +
        (if b < c \<and> c < a then T a b c else 0) + (if b < a \<and> a < c then T a b c else 0))"
  proof (rule sum.cong)
    fix p assume "p \<in> ?D"
    obtain a b c where p: "p = (a, b, c)" by (metis prod_cases3)
    have "T a b c = 0" if "a = b \<or> b = c \<or> a = c" using that z swap by metis
    then show "(case p of (a, b, c) \<Rightarrow> T a b c) = (case p of (a, b, c) \<Rightarrow> (if c < a \<and> a < b then T a b c else 0) +
        (if c < b \<and> b < a then T a b c else 0) +
        (if a < c \<and> c < b then T a b c else 0) + (if a < b \<and> b < c then T a b c else 0) +
        (if b < c \<and> c < a then T a b c else 0) + (if b < a \<and> a < c then T a b c else 0))"
      unfolding p by (cases a b rule: linorder_cases; cases b c rule: linorder_cases; cases a c rule: linorder_cases) auto
  qed simp
  also have "\<dots> = ?f (\<lambda>a b c. c < a \<and> a < b) + ?f (\<lambda>a b c. c < b \<and> b < a) + ?f (\<lambda>a b c. a < c \<and> c < b) +
      ?f (\<lambda>a b c. a < b \<and> b < c) + ?f (\<lambda>a b c. b < c \<and> c < a) + ?f (\<lambda>a b c. b < a \<and> a < c)"
    by (simp add: case_prod_unfold sum.distrib)
  also have "?f (\<lambda>a b c. c < b \<and> b < a) = ?f (\<lambda>a b c. c < a \<and> a < b)"
    by (rule sum.reindex_bij_witness [where i = "\<lambda>(a, b, c). (b, a, c)" and j = "\<lambda>(a, b, c). (b, a, c)"])
      (auto simp: swap(1))
  also have "?f (\<lambda>a b c. a < c \<and> c < b) = ?f (\<lambda>a b c. c < a \<and> a < b)"
    by (rule sum.reindex_bij_witness [where i = "\<lambda>(a, b, c). (c, b, a)" and j = "\<lambda>(a, b, c). (c, b, a)"])
      (auto simp: swap)
  also have "?f (\<lambda>a b c. a < b \<and> b < c) = ?f (\<lambda>a b c. c < a \<and> a < b)"
    by (rule sum.reindex_bij_witness [where i = "\<lambda>(a, b, c). (c, a, b)" and j = "\<lambda>(a, b, c). (b, c, a)"])
      (auto simp: swap)
  also have "?f (\<lambda>a b c. b < c \<and> c < a) = ?f (\<lambda>a b c. c < a \<and> a < b)"
    by (rule sum.reindex_bij_witness [where i = "\<lambda>(a, b, c). (b, c, a)" and j = "\<lambda>(a, b, c). (c, a, b)"])
      (auto simp: swap)
  also have "?f (\<lambda>a b c. b < a \<and> a < c) = ?f (\<lambda>a b c. c < a \<and> a < b)"
    by (rule sum.reindex_bij_witness [where i = "\<lambda>(a, b, c). (a, c, b)" and j = "\<lambda>(a, b, c). (a, c, b)"])
      (auto simp: swap)
  finally show ?thesis by (simp add: sum.cartesian_product case_prod_unfold)
qed

section \<open>The quadratic form of the edge Laplacian\<close>

lemma column_dot:
  assumes "e0 < m" "e1 < m" "e2 < m" "e0 \<noteq> e1" "e0 \<noteq> e2" "e1 \<noteq> (e2 :: nat)"
  shows "(\<Sum>e<m. (if e = e2 then -1 else if e = e0 \<or> e = e1 then 1 else 0) * x e) = x e0 + x e1 - (x e2 :: flt)"
proof -
  have "(\<Sum>e<m. (if e = e2 then -1 else if e = e0 \<or> e = e1 then 1 else 0) * x e) =
      (\<Sum>e<m. (if e = e0 then x e else 0) + (if e = e1 then x e else 0) - (if e = e2 then x e else 0))"
    by (intro sum.cong) (use assms in auto)
  also have "\<dots> = x e0 + x e1 - x e2"
    using assms by (simp add: sum.distrib sum_subtractf)
  finally show ?thesis .
qed

text \<open>The triangle of an edge \<open>(i, j)\<close> and a third node, seen by a flow.\<close>

lemma triangle_flow:
  assumes bij: "bij_betw edge {..<m} (node_pairs n)" and e: "e < m" "edge e = (i, j)"
    and k: "k < n" "k \<noteq> i" "k \<noteq> j"
  obtains f g where "edge_between edge m i k = Some f" "edge_between edge m j k = Some g" "f < m" "g < m"
    "e \<noteq> f" "e \<noteq> g" "f \<noteq> g"
    "k < i \<Longrightarrow> x e + x f - x g = flow_between edge m x i j + flow_between edge m x j k + flow_between edge m x k i"
    "edge f = (min i k, max i k)" "edge g = (min j k, max j k)"
proof -
  have ij: "i < j" "j < n" using flow_edge [OF bij e] by simp_all
  obtain f where f: "edge_between edge m i k = Some f" "f < m" "edge f = (min i k, max i k)"
    using edge_between_found [OF bij, of i k] ij k by (metis less_trans)
  obtain g where g: "edge_between edge m j k = Some g" "g < m" "edge g = (min j k, max j k)"
    using edge_between_found [OF bij, of j k] ij k by metis
  have ne: "e \<noteq> f" "e \<noteq> g" "f \<noteq> g" using e f g ij k by (auto simp: min_def max_def split: if_splits)
  have "x e + x f - x g = flow_between edge m x i j + flow_between edge m x j k + flow_between edge m x k i" if "k < i"
  proof -
    have "flow_between edge m x k i = x f" "flow_between edge m x k j = x g" "flow_between edge m x i j = x e"
      using flow_edge(1) [OF bij f(2)] flow_edge(1) [OF bij g(2)] flow_edge(1) [OF bij e] f(3) g(3) that ij
      by (simp_all add: min_def max_def)
    then show ?thesis using flow_antisym [of edge m x j k] by simp
  qed
  then show thesis using that f g ne by blast
qed

context incidence
begin

lemma divergence:
  assumes "fits n" and "v < n"
  shows "(\<Sum>e<pair_count n. B1 n v e * x e) = (\<Sum>u<n. flow_between (edge n) (pair_count n) x u v)"
proof -
  let ?w = "flow_between (edge n) (pair_count n) x"
  have "(\<Sum>e<pair_count n. B1 n v e * x e) =
      (\<Sum>e<pair_count n. (if v = snd (edge n e) then 1 else if v = fst (edge n e) then -1 else 0) * x e)"
    using B1_cell assms by (intro sum.cong) auto
  also have "\<dots> = (\<Sum>i<n. \<Sum>j<n. if i < j then (if v = j then 1 else if v = i then -1 else 0) * ?w i j else 0)"
    by (rule edge_values [OF edges [OF assms(1)], of "\<lambda>i j y. (if v = j then 1 else if v = i then -1 else 0) * y"])
  also have "\<dots> = (\<Sum>i<n. \<Sum>j<n. (if v = j then (if i < j then ?w i j else 0) else 0) +
      (if v = i then (if i < j then - ?w i j else 0) else 0))"
    by (intro sum.cong) auto
  also have "\<dots> = (\<Sum>i<n. \<Sum>j<n. if v = j then (if i < j then ?w i j else 0) else 0) +
      (\<Sum>i<n. \<Sum>j<n. if v = i then (if i < j then - ?w i j else 0) else 0)"
    by (simp only: sum.distrib)
  also have "(\<Sum>i<n. \<Sum>j<n. if v = j then (if i < j then ?w i j else 0) else 0) = (\<Sum>u<n. if u < v then ?w u v else 0)"
    using assms(2) by (simp add: sum.delta')
  also have "(\<Sum>i<n. \<Sum>j<n. if v = i then (if i < j then - ?w i j else 0) else 0) = (\<Sum>u<n. if v < u then - ?w v u else 0)"
  proof -
    have "(\<Sum>i<n. \<Sum>j<n. if v = i then (if i < j then - ?w i j else 0) else 0) =
        (\<Sum>i<n. if v = i then (\<Sum>j<n. if v < j then - ?w v j else 0) else 0)"
      by (intro sum.cong) auto
    then show ?thesis using assms(2) by (simp add: sum.delta')
  qed
  also have "(\<Sum>u<n. if u < v then ?w u v else 0) + (\<Sum>u<n. if v < u then - ?w v u else 0) = (\<Sum>u<n. ?w u v)"
    unfolding sum.distrib [symmetric]
  proof (rule sum.cong)
    fix u
    show "(if u < v then ?w u v else 0) + (if v < u then - ?w v u else 0) = ?w u v"
      using flow_antisym [of "edge n" "pair_count n" x u v]
      by (cases u v rule: linorder_cases) (simp_all add: flow_between_def [of _ _ _ v v])
  qed simp
  finally show ?thesis .
qed

lemma triangle_column:
  assumes "fits n" and t: "t < pair_count n * (n - 2)"
  shows "(\<Sum>e<pair_count n. B2 n e t * x e) = (case tri n t of (e0, e1, e2) \<Rightarrow> x e0 + x e1 - x e2)"
proof -
  let ?m = "pair_count n"
  note bij = edges [OF assms(1)]
  have "tri n t \<in># mset (map (tri n) [0..<?m * (n - 2)])" using t by auto
  then obtain e where e: "e < ?m" "tri n t \<in> set (complete_triangles n (edge n) ?m e)"
    unfolding triangles [OF assms(1)] by (auto simp: set_mset_sum)
  obtain i j where ij: "edge n e = (i, j)" by fastforce
  from e(2) obtain k where k: "k < n" "k \<noteq> i" "k \<noteq> j"
    and tri: "tri n t = (e, the (edge_between (edge n) ?m i k), the (edge_between (edge n) ?m j k))"
    by (auto simp: complete_triangles_def ij)
  obtain f g where fg: "edge_between (edge n) ?m i k = Some f" "edge_between (edge n) ?m j k = Some g" "f < ?m" "g < ?m"
    "e \<noteq> f" "e \<noteq> g" "f \<noteq> g" using triangle_flow [OF bij e(1) ij k] by metis
  have "(\<Sum>e'<?m. B2 n e' t * x e') = (\<Sum>e'<?m. (if e' = g then -1 else if e' = e \<or> e' = f then 1 else 0) * x e')"
    using B2_cell [OF assms(1) _ t] tri fg by (intro sum.cong) simp_all
  also have "\<dots> = x e + x f - x g" using fg e by (intro column_dot) auto
  finally show ?thesis using tri fg by simp
qed

lemma triangle_energy:
  assumes "fits n"
  shows "(\<Sum>t<pair_count n * (n - 2). (\<Sum>e<pair_count n. B2 n e t * x e)\<^sup>2) =
    (\<Sum>e<pair_count n. sum_list (map (\<lambda>(e0, e1, e2). (x e0 + x e1 - x e2)\<^sup>2)
       (complete_triangles n (edge n) (pair_count n) e)))"
proof -
  let ?m = "pair_count n" and ?h = "\<lambda>(e0, e1, e2). (x e0 + x e1 - x e2)\<^sup>2"
  have "(\<Sum>t<?m * (n - 2). (\<Sum>e<?m. B2 n e t * x e)\<^sup>2) = (\<Sum>t<?m * (n - 2). ?h (tri n t))"
    by (intro sum.cong) (auto simp: triangle_column [OF assms] split: prod.split)
  also have "\<dots> = sum_list (map ?h (map (tri n) [0..<?m * (n - 2)]))"
    by (simp add: sum_list_sum_nth atLeast0LessThan)
  also have "\<dots> = sum_mset (image_mset ?h (mset (map (tri n) [0..<?m * (n - 2)])))"
    by (simp only: mset_map [symmetric] sum_mset_sum_list)
  also have "\<dots> = (\<Sum>e<?m. sum_list (map ?h (complete_triangles n (edge n) ?m e)))"
  proof -
    have "sum_mset (image_mset ?h (\<Sum>e<k. mset (complete_triangles n (edge n) ?m e))) =
        (\<Sum>e<k. sum_list (map ?h (complete_triangles n (edge n) ?m e)))" for k
      by (induction k) (simp_all add: mset_map [symmetric] sum_mset_sum_list del: mset_map)
    then show ?thesis unfolding triangles [OF assms] .
  qed
  finally show ?thesis .
qed

text \<open>The triangles of an edge with a lower third node are circulations.\<close>

lemma triangle_share:
  fixes x :: "nat \<Rightarrow> flt"
  assumes "fits n" and e: "e < pair_count n" and ij: "edge n e = (i, j)"
  defines "w \<equiv> flow_between (edge n) (pair_count n) x"
  shows "(\<Sum>c<n. if c < i then (w i j + w j c + w c i)\<^sup>2 else 0) \<le>
    sum_list (map (\<lambda>(e0, e1, e2). (x e0 + x e1 - x e2)\<^sup>2) (complete_triangles n (edge n) (pair_count n) e))"
proof -
  let ?m = "pair_count n" and ?h = "\<lambda>(e0, e1, e2). (x e0 + x e1 - x e2)\<^sup>2"
  let ?g = "\<lambda>k. ?h (e, the (edge_between (edge n) ?m i k), the (edge_between (edge n) ?m j k))"
  let ?T = "\<lambda>c. (w i j + w j c + w c i)\<^sup>2"
  note bij = edges [OF assms(1)]
  have "(\<Sum>c<n. if c < i then ?T c else 0) = (\<Sum>c\<in>{..<n} - {i, j}. if c < i then ?T c else 0)"
    by (rule sum.mono_neutral_right) (use flow_edge(2) [OF bij e ij] in auto)
  also have "\<dots> \<le> (\<Sum>k\<in>{..<n} - {i, j}. ?g k)"
  proof (rule sum_mono)
    fix k assume k: "k \<in> {..<n} - {i, j}"
    then obtain f g where "edge_between (edge n) ?m i k = Some f" "edge_between (edge n) ?m j k = Some g"
      "k < i \<Longrightarrow> x e + x f - x g = w i j + w j k + w k i"
      unfolding w_def using triangle_flow [OF bij e ij, of k x] by (metis Diff_iff insert_iff lessThan_iff)
    then show "(if k < i then ?T k else 0) \<le> ?g k" by simp
  qed
  also have "\<dots> = sum_list (map ?g (filter (\<lambda>k. k \<noteq> i \<and> k \<noteq> j) [0..<n]))"
  proof -
    have s: "set (filter (\<lambda>k. k \<noteq> i \<and> k \<noteq> j) [0..<n]) = {..<n} - {i, j}" by auto
    show ?thesis unfolding s [symmetric] by (rule sum_list_distinct_conv_sum_set [symmetric]) simp
  qed
  also have "\<dots> = sum_list (map ?h (complete_triangles n (edge n) ?m e))"
    by (simp add: complete_triangles_def ij comp_def)
  finally show ?thesis .
qed

lemma upper_energy:
  fixes x :: "nat \<Rightarrow> flt"
  assumes "fits n"
  defines "w \<equiv> flow_between (edge n) (pair_count n) x"
  shows "(\<Sum>a<n. \<Sum>b<n. \<Sum>c<n. if c < a \<and> a < b then (w a b + w b c + w c a)\<^sup>2 else 0) \<le>
    (\<Sum>t<pair_count n * (n - 2). (\<Sum>e<pair_count n. B2 n e t * x e)\<^sup>2)"
proof -
  let ?T = "\<lambda>a b c. (w a b + w b c + w c a)\<^sup>2"
  have "(\<Sum>a<n. \<Sum>b<n. \<Sum>c<n. if c < a \<and> a < b then ?T a b c else 0) =
      (\<Sum>a<n. \<Sum>b<n. if a < b then (\<Sum>c<n. if c < a then ?T a b c else 0) else 0)"
    by (intro sum.cong) auto
  also have "\<dots> = (\<Sum>e<pair_count n. \<Sum>c<n. if c < fst (edge n e) then ?T (fst (edge n e)) (snd (edge n e)) c else 0)"
    by (rule sum_edges [OF edges [OF assms(1)], symmetric])
  also have "\<dots> \<le> (\<Sum>t<pair_count n * (n - 2). (\<Sum>e<pair_count n. B2 n e t * x e)\<^sup>2)"
    unfolding triangle_energy [OF assms(1)] w_def
    by (intro sum_mono triangle_share [OF assms(1)]) simp_all
  finally show ?thesis .
qed

text \<open>The edge Laplacian of the complete graph is at least the number of nodes.\<close>

lemma laplacian_energy:
  assumes "fits n"
  shows "real n * (\<Sum>e<pair_count n. (x e)\<^sup>2) \<le>
    (\<Sum>v<n. (\<Sum>e<pair_count n. B1 n v e * x e)\<^sup>2) +
    (\<Sum>t<pair_count n * (n - 2). (\<Sum>e<pair_count n. B2 n e t * x e)\<^sup>2)"
proof -
  let ?m = "pair_count n" and ?w = "flow_between (edge n) (pair_count n) x"
  let ?T = "\<lambda>a b c. (?w a b + ?w b c + ?w c a)\<^sup>2"
  have anti: "?w a b = - ?w b a" for a b by (rule flow_antisym)
  have zero: "?w a a = 0" for a by (simp add: flow_between_def)
  have low: "(\<Sum>v<n. (\<Sum>e<?m. B1 n v e * x e)\<^sup>2) = (\<Sum>v<n. (\<Sum>u<n. ?w u v)\<^sup>2)"
    using divergence [OF assms] by (intro sum.cong) auto
  have "2 * (\<Sum>e<?m. (x e)\<^sup>2) = (\<Sum>a<n. \<Sum>b<n. (?w a b)\<^sup>2)"
    using edge_values [OF edges [OF assms], of "\<lambda>_ _ y. y\<^sup>2" x] sum_squares_pairs [of ?w n, OF anti] by simp
  then have "6 * (real n * (\<Sum>e<?m. (x e)\<^sup>2)) = (\<Sum>a<n. \<Sum>b<n. \<Sum>c<n. ?T a b c) + 6 * (\<Sum>v<n. (\<Sum>u<n. ?w u v)\<^sup>2)"
    using sum_circulations [of ?w n, OF anti] by simp
  moreover have "(\<Sum>a<n. \<Sum>b<n. \<Sum>c<n. ?T a b c) = 6 * (\<Sum>a<n. \<Sum>b<n. \<Sum>c<n. if c < a \<and> a < b then ?T a b c else 0)"
  proof (rule sum_triples)
    fix a b c
    have "?w a b + ?w b c + ?w c a = - (?w b a + ?w a c + ?w c b)"
      using anti [of a b] anti [of b c] anti [of c a] by simp
    then show "?T a b c = ?T b a c" by (simp only: power2_minus)
    have "?w a b + ?w b c + ?w c a = - (?w a c + ?w c b + ?w b a)"
      using anti [of a b] anti [of b c] anti [of c a] by simp
    then show "?T a b c = ?T a c b" by (simp only: power2_minus)
    show "?T a a c = 0" using anti [of a c] zero by simp
  qed
  ultimately show ?thesis using upper_energy [OF assms, of x] low by linarith
qed

lemma eigenvalue_bound:
  assumes "fits n" and "e0 < pair_count n" and "v e0 \<noteq> 0"
    and eig: "\<And>r. r < pair_count n \<Longrightarrow>
      (\<Sum>c<pair_count n. kernel_hodge1_laplacian (B1 n) (B2 n) (pair_count n) n (pair_count n * (n - 2)) old r c * v c) = lam * v r"
  shows "real n \<le> lam"
proof -
  let ?m = "pair_count n" and ?t = "pair_count n * (n - 2)"
  have sq: "(\<Sum>r<?m. v r * (\<Sum>c<?m. (\<Sum>k<K. M k r * M k c) * v c)) = (\<Sum>k<K. (\<Sum>e<?m. M k e * v e)\<^sup>2)"
    for M :: "nat \<Rightarrow> nat \<Rightarrow> flt" and K
  proof -
    have "(\<Sum>r<?m. v r * (\<Sum>c<?m. (\<Sum>k<K. M k r * M k c) * v c)) =
        (\<Sum>r<?m. \<Sum>c<?m. \<Sum>k<K. (M k r * v r) * (M k c * v c))"
      by (simp add: sum_distrib_left sum_distrib_right mult.assoc mult.left_commute)
    also have "\<dots> = (\<Sum>r<?m. \<Sum>k<K. \<Sum>c<?m. (M k r * v r) * (M k c * v c))"
      by (intro sum.cong refl sum.swap)
    also have "\<dots> = (\<Sum>k<K. \<Sum>r<?m. \<Sum>c<?m. (M k r * v r) * (M k c * v c))" by (rule sum.swap)
    finally show ?thesis by (simp only: power2_eq_square sum_product)
  qed
  have "lam * (\<Sum>r<?m. (v r)\<^sup>2) = (\<Sum>r<?m. v r * (lam * v r))"
    by (simp add: sum_distrib_left power2_eq_square mult.left_commute)
  also have "\<dots> = (\<Sum>r<?m. v r * (\<Sum>c<?m. ((\<Sum>k<n. B1 n k r * B1 n k c) + (\<Sum>t<?t. B2 n r t * B2 n c t)) * v c))"
    using eig by (intro sum.cong refl) (simp add: kernel_hodge1_laplacian_def)
  also have "\<dots> = (\<Sum>k<n. (\<Sum>e<?m. B1 n k e * v e)\<^sup>2) + (\<Sum>t<?t. (\<Sum>e<?m. B2 n e t * v e)\<^sup>2)"
    using sq [of "B1 n" n] sq [of "\<lambda>t e. B2 n e t" ?t]
    by (simp add: distrib_left distrib_right sum.distrib)
  finally have "real n * (\<Sum>r<?m. (v r)\<^sup>2) \<le> lam * (\<Sum>r<?m. (v r)\<^sup>2)"
    using laplacian_energy [OF assms(1), of v] by simp
  moreover have "0 < (\<Sum>r<?m. (v r)\<^sup>2)"
    using assms(2,3) by (intro sum_pos2 [of _ e0]) auto
  ultimately show ?thesis by simp
qed

end

end
