(* ===== verification/Hodge_Decomposition.thy ===== *)
theory Hodge_Decomposition
  imports Hodge_Kernel
begin

text \<open>
  What the decomposition of \<open>math/hodge_kernel.cu\<close> computes on the graph that \<open>math/lobpcg_solver.cu\<close>
  builds. The graph is complete, whatever the prices and the schedules of the kernels; its edge
  Laplacian is at least the number of instruments, so there is no harmonic part; the part called
  exact is the flow times the unscaled node Laplacian, which amplifies gradients.
\<close>

section \<open>Gradients and circulations\<close>

context incidence
begin

lemma gradient_divergence:
  assumes "fits n" and "v < n"
  shows "(\<Sum>e<pair_count n. B1 n v e * (phi (snd (edge n e)) - phi (fst (edge n e)))) =
    real n * phi v - (\<Sum>u<n. phi u)"
proof -
  let ?x = "\<lambda>e. phi (snd (edge n e)) - phi (fst (edge n e))"
  have "flow_between (edge n) (pair_count n) ?x u v = phi v - phi u" if u: "u < n" for u
  proof (cases "u = v")
    case False
    then obtain f where "edge_between (edge n) (pair_count n) u v = Some f" "edge n f = (min u v, max u v)"
      using edge_between_found [OF edges [OF assms(1)] u assms(2)] by metis
    with False show ?thesis by (auto simp: flow_between_def min_def max_def)
  qed (simp add: flow_between_def)
  then show ?thesis
    unfolding divergence [OF assms] by (simp add: sum_subtractf)
qed

lemma incidence_column:
  assumes "fits n" and "e < pair_count n"
  shows "(\<Sum>v<n. B1 n v e * D v) = D (snd (edge n e)) - D (fst (edge n e))"
proof -
  obtain i j where ij: "edge n e = (i, j)" by fastforce
  note lt = flow_edge(2,3) [OF edges [OF assms(1)] assms(2) ij]
  have "(\<Sum>v<n. B1 n v e * D v) = (\<Sum>v<n. (if v = j then D v else 0) - (if v = i then D v else 0))"
    using B1_cell [OF assms(1) _ assms(2)] ij lt by (intro sum.cong) auto
  also have "\<dots> = D j - D i" using lt by (simp add: sum_subtractf)
  finally show ?thesis by (simp add: ij)
qed

lemma exact_part:
  assumes "fits n" and e: "e < pair_count n"
    and y: "\<And>f. f < pair_count n \<Longrightarrow> y f = phi (snd (edge n f)) - phi (fst (edge n f)) + c f"
    and closed: "\<And>v. v < n \<Longrightarrow> (\<Sum>f<pair_count n. B1 n v f * c f) = 0"
  shows "(\<Sum>v<n. B1 n v e * (\<Sum>f<pair_count n. B1 n v f * y f)) =
    real n * (phi (snd (edge n e)) - phi (fst (edge n e)))"
proof -
  have "(\<Sum>f<pair_count n. B1 n v f * y f) = real n * phi v - (\<Sum>u<n. phi u)" if v: "v < n" for v
  proof -
    have "(\<Sum>f<pair_count n. B1 n v f * y f) =
        (\<Sum>f<pair_count n. B1 n v f * (phi (snd (edge n f)) - phi (fst (edge n f))) + B1 n v f * c f)"
      using y by (intro sum.cong) (auto simp: distrib_left)
    then show ?thesis using gradient_divergence [OF assms(1) v, of phi] closed [OF v] by (simp add: sum.distrib)
  qed
  then have "(\<Sum>v<n. B1 n v e * (\<Sum>f<pair_count n. B1 n v f * y f)) =
      (\<Sum>v<n. B1 n v e * (real n * phi v - (\<Sum>u<n. phi u)))"
    by (intro sum.cong) auto
  also have "\<dots> = real n * (phi (snd (edge n e)) - phi (fst (edge n e)))"
    unfolding incidence_column [OF assms(1) e, of "\<lambda>v. real n * phi v - (\<Sum>u<n. phi u)"]
    by (simp add: algebra_simps)
  finally show ?thesis .
qed

text \<open>The boundary of a triangle of the code is zero only when the third node is the lowest.\<close>

lemma triangle_boundary:
  assumes "fits n" and t: "t < pair_count n * (n - 2)" and e: "e < pair_count n" "edge n e = (i, j)"
    and k: "k < n" "k \<noteq> i" "k \<noteq> j"
    and tri: "tri n t = (e, the (edge_between (edge n) (pair_count n) i k), the (edge_between (edge n) (pair_count n) j k))"
  shows "(\<forall>v<n. (\<Sum>e<pair_count n. B1 n v e * B2 n e t) = 0) \<longleftrightarrow> k < i"
proof -
  let ?m = "pair_count n"
  note bij = edges [OF assms(1)]
  have ij: "i < j" "j < n" using flow_edge [OF bij e] by simp_all
  obtain f g where fg: "edge_between (edge n) ?m i k = Some f" "edge_between (edge n) ?m j k = Some g" "f < ?m" "g < ?m"
    "edge n f = (min i k, max i k)" "edge n g = (min j k, max j k)"
    using triangle_flow [OF bij e k] by metis
  have col: "(\<Sum>e<?m. B1 n v e * B2 n e t) = B1 n v e + B1 n v f - B1 n v g" for v
    using triangle_column [OF assms(1) t, of "B1 n v"] tri fg by (simp add: mult.commute)
  have cells: "B1 n v e = (if v = j then 1 else if v = i then -1 else 0)"
    "B1 n v f = (if v = max i k then 1 else if v = min i k then -1 else 0)"
    "B1 n v g = (if v = max j k then 1 else if v = min j k then -1 else 0)" if "v < n" for v
    using B1_cell [OF assms(1) that] e fg by simp_all
  show ?thesis
  proof (cases "k < i")
    case True
    then show ?thesis using cells ij k by (auto simp: col)
  next
    case False
    then have "B1 n i e + B1 n i f - B1 n i g \<noteq> 0" using cells [of i] ij k by auto
    then show ?thesis using False ij by (auto simp: col intro!: exI [of _ i])
  qed
qed

end

section \<open>The matrices of the pipeline\<close>

text \<open>The numbers of instruments whose edges and triangles fit the buffers of the workspace.\<close>

definition graph_fits :: "nat \<Rightarrow> bool" where
  "graph_fits n \<longleftrightarrow> pair_count n \<le> k_max_edges \<and> pair_count n * (n - 2) \<le> k_max_triangles"

lemma incidence_fields:
  assumes fits: "graph_fits n"
    and ws': "ws' = build_incidence_matrices s1 s2 (build_normalized_laplacian order bid ask n depth L) ws"
  shows "bij_betw (hw_edge ws') {..<pair_count n} (node_pairs n)"
    and "hw_n_edges ws' = pair_count n" and "hw_n_nodes ws' = n" and "hw_n_triangles ws' = pair_count n * (n - 2)"
    and "mset (map (hw_triangle_edges ws') [0..<pair_count n * (n - 2)]) =
      (\<Sum>e<pair_count n. mset (complete_triangles n (hw_edge ws') (pair_count n) e))"
    and "hw_B1 ws' = kernel_build_signed_incidence (hw_edge ws') (pair_count n) (\<lambda>_ _. 0)"
    and "hw_B2 ws' = kernel_build_triangle_incidence (hw_triangle_edges ws') (pair_count n * (n - 2)) (pair_count n) (\<lambda>_ _. 0)"
    and "hw_L1 ws' = kernel_hodge1_laplacian (hw_B1 ws') (hw_B2 ws') (pair_count n) n (pair_count n * (n - 2)) (hw_L1 ws)"
proof -
  let ?L = "build_normalized_laplacian order bid ask n depth L"
  have rows: "row_cols ?L v = complete_row n v" if "v < n" for v using that by (rule laplacian_complete)
  obtain edge ctr where k1: "kernel_build_edge_list_from_csr s1 ?L n (hw_edge ws, 0) = (edge, ctr)" by fastforce
  note e = edge_list_complete [OF rows _ k1]
  have ne: "min (pair_count n) k_max_edges = pair_count n" using fits by (simp add: graph_fits_def)
  have nt: "min (pair_count n * (n - 2)) k_max_triangles = pair_count n * (n - 2)" using fits by (simp add: graph_fits_def)
  have bij: "bij_betw edge {..<pair_count n} (node_pairs n)" and ctr: "ctr = pair_count n"
    using e fits by (simp_all add: graph_fits_def)
  define kt where "kt = (if pair_count n > 0 then kernel_find_triangles s2 ?L edge (pair_count n) (hw_triangle_edges ws, 0)
      else (hw_triangle_edges ws, 0))"
  obtain tri tctr where k2: "kt = (tri, tctr)" by fastforce
  have "tctr = pair_count n * (n - 2) \<and> mset (map tri [0..<pair_count n * (n - 2)]) =
      (\<Sum>e<pair_count n. mset (complete_triangles n edge (pair_count n) e))"
  proof (cases "pair_count n > 0")
    case True
    then have "kernel_find_triangles s2 ?L edge (pair_count n) (hw_triangle_edges ws, 0) = (tri, tctr)"
      using k2 by (simp add: kt_def)
    from triangle_list_complete [OF rows bij _ this] fits show ?thesis by (simp add: graph_fits_def)
  next
    case False
    then show ?thesis using k2 by (simp add: kt_def)
  qed
  then have tctr: "tctr = pair_count n * (n - 2)" and tri: "mset (map tri [0..<pair_count n * (n - 2)]) =
      (\<Sum>e<pair_count n. mset (complete_triangles n edge (pair_count n) e))" by simp_all
  have k2': "(if min ctr k_max_edges > 0
      then kernel_find_triangles s2 ?L edge (min ctr k_max_edges) (hw_triangle_edges ws, 0)
      else (hw_triangle_edges ws, 0)) = (tri, tctr)"
    unfolding ctr ne using k2 unfolding kt_def .
  let ?B1 = "kernel_build_signed_incidence edge (pair_count n) (\<lambda>_ _. 0)"
  let ?B2 = "kernel_build_triangle_incidence tri (pair_count n * (n - 2)) (pair_count n) (\<lambda>_ _. 0)"
  have eq: "ws' = ws\<lparr>hw_edge := edge, hw_n_edges := pair_count n, hw_n_nodes := n, hw_B1 := ?B1,
      hw_triangle_edges := tri, hw_n_triangles := pair_count n * (n - 2), hw_B2 := ?B2,
      hw_L1 := kernel_hodge1_laplacian ?B1 ?B2 (pair_count n) n (pair_count n * (n - 2)) (hw_L1 ws)\<rparr>"
    unfolding ws' build_incidence_matrices_def laplacian_rows(1) k1 prod.case Let_def k2' tctr nt
    unfolding ctr ne ..
  show "bij_betw (hw_edge ws') {..<pair_count n} (node_pairs n)"
    "hw_n_edges ws' = pair_count n" "hw_n_nodes ws' = n" "hw_n_triangles ws' = pair_count n * (n - 2)"
    "mset (map (hw_triangle_edges ws') [0..<pair_count n * (n - 2)]) =
      (\<Sum>e<pair_count n. mset (complete_triangles n (hw_edge ws') (pair_count n) e))"
    "hw_B1 ws' = kernel_build_signed_incidence (hw_edge ws') (pair_count n) (\<lambda>_ _. 0)"
    "hw_B2 ws' = kernel_build_triangle_incidence (hw_triangle_edges ws') (pair_count n * (n - 2)) (pair_count n) (\<lambda>_ _. 0)"
    "hw_L1 ws' = kernel_hodge1_laplacian (hw_B1 ws') (hw_B2 ws') (pair_count n) n (pair_count n * (n - 2)) (hw_L1 ws)"
    using bij tri by (simp_all add: eq)
qed

definition market_incidence ::
    "nat list \<Rightarrow> nat list \<Rightarrow> nat list \<Rightarrow> (nat \<Rightarrow> flt) \<Rightarrow> (nat \<Rightarrow> flt) \<Rightarrow> nat \<Rightarrow> SparseLaplacian \<Rightarrow> HodgeWorkspace
     \<Rightarrow> nat \<Rightarrow> HodgeWorkspace" where
  "market_incidence s1 s2 order bid ask depth L ws n =
     build_incidence_matrices s1 s2 (build_normalized_laplacian order bid ask n depth L) ws"

interpretation market: incidence graph_fits
  "\<lambda>n. hw_edge (market_incidence s1 s2 order bid ask depth L ws n)"
  "\<lambda>n. hw_triangle_edges (market_incidence s1 s2 order bid ask depth L ws n)"
  "\<lambda>n. hw_B1 (market_incidence s1 s2 order bid ask depth L ws n)"
  "\<lambda>n. hw_B2 (market_incidence s1 s2 order bid ask depth L ws n)"
  for s1 s2 order bid ask depth L ws
proof unfold_locales
  fix n e t v :: nat
  let ?ws = "market_incidence s1 s2 order bid ask depth L ws n"
  assume fits: "graph_fits n"
  note F = incidence_fields [OF fits market_incidence_def]
  show "bij_betw (hw_edge ?ws) {..<pair_count n} (node_pairs n)" by (rule F(1))
  show "mset (map (hw_triangle_edges ?ws) [0..<pair_count n * (n - 2)]) =
      (\<Sum>e<pair_count n. mset (complete_triangles n (hw_edge ?ws) (pair_count n) e))" by (rule F(5))
  have "fst (hw_edge ?ws e) \<noteq> snd (hw_edge ?ws e)" if "e < pair_count n" for e
    using flow_edge(2) [OF F(1) that prod.collapse [symmetric]] less_irrefl by metis
  then show "hw_B1 ?ws v e = (if v = snd (hw_edge ?ws e) then 1 else if v = fst (hw_edge ?ws e) then -1 else 0)"
    if "v < n" "e < pair_count n" using that by (simp add: F(6) signed_incidence_cell)
  show "hw_B2 ?ws e t = (case hw_triangle_edges ?ws t of (e0, e1, e2) \<Rightarrow>
      if e = e2 then -1 else if e = e0 \<or> e = e1 then 1 else 0)"
    if "e < pair_count n" "t < pair_count n * (n - 2)" using that by (simp add: F(7) triangle_incidence_cell)
qed

section \<open>The action\<close>

lemma field_strength_square: "field_strength a b = (a - b)\<^sup>2"
  by (simp add: field_strength_def Let_def power2_eq_square mult.commute)

lemma yang_mills_sum:
  "kernel_yang_mills_action gamma coexact ne coupling ym =
     ym + (\<Sum>e<ne. (gamma e - coexact e)\<^sup>2) / (4 * coupling * coupling)"
proof -
  let ?B = k_hodge_block_dim and ?F = "\<lambda>e. if e < ne then (gamma e - coexact e)\<^sup>2 else 0"
  have B: "?B = 2 ^ 8" by (simp add: k_hodge_block_dim_def)
  have block: "yang_mills_block gamma coexact ne coupling b y =
      y + (\<Sum>t<?B. ?F (b * ?B + t)) / (4 * coupling * coupling)" for b y
  proof -
    have "(\<lambda>tid. let e = b * ?B + tid in if e < ne then field_strength (gamma e) (coexact e) else 0) =
        (\<lambda>t. ?F (b * ?B + t))" by (auto simp: Let_def field_strength_square)
    then show ?thesis
      using tree_reduce_sum [of 8 "\<lambda>t. ?F (b * ?B + t)"]
      unfolding yang_mills_block_def B [symmetric] Let_def by simp
  qed
  have "fold (yang_mills_block gamma coexact ne coupling) [0..<m] ym =
      ym + (\<Sum>b<m. \<Sum>t<?B. ?F (b * ?B + t)) / (4 * coupling * coupling)" for m
    by (induction m) (simp_all add: block add_divide_distrib)
  moreover have "(\<Sum>b<(ne + ?B - 1) div ?B. \<Sum>t<?B. ?F (b * ?B + t)) = (\<Sum>e<ne. (gamma e - coexact e)\<^sup>2)"
  proof -
    have "ne \<le> (ne + ?B - 1) div ?B * ?B" by (rule blocks_cover) (simp add: k_hodge_block_dim_def)
    then have "(\<Sum>e<(ne + ?B - 1) div ?B * ?B. ?F e) = (\<Sum>e<ne. ?F e)"
      by (intro sum.mono_neutral_right) auto
    also have "\<dots> = (\<Sum>e<ne. (gamma e - coexact e)\<^sup>2)" by (intro sum.cong) auto
    finally show ?thesis unfolding sum_blocks [of ?F] .
  qed
  ultimately show ?thesis by (simp add: kernel_yang_mills_action_def)
qed

section \<open>What the decomposition returns\<close>

text \<open>
  The contract of the symmetric eigensolver: every returned pair is an eigenvalue of the matrix with
  a non-zero eigenvector.
\<close>

definition eigen_pairs :: "eigensolver \<Rightarrow> nat \<Rightarrow> (nat \<Rightarrow> nat \<Rightarrow> flt) \<Rightarrow> bool" where
  "eigen_pairs syevd ne M \<longleftrightarrow>
     (case syevd ne M of (eigenvalues, eigenvectors) \<Rightarrow>
        \<forall>k<ne. (\<exists>f<ne. eigenvectors k f \<noteq> 0) \<and>
          (\<forall>r<ne. (\<Sum>c<ne. M r c * eigenvectors k c) = eigenvalues k * eigenvectors k r))"

lemma no_small_eigenvalue:
  assumes "graph_fits n"
    and ws: "ws = build_incidence_matrices s1 s2 (build_normalized_laplacian order bid ask n depth L) ws0"
    and "eigen_pairs syevd (hw_n_edges ws) (hw_L1 ws)" and "syevd (hw_n_edges ws) (hw_L1 ws) = (ev, V)"
    and k: "k < hw_n_edges ws"
  shows "\<not> \<bar>ev k\<bar> < k_harmonic_threshold"
proof -
  note F = incidence_fields [OF assms(1) ws]
  obtain f where f: "f < pair_count n" "V k f \<noteq> 0"
    and eig: "\<forall>r<pair_count n. (\<Sum>c<pair_count n. hw_L1 ws r c * V k c) = ev k * V k r"
    using assms(3,4) k F(2) by (auto simp: eigen_pairs_def)
  have "real n \<le> ev k"
    using eig market.eigenvalue_bound [OF assms(1) f(1), where v = "V k" and lam = "ev k" and ?s1.0 = s1 and ?s2.0 = s2
        and order = order and bid = bid and ask = ask and depth = depth and L = L and ws = ws0 and old = "hw_L1 ws0", OF f(2)]
    by (simp add: F(8) market_incidence_def ws [symmetric])
  moreover have "0 < n" using f(1) by (cases n) (simp_all add: pair_count_def)
  ultimately show ?thesis by (simp add: k_harmonic_threshold_def)
qed

lemma decomposition_fields:
  assumes "graph_fits n"
    and ws: "ws = build_incidence_matrices s1 s2 (build_normalized_laplacian order bid ask n depth L) ws0"
    and solver: "eigen_pairs syevd (hw_n_edges ws) (hw_L1 ws)"
    and ws': "ws' = compute_hodge_decomposition syevd (ws\<lparr>hw_omega := omega\<rparr>)" and "0 < pair_count n"
  shows "hw_n_harmonic_dims ws' = 0" and "e < pair_count n \<Longrightarrow> hw_gamma ws' e = 0"
    and "e < pair_count n \<Longrightarrow> hw_coexact ws' e =
      omega e - (\<Sum>v<n. hw_B1 ws v e * (\<Sum>f<pair_count n. hw_B1 ws v f * omega f))"
    and "hw_yang_mills_action ws' = (\<Sum>e<pair_count n. (hw_coexact ws' e)\<^sup>2) / 4"
    and "e < pair_count n \<Longrightarrow> hw_curl_magnitude ws' e = \<bar>hw_coexact ws' e\<bar>"
    and "e < pair_count n \<Longrightarrow> hw_arb_signal ws' e =
      (if \<bar>hw_coexact ws' e\<bar> > k_arbitrage_threshold then hw_coexact ws' e else 0)"
    and "hw_edge ws' = hw_edge ws" and "hw_n_edges ws' = pair_count n"
proof -
  note F = incidence_fields [OF assms(1) ws]
  obtain ev V where sy: "syevd (pair_count n) (hw_L1 ws) = (ev, V)" by fastforce
  have big: "\<not> \<bar>ev k\<bar> < k_harmonic_threshold" if "k < pair_count n" for k
    using no_small_eigenvalue [OF assms(1) ws solver] sy that F(2) by metis
  have none: "filter (\<lambda>i. \<bar>ev i\<bar> < k_harmonic_threshold) [0..<pair_count n] = []"
    using big by (auto simp: filter_empty_conv)
  let ?g = "kernel_harmonic_projection V ev omega (pair_count n) (pair_count n) k_harmonic_threshold (hw_gamma ws)"
  let ?x = "kernel_exact_component (hw_B1 ws) omega ?g (pair_count n) n (hw_exact ws)"
  let ?c = "kernel_coexact_component omega ?g ?x (pair_count n) (hw_coexact ws)"
  have gamma: "?g e = 0" if "e < pair_count n" for e
    using big that by (simp add: kernel_harmonic_projection_def)
  have "ws' = ws\<lparr>hw_omega := omega, hw_n_harmonic_dims := 0, hw_gamma := ?g, hw_exact := ?x, hw_coexact := ?c,
      hw_curl_magnitude := fst (kernel_curl_magnitude ?c (pair_count n) k_arbitrage_threshold (hw_curl_magnitude ws) (hw_arb_signal ws)),
      hw_arb_signal := snd (kernel_curl_magnitude ?c (pair_count n) k_arbitrage_threshold (hw_curl_magnitude ws) (hw_arb_signal ws)),
      hw_yang_mills_action := kernel_yang_mills_action ?g ?c (pair_count n) 1 0\<rparr>"
    using assms(5) sy none F(2,3) by (simp add: ws' compute_hodge_decomposition_def Let_def split: prod.split)
  moreover have "?c e = omega e - (\<Sum>v<n. hw_B1 ws v e * (\<Sum>f<pair_count n. hw_B1 ws v f * omega f))"
    if "e < pair_count n" for e
    using that gamma by (simp add: kernel_coexact_component_def kernel_exact_component_def)
  moreover have "(\<Sum>e<pair_count n. (?g e - ?c e)\<^sup>2) = (\<Sum>e<pair_count n. (?c e)\<^sup>2)"
    using gamma by (intro sum.cong) simp_all
  ultimately show "hw_n_harmonic_dims ws' = 0" "e < pair_count n \<Longrightarrow> hw_gamma ws' e = 0"
    "e < pair_count n \<Longrightarrow> hw_coexact ws' e =
      omega e - (\<Sum>v<n. hw_B1 ws v e * (\<Sum>f<pair_count n. hw_B1 ws v f * omega f))"
    "hw_yang_mills_action ws' = (\<Sum>e<pair_count n. (hw_coexact ws' e)\<^sup>2) / 4"
    "e < pair_count n \<Longrightarrow> hw_curl_magnitude ws' e = \<bar>hw_coexact ws' e\<bar>"
    "e < pair_count n \<Longrightarrow> hw_arb_signal ws' e =
      (if \<bar>hw_coexact ws' e\<bar> > k_arbitrage_threshold then hw_coexact ws' e else 0)"
    "hw_edge ws' = hw_edge ws" "hw_n_edges ws' = pair_count n"
    using gamma F(2) by (simp_all add: yang_mills_sum kernel_curl_magnitude_def)
qed

text \<open>
  (C18) There is no harmonic part: on the graph the engine builds, for any number of instruments whose
  edges and triangles fit the buffers, any prices, any flow and any scheduling of the kernels, a
  correct eigensolver finds no eigenvalue below the threshold. The harmonic dimension is zero, the
  harmonic component is zero on every edge and the action is a quarter of the squared norm of the
  coexact component. The triangles with a wrong orientation do not spoil this. A comment in the source
  says the opposite, that triangles make the first Betti number non-zero from three instruments on:
  filling them in is what makes it zero.
\<close>

theorem no_harmonic_part:
  assumes "graph_fits n" and "2 \<le> n"
    and "ws = build_incidence_matrices s1 s2 (build_normalized_laplacian order bid ask n depth L) ws0"
    and "eigen_pairs syevd (hw_n_edges ws) (hw_L1 ws)"
    and "ws' = compute_hodge_decomposition syevd (ws\<lparr>hw_omega := omega\<rparr>)"
  shows "hw_n_edges ws' = n * (n - 1) div 2 \<and> hw_n_harmonic_dims ws' = 0 \<and>
    (\<forall>e<hw_n_edges ws'. hw_gamma ws' e = 0) \<and>
    hw_yang_mills_action ws' = (\<Sum>e<hw_n_edges ws'. (hw_coexact ws' e)\<^sup>2) / 4"
proof -
  have "2 * 1 \<le> n * (n - 1)" using assms(2) by (intro mult_le_mono) auto
  then have "0 < pair_count n" by (simp add: pair_count_def div_greater_zero_iff)
  from decomposition_fields [OF assms(1,3,4,5) this] show ?thesis by (simp add: pair_count_def)
qed

text \<open>
  (C19) Consistent prices look like arbitrage: when the flow is the gradient of a node potential plus a
  flow without divergence, the component reported as the signal is the divergence-free flow minus
  \<open>n - 1\<close> times the gradient. A pure gradient, which contains no cycle at all, is reported with the
  opposite sign and three times its size for the four instruments of the engine.
\<close>

theorem gradient_reported_as_curl:
  assumes "graph_fits n" and "2 \<le> n"
    and "ws = build_incidence_matrices s1 s2 (build_normalized_laplacian order bid ask n depth L) ws0"
    and "eigen_pairs syevd (hw_n_edges ws) (hw_L1 ws)"
    and "ws' = compute_hodge_decomposition syevd (ws\<lparr>hw_omega := omega\<rparr>)"
    and flow: "\<forall>f<hw_n_edges ws. omega f = phi (snd (hw_edge ws f)) - phi (fst (hw_edge ws f)) + c f"
    and closed: "\<forall>v<n. (\<Sum>f<hw_n_edges ws. hw_B1 ws v f * c f) = 0"
    and "e < hw_n_edges ws"
  shows "hw_coexact ws' e = c e - (real n - 1) * (phi (snd (hw_edge ws e)) - phi (fst (hw_edge ws e)))"
proof -
  note ne = incidence_fields(2) [OF assms(1,3)]
  have "0 < pair_count n" using assms(8) ne by simp
  note D = decomposition_fields(3) [OF assms(1,3,4,5) this]
  have "(\<Sum>v<n. hw_B1 ws v e * (\<Sum>f<pair_count n. hw_B1 ws v f * omega f)) =
      real n * (phi (snd (hw_edge ws e)) - phi (fst (hw_edge ws e)))"
    unfolding assms(3) market_incidence_def [symmetric]
    by (rule market.exact_part [OF assms(1), where c = c])
      (use flow closed assms(8) ne in \<open>auto simp: assms(3) market_incidence_def\<close>)
  moreover have "hw_coexact ws' e = omega e - (\<Sum>v<n. hw_B1 ws v e * (\<Sum>f<pair_count n. hw_B1 ws v f * omega f))"
    using D assms(8) ne by simp
  moreover have "omega e = phi (snd (hw_edge ws e)) - phi (fst (hw_edge ws e)) + c e" using flow assms(8) by blast
  ultimately show ?thesis by (simp only:) (simp add: algebra_simps)
qed

section \<open>Four instruments\<close>

text \<open>The number the programs run with: the matrix of the code, and an eigenvector of it.\<close>

definition market_edges :: "(nat \<times> nat) list" where
  "market_edges = [(0, 1), (0, 2), (0, 3), (1, 2), (1, 3), (2, 3)]"

definition demo_laplacian :: SparseLaplacian where
  "demo_laplacian = build_normalized_laplacian [1, 0] (\<lambda>_. 99) (\<lambda>_. 101) 4 1
     \<lparr>sl_row_ptr = \<lambda>_. 0, sl_col_idx = \<lambda>_. 0, sl_values = \<lambda>_. 0, sl_n_rows = 0, sl_nnz = 0\<rparr>"

definition demo_incidence :: "HodgeWorkspace \<Rightarrow> HodgeWorkspace" where
  "demo_incidence ws0 = build_incidence_matrices [] [] demo_laplacian ws0"

definition demo_syevd :: eigensolver where
  "demo_syevd ne M = (\<lambda>_. 4, \<lambda>_ f. if f \<in> {1, 3, 5} then 1 else 0)"

lemma fits4: "graph_fits 4" "pair_count 4 = 6"
  by (simp_all add: graph_fits_def pair_count_def k_max_edges_def k_max_triangles_def)

lemma demo_edge:
  assumes "e < 6" shows "hw_edge (demo_incidence ws0) e = market_edges ! e"
proof -
  let ?q = "\<lambda>L v. map (\<lambda>u. (v, u)) (filter (\<lambda>u. u > v) (row_cols L v))"
  have rows: "row_cols demo_laplacian v = complete_row 4 v" if "v < 4" for v
    using that unfolding demo_laplacian_def by (rule laplacian_complete)
  have "interleave 4 [] (?q demo_laplacian) =
      concat (map (\<lambda>v. map (\<lambda>u. (v, u)) (filter (\<lambda>u. u > v) (complete_row 4 v))) [0..<4])"
    by (auto simp: rows intro!: arg_cong [where f = concat])
  also have "\<dots> = market_edges" by code_simp
  finally have es: "interleave 4 [] (?q demo_laplacian) = market_edges" .
  have len: "length market_edges = 6" by (simp add: market_edges_def)
  from es have "kernel_build_edge_list_from_csr [] demo_laplacian 4 (hw_edge ws0, 0) =
      (\<lambda>i. if i < 6 then market_edges ! i else hw_edge ws0 i, 6)"
    using fold_emit [of 0 k_max_edges market_edges "hw_edge ws0"] len
    by (simp only: kernel_build_edge_list_from_csr_def) (simp add: k_max_edges_def cong: if_cong)
  moreover have "sl_n_rows demo_laplacian = 4" by (simp add: demo_laplacian_def laplacian_rows)
  ultimately show ?thesis
    using assms by (simp add: demo_incidence_def build_incidence_matrices_def Let_def split: prod.split)
qed

text \<open>The triangles of the four instruments, one for every edge and third node.\<close>

definition market_triangles :: "(nat \<times> nat \<times> nat) list" where
  "market_triangles = [(0, 1, 3), (0, 2, 4), (1, 0, 3), (1, 2, 5), (2, 0, 4), (2, 1, 5),
     (3, 0, 1), (3, 4, 5), (4, 0, 2), (4, 3, 5), (5, 1, 2), (5, 3, 4)]"

lemma demo_triangles:
  "(\<Sum>t<12. f (hw_triangle_edges (demo_incidence ws0) t)) = (\<Sum>t\<leftarrow>market_triangles. f t)" for f :: "_ \<Rightarrow> flt"
proof -
  let ?ws = "demo_incidence ws0"
  note F = incidence_fields [OF fits4(1) demo_incidence_def [unfolded demo_laplacian_def], of ws0]
  have e: "hw_edge ?ws 0 = (0, 1)" "hw_edge ?ws 1 = (0, 2)" "hw_edge ?ws 2 = (0, 3)" "hw_edge ?ws 3 = (1, 2)"
    "hw_edge ?ws 4 = (1, 3)" "hw_edge ?ws 5 = (2, 3)"
    by (simp_all add: demo_edge market_edges_def)
  have between: "edge_between (hw_edge ?ws) 6 a b = edge_between (\<lambda>e. market_edges ! e) 6 a b" for a b
    unfolding edge_between_def by (intro fold_cong) (simp_all add: demo_edge)
  have "complete_triangles 4 (hw_edge ?ws) 6 e = complete_triangles 4 (\<lambda>e. market_edges ! e) 6 e" if "e < 6" for e
    using that by (simp add: complete_triangles_def between demo_edge)
  then have "mset (map (hw_triangle_edges ?ws) [0..<12]) = (\<Sum>e<6. mset (complete_triangles 4 (\<lambda>e. market_edges ! e) 6 e))"
    using F(5) by (simp add: fits4)
  also have "\<dots> = mset (concat (map (complete_triangles 4 (\<lambda>e. market_edges ! e) 6) [0..<6]))"
    by (simp add: upt_conv_Cons numeral_eq_Suc lessThan_Suc ac_simps)
  also have "concat (map (complete_triangles 4 (\<lambda>e. market_edges ! e) 6) [0..<6]) = market_triangles" by code_simp
  finally have "mset (map (f \<circ> hw_triangle_edges ?ws) [0..<12]) = mset (map f market_triangles)"
    by (metis map_map mset_map)
  then have "sum_list (map (f \<circ> hw_triangle_edges ?ws) [0..<12]) = sum_list (map f market_triangles)"
    by (metis sum_mset_sum_list)
  then show ?thesis by (simp add: interv_sum_list_conv_sum_set_nat atLeast0LessThan comp_def)
qed

definition market_matrix :: "flt list list" where
  "market_matrix =
     [[8, 2, 2, -2, -2, 0], [2, 8, 2, -2, 0, -2], [2, 2, 8, 0, -2, -2],
      [-2, -2, 0, 8, 2, -2], [-2, 0, -2, 2, 8, -2], [0, -2, -2, -2, -2, 8]]"

lemma less_six: "(i :: nat) < 6 \<longleftrightarrow> i = 0 \<or> i = 1 \<or> i = 2 \<or> i = 3 \<or> i = 4 \<or> i = 5"
  by auto

lemma demo_L1:
  assumes "r < 6" and "c < 6" shows "hw_L1 (demo_incidence ws0) r c = market_matrix ! r ! c"
proof -
  let ?ws = "demo_incidence ws0"
  let ?s = "\<lambda>e t. case t of (e0, e1, e2) \<Rightarrow> if e = e2 then -1 else if e = e0 \<or> e = e1 then 1 else (0 :: flt)"
  let ?d = "\<lambda>v e. if v = snd (market_edges ! e) then 1 else if v = fst (market_edges ! e) then -1 else (0 :: flt)"
  note F = incidence_fields [OF fits4(1) demo_incidence_def [unfolded demo_laplacian_def], of ws0]
  have ne: "fst (hw_edge ?ws e) \<noteq> snd (hw_edge ?ws e)" if "e < 6" for e
    using that by (auto simp: demo_edge market_edges_def less_six)
  have B1: "hw_B1 ?ws v e = ?d v e" if "e < 6" for v e
    using that signed_incidence_cell [of 6 "hw_edge ?ws" v e] ne by (simp add: F(6) fits4 demo_edge)
  have B2: "hw_B2 ?ws e t = ?s e (hw_triangle_edges ?ws t)" if "e < 6" "t < 12" for e t
    using that by (simp add: F(7) fits4 triangle_incidence_cell)
  have "hw_L1 ?ws r c = (\<Sum>v<4. ?d v r * ?d v c) + (\<Sum>t<12. ?s r (hw_triangle_edges ?ws t) * ?s c (hw_triangle_edges ?ws t))"
    using assms by (simp add: F(8) fits4 kernel_hodge1_laplacian_def B1 B2)
  also have "(\<Sum>t<12. ?s r (hw_triangle_edges ?ws t) * ?s c (hw_triangle_edges ?ws t)) =
      (\<Sum>t\<leftarrow>market_triangles. ?s r t * ?s c t)"
    by (rule demo_triangles)
  also have "(\<Sum>v<4. ?d v r * ?d v c) = ?d 0 r * ?d 0 c + ?d 1 r * ?d 1 c + ?d 2 r * ?d 2 c + ?d 3 r * ?d 3 c"
    by (simp add: numeral_eq_Suc)
  finally show ?thesis
    using assms unfolding less_six by (elim disjE) (simp_all add: market_matrix_def market_edges_def market_triangles_def)
qed

lemma sum_six: "(\<Sum>f<6. g f) = g 0 + g 1 + g 2 + g 3 + g 4 + g 5" for g :: "nat \<Rightarrow> flt"
  by (simp add: numeral_eq_Suc)

lemma demo_solver: "eigen_pairs demo_syevd (hw_n_edges (demo_incidence ws0)) (hw_L1 (demo_incidence ws0))"
proof -
  note F = incidence_fields [OF fits4(1) demo_incidence_def [unfolded demo_laplacian_def], of ws0]
  let ?x = "\<lambda>f :: nat. if f \<in> {1, 3, 5} then 1 else (0 :: flt)"
  have "(\<Sum>c<6. hw_L1 (demo_incidence ws0) r c * ?x c) = 4 * ?x r" if "r < 6" for r
    using that unfolding sum_six less_six by (elim disjE) (simp_all add: demo_L1 market_matrix_def)
  moreover have "\<exists>f<6. ?x f \<noteq> 0" by (intro exI [of _ 1]) simp
  ultimately show ?thesis by (simp only: eigen_pairs_def demo_syevd_def F(2) fits4 prod.case) blast
qed

theorem no_harmonic_part_witness:
  "\<forall>ws0. let ws' = compute_hodge_decomposition demo_syevd ((demo_incidence ws0)\<lparr>hw_omega := \<lambda>_. 5\<rparr>)
     in hw_n_edges ws' = 6 \<and> hw_n_harmonic_dims ws' = 0 \<and> hw_gamma ws' 0 = 0 \<and>
        hw_yang_mills_action ws' = (\<Sum>e<6. (hw_coexact ws' e)\<^sup>2) / 4"
  using no_harmonic_part [OF fits4(1) _ demo_incidence_def [unfolded demo_laplacian_def] demo_solver refl,
      where omega = "\<lambda>_. 5"]
  by (auto simp: Let_def)

definition demo_gradient :: "nat \<Rightarrow> flt" where
  "demo_gradient f = (if snd (market_edges ! f) = 1 then 5 else 0) - (if fst (market_edges ! f) = 1 then 5 else 0)"

theorem gradient_reported_as_curl_witness:
  "\<forall>ws0. hw_coexact (compute_hodge_decomposition demo_syevd ((demo_incidence ws0)\<lparr>hw_omega := demo_gradient\<rparr>)) 0 = -15"
proof
  fix ws0
  have ne: "hw_n_edges (demo_incidence ws0) = 6"
    using incidence_fields(2) [OF fits4(1) demo_incidence_def [unfolded demo_laplacian_def], of ws0] fits4(2) by simp
  from gradient_reported_as_curl [OF fits4(1) _ demo_incidence_def [unfolded demo_laplacian_def] demo_solver refl,
      where omega = demo_gradient and phi = "\<lambda>v. if v = 1 then 5 else 0" and c = "\<lambda>_. 0" and e = 0 and ?ws0.0 = ws0]
  show "hw_coexact (compute_hodge_decomposition demo_syevd ((demo_incidence ws0)\<lparr>hw_omega := demo_gradient\<rparr>)) 0 = -15"
    by (simp add: demo_edge ne demo_gradient_def) (simp add: market_edges_def)
qed

end
