(* ===== verification/Topology_Clusterer.thy ===== *)
theory Topology_Clusterer
  imports Prelude
begin

text \<open>
  \<open>TopologyClusterer\<close> of \<open>engine/ai/cuml_clustering.cu\<close>: the label buffer, the call of the clustering
  library and the counts derived from its labels. The library routine is an argument that maps the
  samples and the configuration to one label per sample; whether the library was present at build
  time is an argument too. Times are arguments.
\<close>

section \<open>Model\<close>

record ClusteringConfig =
  cc_eps :: flt
  cc_min_samples :: int
  cc_max_bytes_per_batch :: int

definition default_clustering :: ClusteringConfig where
  "default_clustering = \<lparr>cc_eps = 15 / 100, cc_min_samples = 3, cc_max_bytes_per_batch = 64 * 1024 * 1024\<rparr>"

record ClusteringResult =
  cr_labels :: "int list"
  cr_n_clusters :: int
  cr_n_noise :: nat
  cr_n_samples :: nat

record ClusterMetrics =
  cm_n_fit_calls :: u64
  cm_total_fit_ns :: u64
  cm_last_n_clusters :: int
  cm_last_n_noise :: nat

record TopologyClusterer =
  tc_cfg :: ClusteringConfig
  tc_result :: ClusteringResult
  tc_metrics :: ClusterMetrics
  tc_label_capacity :: nat

definition new_clusterer :: "ClusteringConfig \<Rightarrow> TopologyClusterer" where
  "new_clusterer cfg =
     \<lparr>tc_cfg = cfg, tc_result = \<lparr>cr_labels = [], cr_n_clusters = 0, cr_n_noise = 0, cr_n_samples = 0\<rparr>,
      tc_metrics = \<lparr>cm_n_fit_calls = 0, cm_total_fit_ns = 0, cm_last_n_clusters = 0, cm_last_n_noise = 0\<rparr>,
      tc_label_capacity = 0\<rparr>"

definition ensure_label_buffer :: "nat \<Rightarrow> TopologyClusterer \<Rightarrow> TopologyClusterer" where
  "ensure_label_buffer n_samples c =
     (if n_samples \<le> tc_label_capacity c then c else c\<lparr>tc_label_capacity := n_samples\<rparr>)"

text \<open>The scan of the labels: the largest label and the number of negative ones.\<close>

fun scan_labels :: "int list \<Rightarrow> int \<times> nat \<Rightarrow> int \<times> nat" where
  "scan_labels [] st = st"
| "scan_labels (lbl # ls) (max_label, noise) =
     scan_labels ls (if lbl < 0 then (max_label, Suc noise) else (max max_label lbl, noise))"

type_synonym dbscan = "ClusteringConfig \<Rightarrow> flt list list \<Rightarrow> int list"

definition fit ::
    "bool \<Rightarrow> dbscan \<Rightarrow> u64 \<Rightarrow> flt list list \<Rightarrow> nat \<Rightarrow> nat \<Rightarrow> TopologyClusterer \<Rightarrow> TopologyClusterer" where
  "fit has_cuml dbscan elapsed_ns features n_samples n_features c =
     (if \<not> has_cuml then c
      else if n_samples = 0 \<or> n_features = 0 then c
      else
        let c1 = ensure_label_buffer n_samples c;
            labels = dbscan (tc_cfg c) (take n_samples features)
        in case scan_labels labels (-1, 0) of (max_label, noise) \<Rightarrow>
             let m = tc_metrics c1
             in c1\<lparr>tc_result := \<lparr>cr_labels = labels, cr_n_clusters = max_label + 1, cr_n_noise = noise,
                     cr_n_samples = n_samples\<rparr>,
                   tc_metrics := \<lparr>cm_n_fit_calls = cm_n_fit_calls m + 1,
                     cm_total_fit_ns = cm_total_fit_ns m + elapsed_ns,
                     cm_last_n_clusters = max_label + 1, cm_last_n_noise = noise\<rparr>\<rparr>)"

section \<open>A fit\<close>

lemma fit_nothing: "fit False dbscan t rows n k c = c"
  by (simp add: fit_def)

lemma fit_result:
  assumes "scan_labels (dbscan (tc_cfg c) (take n rows)) (-1, 0) = (mx, noise)" and "0 < n" and "0 < k"
  shows "tc_result (fit True dbscan t rows n k c) =
    \<lparr>cr_labels = dbscan (tc_cfg c) (take n rows), cr_n_clusters = mx + 1, cr_n_noise = noise, cr_n_samples = n\<rparr>"
  using assms by (simp add: fit_def Let_def ensure_label_buffer_def)

lemma fit_frame:
  "tc_cfg (fit has_cuml dbscan t rows n k c) = tc_cfg c"
  "0 < n \<Longrightarrow> 0 < k \<Longrightarrow> cm_n_fit_calls (tc_metrics (fit True dbscan t rows n k c)) = cm_n_fit_calls (tc_metrics c) + 1"
  "0 < n \<Longrightarrow> 0 < k \<Longrightarrow> cr_labels (tc_result (fit True dbscan t rows n k c)) = dbscan (tc_cfg c) (take n rows)"
  by (simp_all add: fit_def ensure_label_buffer_def Let_def split: prod.split)

section \<open>Counts\<close>

lemma scan_labels_sound:
  "scan_labels ls (mx, k) = (mx', k') \<Longrightarrow> - 1 \<le> mx \<Longrightarrow>
     k' = k + length (filter (\<lambda>l. l < 0) ls) \<and> mx \<le> mx' \<and> (\<forall>l \<in> set ls. l \<le> mx' \<or> l < 0) \<and>
     (mx' = mx \<or> mx' \<in> set ls)"
proof (induction ls arbitrary: mx k)
  case (Cons l ls)
  show ?case
  proof (cases "l < 0")
    case True
    with Cons.IH [of mx "Suc k"] Cons.prems show ?thesis by auto
  next
    case False
    with Cons.IH [of "max mx l" k] Cons.prems show ?thesis by (auto simp: max_def split: if_splits)
  qed
qed simp

text \<open>
  The counts are right for labels as the library documents them: the clusters are numbered from zero
  without gaps and noise is \<open>-1\<close>.
\<close>

lemma cluster_counts:
  assumes labels: "dbscan (tc_cfg c) (take n features) = ls" and "length ls = n"
    and contiguous: "set ls \<inter> {0..} = {0..<int k}" and noise: "\<forall>l \<in> set ls. - 1 \<le> l"
    and n: "0 < n" "0 < m"
  shows "cr_n_clusters (tc_result (fit True dbscan t features n m c)) = int k"
    and "cr_n_noise (tc_result (fit True dbscan t features n m c)) = count_list ls (- 1)"
    and "n \<le> tc_label_capacity (fit True dbscan t features n m c)"
proof -
  obtain mx q where s: "scan_labels ls (-1, 0) = (mx, q)" by fastforce
  note sound = scan_labels_sound [OF s]
  have "mx = int k - 1"
  proof (cases k)
    case 0
    then have "\<forall>l \<in> set ls. l < 0" using contiguous by force
    then have "mx < 0" using sound by auto
    then show ?thesis using sound 0 by simp
  next
    case (Suc k')
    then have "int k - 1 \<in> set ls \<inter> {0..}" unfolding contiguous by simp
    then have "int k - 1 \<le> mx" using sound Suc by fastforce
    moreover have "mx < int k"
    proof -
      have "mx \<in> set ls \<inter> {0..}" using sound calculation Suc by auto
      then show ?thesis unfolding contiguous by simp
    qed
    ultimately show ?thesis by simp
  qed
  moreover have "length (filter (\<lambda>l. l < 0) ls) = count_list ls (- 1)"
    using noise by (induction ls) (auto simp: order_le_less)
  ultimately show "cr_n_clusters (tc_result (fit True dbscan t features n m c)) = int k"
    "cr_n_noise (tc_result (fit True dbscan t features n m c)) = count_list ls (- 1)"
    "n \<le> tc_label_capacity (fit True dbscan t features n m c)"
    using n s sound by (simp_all add: fit_def labels Let_def ensure_label_buffer_def)
qed

end
