(* ===== verification/Cuda_Pipeline.thy ===== *)
theory Cuda_Pipeline
  imports Lob_Mirror Hodge_Decomposition Floer_Homology Topology_Clusterer Latency_Trace
begin

text \<open>
  The pipeline thread (\<open>math/cuda_pipeline.cu\<close> and its header): book transfer, graph and
  decomposition, the signal history and the feature windows of the clustering.

  One call of \<open>run_once\<close> takes what it observes of the outside as an argument: the generation of the
  book and the attempts of the staging copy, the schedules of the kernels, the old contents of the
  instanton buffer and the clock readings. The two device arrays of edge ends are one array of pairs.
\<close>

section \<open>State\<close>

definition k_pipeline_poll_ns :: u64 where "k_pipeline_poll_ns = 1000000"
definition k_signal_history_len :: nat where "k_signal_history_len = 1024"
definition k_cluster_window :: nat where "k_cluster_window = 128"
definition k_cluster_features :: nat where "k_cluster_features = 4"
definition k_cluster_refit_every :: u64 where "k_cluster_refit_every = 10"

record device_book =
  db_bid_prices :: "nat \<Rightarrow> flt"
  db_ask_prices :: "nat \<Rightarrow> flt"
  db_bid_qtys :: "nat \<Rightarrow> flt"
  db_ask_qtys :: "nat \<Rightarrow> flt"

record PipelineMetrics =
  pm_n_transfers :: u64
  pm_n_decompositions :: u64
  pm_n_arbitrage_signals :: u64
  pm_total_transfer_ns :: u64
  pm_total_decomp_ns :: u64
  pm_last_ym_action :: flt
  pm_last_harmonic_dims :: nat

record SignalRecord =
  sr_timestamp_ns :: u64
  sr_yang_mills_action :: flt
  sr_n_active_loops :: nat
  sr_n_harmonic_dims :: nat
  sr_max_curl :: flt
  sr_mean_curl :: flt
  sr_n_edges :: nat
  sr_floer_HF0 :: int
  sr_floer_HF1 :: int
  sr_floer_HF2 :: int
  sr_floer_euler :: int
  sr_floer_n_instantons :: nat
  sr_floer_entry_action :: flt
  sr_floer_exit_action :: flt
  sr_floer_instanton_len :: flt
  sr_floer_asd_residual :: flt
  sr_floer_signal :: u8
  sr_floer_instanton_found :: bool

definition empty_signal :: SignalRecord where
  "empty_signal = \<lparr>sr_timestamp_ns = 0, sr_yang_mills_action = 0, sr_n_active_loops = 0, sr_n_harmonic_dims = 0,
     sr_max_curl = 0, sr_mean_curl = 0, sr_n_edges = 0, sr_floer_HF0 = 0, sr_floer_HF1 = 0, sr_floer_HF2 = 0,
     sr_floer_euler = 0, sr_floer_n_instantons = 0, sr_floer_entry_action = 0, sr_floer_exit_action = 0,
     sr_floer_instanton_len = 0, sr_floer_asd_residual = 0, sr_floer_signal = 1, sr_floer_instanton_found = False\<rparr>"

record pipeline =
  pl_n_instruments :: nat
  pl_depth :: nat
  pl_mirror :: "device_book mirror"
  pl_laplacian :: SparseLaplacian
  pl_lobpcg :: LobpcgWorkspace
  pl_hodge :: HodgeWorkspace
  pl_harmonic_out :: "nat \<Rightarrow> flt"
  pl_curl_out :: "nat \<Rightarrow> flt"
  pl_edge_out :: "nat \<Rightarrow> nat \<times> nat"
  pl_metrics :: PipelineMetrics
  pl_history :: "SignalRecord list"
  pl_write_idx :: u64
  pl_clusterer :: TopologyClusterer
  pl_features :: "flt list list"
  pl_last_refit :: u64
  pl_last_generation :: u64
  pl_streak_current :: u64
  pl_streak_max :: u64
  pl_zero_edge_ticks :: u64
  pl_latency :: "histogram list"

text \<open>What one call of \<open>run_once\<close> observes, and the library routines it calls.\<close>

record tick =
  tk_generation :: u64
  tk_book :: "nat \<Rightarrow> u64 \<times> device_book \<times> u64"
  tk_normalize_order :: "nat list"
  tk_edge_sched :: "nat list"
  tk_triangle_sched :: "nat list"
  tk_floer_orders :: "nat list \<times> nat list \<times> nat list"
  tk_instantons :: "nat \<Rightarrow> InstantonPath"
  tk_transfer_ns :: u64
  tk_decomp_ns :: u64
  tk_now :: u64
  tk_fit_ns :: u64
  tk_run_ns :: u64

record gpu_libs =
  gl_syevd :: eigensolver
  gl_dbscan :: dbscan
  gl_has_cuml :: bool

definition CudaPipeline ::
    "nat \<Rightarrow> nat \<Rightarrow> device_book mirror \<Rightarrow> SparseLaplacian \<Rightarrow> LobpcgWorkspace \<Rightarrow> HodgeWorkspace
     \<Rightarrow> (nat \<Rightarrow> nat \<times> nat) \<Rightarrow> histogram list \<Rightarrow> pipeline" where
  "CudaPipeline n depth mirror lap lob ws edge_buf lat =
     \<lparr>pl_n_instruments = n, pl_depth = depth, pl_mirror = mirror,
      pl_laplacian = lap\<lparr>sl_n_rows := 0, sl_nnz := 0\<rparr>, pl_lobpcg = lob,
      pl_hodge = hodge_workspace_init n ws,
      pl_harmonic_out = \<lambda>_. 0, pl_curl_out = \<lambda>_. 0, pl_edge_out = edge_buf,
      pl_metrics = \<lparr>pm_n_transfers = 0, pm_n_decompositions = 0, pm_n_arbitrage_signals = 0, pm_total_transfer_ns = 0,
        pm_total_decomp_ns = 0, pm_last_ym_action = 0, pm_last_harmonic_dims = 0\<rparr>,
      pl_history = replicate k_signal_history_len empty_signal, pl_write_idx = 0,
      pl_clusterer = new_clusterer default_clustering,
      pl_features = replicate k_cluster_window (replicate k_cluster_features 0),
      pl_last_refit = 0, pl_last_generation = 0,
      pl_streak_current = 0, pl_streak_max = 0, pl_zero_edge_ticks = 0, pl_latency = lat\<rparr>"

section \<open>Readers\<close>

definition last_signal :: "pipeline \<Rightarrow> SignalRecord" where
  "last_signal p =
     pl_history p ! (unat ((pl_write_idx p + word_of_nat k_signal_history_len - 1) mod word_of_nat k_signal_history_len))"

record TopologySnapshot =
  ts_harmonic_flow :: "nat \<Rightarrow> flt"
  ts_edge :: "nat \<Rightarrow> nat \<times> nat"
  ts_n_edges :: nat

definition last_topology :: "pipeline \<Rightarrow> TopologySnapshot" where
  "last_topology p = \<lparr>ts_harmonic_flow = pl_harmonic_out p, ts_edge = pl_edge_out p, ts_n_edges = sr_n_edges (last_signal p)\<rparr>"

section \<open>Stages\<close>

definition transfer_lob_to_gpu :: "tick \<Rightarrow> pipeline \<Rightarrow> pipeline" where
  "transfer_lob_to_gpu tk p =
     (let gen = tk_generation tk
      in if gen = pl_last_generation p then p
         else p\<lparr>pl_mirror := async_push (tk_book tk) gen (pl_mirror p), pl_last_generation := gen,
                pl_metrics := (pl_metrics p)\<lparr>
                  pm_total_transfer_ns := pm_total_transfer_ns (pl_metrics p) + tk_transfer_ns tk,
                  pm_n_transfers := pm_n_transfers (pl_metrics p) + 1\<rparr>\<rparr>)"

definition run_spectral_pruning :: "tick \<Rightarrow> pipeline \<Rightarrow> pipeline" where
  "run_spectral_pruning tk p =
     (let snap = fst (mirror_snapshot (pl_mirror p))
      in if pl_n_instruments p = 0 then p
         else
           let p1 = p\<lparr>pl_laplacian := build_normalized_laplacian (tk_normalize_order tk) (db_bid_prices snap)
                        (db_ask_prices snap) (pl_n_instruments p) (pl_depth p) (pl_laplacian p)\<rparr>;
               n = sl_n_rows (pl_laplacian p1)
           in if n < 4 then p1
              else case lobpcg_solve (lobpcg_workspace_init n k_lobpcg_block_size (pl_lobpcg p1)) of (fiedler, lw) \<Rightarrow>
                p1\<lparr>pl_lobpcg := lw,
                   pl_hodge := (pl_hodge p1)\<lparr>hw_prune_mask :=
                     fiedler_prune_mask (fi_fiedler_vec fiedler) n 99 (hw_prune_mask (pl_hodge p1))\<rparr>\<rparr>)"

definition run_hodge_decomposition :: "gpu_libs \<Rightarrow> tick \<Rightarrow> pipeline \<Rightarrow> pipeline" where
  "run_hodge_decomposition libs tk p =
     (if sl_n_rows (pl_laplacian p) < 4 \<or> sl_nnz (pl_laplacian p) = 0 then p
      else
        let snap = fst (mirror_snapshot (pl_mirror p));
            ws = build_incidence_matrices (tk_edge_sched tk) (tk_triangle_sched tk) (pl_laplacian p) (pl_hodge p)
        in if hw_n_edges ws = 0 then p\<lparr>pl_hodge := ws\<rparr>
           else
             let omega = kernel_build_flow_vector (db_bid_prices snap) (db_ask_prices snap) (db_bid_qtys snap)
                   (db_ask_qtys snap) (hw_edge ws) (hw_n_edges ws) (pl_depth p) (hw_omega ws);
                 m = pl_metrics p
             in p\<lparr>pl_hodge := compute_hodge_decomposition (gl_syevd libs) (ws\<lparr>hw_omega := omega\<rparr>),
                  pl_metrics := m\<lparr>pm_total_decomp_ns := pm_total_decomp_ns m + tk_decomp_ns tk,
                    pm_n_decompositions := pm_n_decompositions m + 1\<rparr>\<rparr>)"

text \<open>The input of the homology pass.\<close>

definition hodge_field :: "HodgeWorkspace \<Rightarrow> edge_field" where
  "hodge_field ws =
     (let es = [0..<hw_n_edges ws]
      in \<lparr>ef_curl_magnitude = map (hw_curl_magnitude ws) es, ef_curl_coexact = map (hw_coexact ws) es,
          ef_edge_src = map (\<lambda>e. int (fst (hw_edge ws e))) es, ef_edge_dst = map (\<lambda>e. int (snd (hw_edge ws e))) es,
          ef_n_edges = hw_n_edges ws, ef_ym_action = hw_yang_mills_action ws\<rparr>)"

definition run_floer_pass :: "tick \<Rightarrow> HodgeWorkspace \<Rightarrow> SignalRecord \<Rightarrow> SignalRecord" where
  "run_floer_pass tk ws rec =
     (if hw_n_edges ws = 0 then rec
      else
        case tk_floer_orders tk of (o1, o2, o3) \<Rightarrow>
          let floer = run_floer_analysis o1 o2 o3 (tk_instantons tk) (hodge_field ws)
          in rec\<lparr>sr_floer_HF0 := fr_rank_HF0 floer, sr_floer_HF1 := fr_rank_HF1 floer, sr_floer_HF2 := fr_rank_HF2 floer,
                 sr_floer_euler := fr_euler_characteristic floer, sr_floer_n_instantons := fr_n_instantons floer,
                 sr_floer_entry_action := fr_entry_action floer, sr_floer_exit_action := fr_exit_action floer,
                 sr_floer_instanton_len := fr_instanton_length floer,
                 sr_floer_asd_residual := fr_mean_self_dual_residual floer,
                 sr_floer_signal := word_of_int (morse_int (fr_entry_signal floer)),
                 sr_floer_instanton_found := fr_instanton_found floer\<rparr>)"

text \<open>The record built from a signal and the curls copied to the host.\<close>

definition curl_stats :: "nat \<Rightarrow> (nat \<Rightarrow> flt) \<Rightarrow> flt \<times> flt" where
  "curl_stats n curl =
     (case fold (\<lambda>e (mx, sm). (if curl e > mx then curl e else mx, sm + curl e)) [0..<n] (0, 0) of
        (max_curl, sum_curl) \<Rightarrow> (max_curl, sum_curl / real n))"

definition signal_record :: "tick \<Rightarrow> ArbitrageSignal \<Rightarrow> (nat \<Rightarrow> flt) \<Rightarrow> HodgeWorkspace \<Rightarrow> SignalRecord" where
  "signal_record tk sig curl ws =
     (case curl_stats (as_n_edges sig) curl of (max_curl, mean_curl) \<Rightarrow>
        run_floer_pass tk ws
          (empty_signal\<lparr>sr_timestamp_ns := as_signal_ts_ns sig, sr_yang_mills_action := as_yang_mills_action sig,
             sr_n_active_loops := as_n_active_loops sig, sr_n_harmonic_dims := hw_n_harmonic_dims ws,
             sr_max_curl := max_curl, sr_mean_curl := mean_curl, sr_n_edges := as_n_edges sig\<rparr>))"

definition record_signal :: "tick \<Rightarrow> ArbitrageSignal \<Rightarrow> pipeline \<Rightarrow> pipeline" where
  "record_signal tk sig p =
     (if as_n_edges sig = 0 then p
      else
        case copy_signal_to_host sig (as_n_edges sig) (pl_harmonic_out p) (pl_curl_out p) of (harm, curl) \<Rightarrow>
          let ws = pl_hodge p;
              edges = (\<lambda>e. if e < as_n_edges sig then hw_edge ws e else pl_edge_out p e);
              idx = unat (pl_write_idx p mod word_of_nat k_signal_history_len);
              m = pl_metrics p
          in p\<lparr>pl_harmonic_out := harm, pl_curl_out := curl, pl_edge_out := edges,
               pl_history := (pl_history p)[idx := signal_record tk sig curl ws],
               pl_write_idx := pl_write_idx p + 1,
               pl_metrics := m\<lparr>pm_n_arbitrage_signals := pm_n_arbitrage_signals m + 1,
                 pm_last_ym_action := as_yang_mills_action sig, pm_last_harmonic_dims := hw_n_harmonic_dims ws\<rparr>\<rparr>)"

definition feature_row :: "SignalRecord \<Rightarrow> flt list" where
  "feature_row rec = [sr_yang_mills_action rec, sr_max_curl rec, sr_mean_curl rec, of_int (sr_floer_HF1 rec)]"

definition build_cluster_window_and_fit :: "gpu_libs \<Rightarrow> tick \<Rightarrow> pipeline \<Rightarrow> pipeline" where
  "build_cluster_window_and_fit libs tk p =
     (let total = pl_write_idx p
      in if total < word_of_nat k_cluster_window then p
         else if total - pl_last_refit p < k_cluster_refit_every then p
         else
           let rows = map (\<lambda>i. feature_row (pl_history p ! unat ((total - word_of_nat k_cluster_window + word_of_nat i)
                 mod word_of_nat k_signal_history_len))) [0..<k_cluster_window]
           in p\<lparr>pl_features := rows,
                pl_clusterer := fit (gl_has_cuml libs) (gl_dbscan libs) (tk_fit_ns tk) rows k_cluster_window
                  k_cluster_features (pl_clusterer p),
                pl_last_refit := total\<rparr>)"

definition zero_edge_tick :: "pipeline \<Rightarrow> pipeline" where
  "zero_edge_tick p =
     (let streak = pl_streak_current p + 1
      in p\<lparr>pl_streak_current := streak, pl_zero_edge_ticks := pl_zero_edge_ticks p + 1,
           pl_streak_max := (if streak > pl_streak_max p then streak else pl_streak_max p)\<rparr>)"

definition run_once :: "gpu_libs \<Rightarrow> tick \<Rightarrow> pipeline \<Rightarrow> pipeline" where
  "run_once libs tk p =
     (let p1 = run_hodge_decomposition libs tk (run_spectral_pruning tk (transfer_lob_to_gpu tk p));
          p2 = (if hw_n_edges (pl_hodge p1) > 0
                then build_cluster_window_and_fit libs tk
                       (record_signal tk (extract_arbitrage_signal (tk_now tk) (pl_hodge p1)) (p1\<lparr>pl_streak_current := 0\<rparr>))
                else zero_edge_tick p1)
      in p2\<lparr>pl_latency := record_stage GpuRunOnce (tk_run_ns tk) (pl_latency p2)\<rparr>)"

text \<open>The thread runs one tick after the other until it is told to stop.\<close>

definition run_continuous :: "gpu_libs \<Rightarrow> tick list \<Rightarrow> pipeline \<Rightarrow> pipeline" where
  "run_continuous libs ticks p = fold (run_once libs) ticks p"

section \<open>The stages before the signal\<close>

definition analysed :: "gpu_libs \<Rightarrow> tick \<Rightarrow> pipeline \<Rightarrow> pipeline" where
  "analysed libs tk p = run_hodge_decomposition libs tk (run_spectral_pruning tk (transfer_lob_to_gpu tk p))"

lemma compute_hodge_edges [simp]:
  "hw_n_edges (compute_hodge_decomposition syevd ws) = hw_n_edges ws"
  "hw_edge (compute_hodge_decomposition syevd ws) = hw_edge ws"
  by (auto simp: compute_hodge_decomposition_def Let_def split: prod.split)

lemma transfer_shape: "\<exists>m g x. transfer_lob_to_gpu tk p = p\<lparr>pl_mirror := m, pl_last_generation := g, pl_metrics := x\<rparr>"
proof (cases "tk_generation tk = pl_last_generation p")
  case True
  then have "transfer_lob_to_gpu tk p =
      p\<lparr>pl_mirror := pl_mirror p, pl_last_generation := pl_last_generation p, pl_metrics := pl_metrics p\<rparr>"
    by (simp add: transfer_lob_to_gpu_def Let_def)
  then show ?thesis by blast
next
  case False
  then show ?thesis by (simp only: transfer_lob_to_gpu_def Let_def if_False) blast
qed

lemma pruning_shape: "\<exists>l b h. run_spectral_pruning tk p = p\<lparr>pl_laplacian := l, pl_lobpcg := b, pl_hodge := h\<rparr>"
proof (cases "pl_n_instruments p = 0")
  case True
  then have "run_spectral_pruning tk p =
      p\<lparr>pl_laplacian := pl_laplacian p, pl_lobpcg := pl_lobpcg p, pl_hodge := pl_hodge p\<rparr>"
    by (simp add: run_spectral_pruning_def Let_def)
  then show ?thesis by blast
next
  case False
  define l where "l = build_normalized_laplacian (tk_normalize_order tk) (db_bid_prices (fst (mirror_snapshot (pl_mirror p))))
    (db_ask_prices (fst (mirror_snapshot (pl_mirror p)))) (pl_n_instruments p) (pl_depth p) (pl_laplacian p)"
  obtain fi lw where "lobpcg_solve (lobpcg_workspace_init (sl_n_rows l) k_lobpcg_block_size (pl_lobpcg p)) = (fi, lw)"
    by fastforce
  then have "run_spectral_pruning tk p =
      (if sl_n_rows l < 4 then p\<lparr>pl_laplacian := l, pl_lobpcg := pl_lobpcg p, pl_hodge := pl_hodge p\<rparr>
       else p\<lparr>pl_laplacian := l, pl_lobpcg := lw, pl_hodge := (pl_hodge p)\<lparr>hw_prune_mask :=
         fiedler_prune_mask (fi_fiedler_vec fi) (sl_n_rows l) 99 (hw_prune_mask (pl_hodge p))\<rparr>\<rparr>)"
    using False by (simp add: run_spectral_pruning_def Let_def l_def)
  then show ?thesis by metis
qed

lemma hodge_shape: "\<exists>h x. run_hodge_decomposition libs tk p = p\<lparr>pl_hodge := h, pl_metrics := x\<rparr>"
proof -
  have keep: "p\<lparr>pl_hodge := h\<rparr> = p\<lparr>pl_hodge := h, pl_metrics := pl_metrics p\<rparr>" for h by simp
  have same: "p = p\<lparr>pl_hodge := pl_hodge p, pl_metrics := pl_metrics p\<rparr>" by simp
  show ?thesis unfolding run_hodge_decomposition_def Let_def using keep same by metis
qed

lemma analysed_shape:
  "\<exists>m g x l b h. analysed libs tk p = p\<lparr>pl_mirror := m, pl_last_generation := g, pl_metrics := x,
     pl_laplacian := l, pl_lobpcg := b, pl_hodge := h\<rparr>"
proof -
  obtain m g x where 1: "transfer_lob_to_gpu tk p = p\<lparr>pl_mirror := m, pl_last_generation := g, pl_metrics := x\<rparr>"
    using transfer_shape by blast
  obtain l b h where 2: "run_spectral_pruning tk (transfer_lob_to_gpu tk p) =
      (transfer_lob_to_gpu tk p)\<lparr>pl_laplacian := l, pl_lobpcg := b, pl_hodge := h\<rparr>" using pruning_shape by blast
  obtain h' x' where 3: "analysed libs tk p =
      (run_spectral_pruning tk (transfer_lob_to_gpu tk p))\<lparr>pl_hodge := h', pl_metrics := x'\<rparr>"
    unfolding analysed_def using hodge_shape by blast
  have "analysed libs tk p = p\<lparr>pl_mirror := m, pl_last_generation := g, pl_metrics := x',
     pl_laplacian := l, pl_lobpcg := b, pl_hodge := h'\<rparr>" by (simp only: 3 2) (simp add: 1)
  then show ?thesis by blast
qed

lemma analysed_frame:
  "pl_n_instruments (analysed libs tk p) = pl_n_instruments p" "pl_depth (analysed libs tk p) = pl_depth p"
  "pl_history (analysed libs tk p) = pl_history p" "pl_write_idx (analysed libs tk p) = pl_write_idx p"
  "pl_clusterer (analysed libs tk p) = pl_clusterer p" "pl_features (analysed libs tk p) = pl_features p"
  "pl_last_refit (analysed libs tk p) = pl_last_refit p" "pl_streak_current (analysed libs tk p) = pl_streak_current p"
  "pl_streak_max (analysed libs tk p) = pl_streak_max p" "pl_zero_edge_ticks (analysed libs tk p) = pl_zero_edge_ticks p"
  using analysed_shape [of libs tk p] by auto

lemma analysed_edges:
  assumes n: "pl_n_instruments p = n" "4 \<le> n" "graph_fits n"
  shows "hw_n_edges (pl_hodge (analysed libs tk p)) = n * (n - 1) div 2"
    and "0 < n * (n - 1) div 2"
proof -
  have "4 * 3 \<le> n * (n - 1)" using n(2) by (intro mult_le_mono) auto
  then show pos: "0 < n * (n - 1) div 2" by simp
  have edges: "hw_n_edges (build_incidence_matrices s1 s2 (build_normalized_laplacian order bid ask n depth L) ws) =
      n * (n - 1) div 2" for s1 s2 order bid ask depth L ws
    using incidence_fields(2) [OF n(3) refl] by (simp add: pair_count_def)
  show "hw_n_edges (pl_hodge (analysed libs tk p)) = n * (n - 1) div 2"
    using n pos edges
    by (auto simp: analysed_def run_hodge_decomposition_def run_spectral_pruning_def transfer_lob_to_gpu_def
        laplacian_rows Let_def split: prod.split)
qed

section \<open>The history ring\<close>

text \<open>The ring holds the latest of the records written so far.\<close>

definition history_of :: "SignalRecord list \<Rightarrow> pipeline \<Rightarrow> bool" where
  "history_of rs p \<longleftrightarrow> length (pl_history p) = k_signal_history_len \<and> pl_write_idx p = word_of_nat (length rs) \<and>
     (\<forall>j < length rs. length rs \<le> j + k_signal_history_len \<longrightarrow> pl_history p ! (j mod k_signal_history_len) = rs ! j)"

lemma ring_index: "unat ((word_of_nat k :: u64) mod word_of_nat k_signal_history_len) = k mod k_signal_history_len"
proof -
  have "unat ((word_of_nat k :: u64) mod word_of_nat k_signal_history_len) = k mod 2 ^ 64 mod 1024"
    by (simp add: k_signal_history_len_def unat_mod unsigned_of_nat take_bit_eq_mod)
  also have "\<dots> = k mod 1024" by (rule mod_mod_cancel) simp
  finally show ?thesis by (simp add: k_signal_history_len_def)
qed

lemma history_append:
  assumes "history_of rs p" and "pl_write_idx p' = pl_write_idx p + 1"
    and "pl_history p' = (pl_history p)[unat (pl_write_idx p mod word_of_nat k_signal_history_len) := rec]"
  shows "history_of (rs @ [rec]) p'"
proof -
  let ?N = k_signal_history_len
  have N: "0 < ?N" by (simp add: k_signal_history_len_def)
  have idx: "unat (pl_write_idx p mod word_of_nat ?N) = length rs mod ?N"
    using assms(1) ring_index by (simp add: history_of_def)
  have "pl_history p' ! (j mod ?N) = (rs @ [rec]) ! j" if "j < Suc (length rs)" "Suc (length rs) \<le> j + ?N" for j
  proof (cases "j = length rs")
    case True
    then show ?thesis using assms idx N by (simp add: history_of_def)
  next
    case False
    have "j mod ?N \<noteq> length rs mod ?N"
    proof
      assume "j mod ?N = length rs mod ?N"
      then have "?N dvd length rs - j" using that mod_eq_dvd_iff_nat [of j "length rs" ?N] by simp
      then show False using False that by (auto dest: dvd_imp_le)
    qed
    then show ?thesis using assms idx False that by (simp add: history_of_def nth_append)
  qed
  then show ?thesis using assms by (simp add: history_of_def add.commute)
qed

lemma history_last:
  assumes "history_of rs p" and "rs \<noteq> []"
  shows "last_signal p = last rs"
proof -
  let ?N = k_signal_history_len
  obtain k where k: "length rs = Suc k" using assms(2) by (cases rs) auto
  have w: "pl_write_idx p = word_of_nat k + 1" using assms(1) k by (simp add: history_of_def)
  have "pl_write_idx p + word_of_nat ?N - 1 = word_of_nat (k + ?N)" unfolding w by simp
  then have "unat ((pl_write_idx p + word_of_nat ?N - 1) mod word_of_nat ?N) = k mod ?N"
    using ring_index [of "k + ?N"] by (simp only: mod_add_self2)
  then show ?thesis
    using assms k by (simp add: last_signal_def history_of_def last_conv_nth k_signal_history_len_def)
qed

section \<open>One tick\<close>

lemma record_signal_effect:
  assumes "0 < as_n_edges sig" and "p' = record_signal tk sig p"
  obtains rec where "pl_history p' = (pl_history p)[unat (pl_write_idx p mod word_of_nat k_signal_history_len) := rec]"
    "pl_write_idx p' = pl_write_idx p + 1" "sr_timestamp_ns rec = as_signal_ts_ns sig" "sr_n_edges rec = as_n_edges sig"
    "sr_yang_mills_action rec = as_yang_mills_action sig"
    "\<forall>e < as_n_edges sig. pl_harmonic_out p' e = as_harmonic_flow sig e \<and> pl_edge_out p' e = hw_edge (pl_hodge p) e"
    "pl_n_instruments p' = pl_n_instruments p" "pl_clusterer p' = pl_clusterer p" "pl_features p' = pl_features p"
    "pl_last_refit p' = pl_last_refit p" "pl_streak_max p' = pl_streak_max p" "pl_zero_edge_ticks p' = pl_zero_edge_ticks p" "pl_hodge p' = pl_hodge p"
proof -
  obtain harm curl where c: "copy_signal_to_host sig (as_n_edges sig) (pl_harmonic_out p) (pl_curl_out p) = (harm, curl)"
    by fastforce
  let ?rec = "signal_record tk sig curl (pl_hodge p)"
  have rec: "sr_timestamp_ns ?rec = as_signal_ts_ns sig" "sr_n_edges ?rec = as_n_edges sig"
    "sr_yang_mills_action ?rec = as_yang_mills_action sig"
    by (simp_all add: signal_record_def run_floer_pass_def Let_def split: prod.split)
  show thesis
    by (rule that [of ?rec]; insert rec c assms;
        simp add: record_signal_def Let_def; simp add: copy_signal_to_host_def; auto)
qed

lemma run_once_split:
  "run_once libs tk p =
     (let p1 = analysed libs tk p;
          p2 = (if hw_n_edges (pl_hodge p1) > 0
                then build_cluster_window_and_fit libs tk
                       (record_signal tk (extract_arbitrage_signal (tk_now tk) (pl_hodge p1)) (p1\<lparr>pl_streak_current := 0\<rparr>))
                else zero_edge_tick p1)
      in p2\<lparr>pl_latency := record_stage GpuRunOnce (tk_run_ns tk) (pl_latency p2)\<rparr>)"
  by (simp only: run_once_def analysed_def)

text \<open>The part of the state that the clustering stage reads and writes.\<close>

lemma cluster_frame:
  "pl_history (build_cluster_window_and_fit libs tk p) = pl_history p"
  "pl_write_idx (build_cluster_window_and_fit libs tk p) = pl_write_idx p"
  "pl_n_instruments (build_cluster_window_and_fit libs tk p) = pl_n_instruments p"
  "pl_streak_max (build_cluster_window_and_fit libs tk p) = pl_streak_max p"
  "pl_zero_edge_ticks (build_cluster_window_and_fit libs tk p) = pl_zero_edge_ticks p"
  "pl_harmonic_out (build_cluster_window_and_fit libs tk p) = pl_harmonic_out p"
  "pl_edge_out (build_cluster_window_and_fit libs tk p) = pl_edge_out p"
  "pl_hodge (build_cluster_window_and_fit libs tk p) = pl_hodge p"
  by (simp_all add: build_cluster_window_and_fit_def Let_def)

text \<open>The signal counts at which the clustering has been refitted last, and how often it was.\<close>

definition last_fit :: "nat \<Rightarrow> nat" where
  "last_fit k = (if k < 128 then 0 else 128 + (k - 128) div 10 * 10)"

definition fit_count :: "nat \<Rightarrow> nat" where
  "fit_count k = (if k < 128 then 0 else Suc ((k - 128) div 10))"

definition window_of :: "SignalRecord list \<Rightarrow> nat \<Rightarrow> flt list list" where
  "window_of rs f = map feature_row (take k_cluster_window (drop (f - k_cluster_window) rs))"

definition clustered :: "gpu_libs \<Rightarrow> SignalRecord list \<Rightarrow> pipeline \<Rightarrow> bool" where
  "clustered libs rs p \<longleftrightarrow> pl_last_refit p = word_of_nat (last_fit (length rs)) \<and>
     (128 \<le> length rs \<longrightarrow> pl_features p = window_of rs (last_fit (length rs))) \<and>
     tc_cfg (pl_clusterer p) = default_clustering \<and>
     (if gl_has_cuml libs
      then cm_n_fit_calls (tc_metrics (pl_clusterer p)) = word_of_nat (fit_count (length rs)) \<and>
        (128 \<le> length rs \<longrightarrow> cr_labels (tc_result (pl_clusterer p)) =
           gl_dbscan libs default_clustering (window_of rs (last_fit (length rs))))
      else pl_clusterer p = new_clusterer default_clustering)"

lemma fit_schedule:
  assumes "128 \<le> k"
  shows "k - last_fit (k - 1) < 10 \<Longrightarrow> last_fit k = last_fit (k - 1) \<and> fit_count k = fit_count (k - 1) \<and> 128 \<le> k - 1"
    and "\<not> k - last_fit (k - 1) < 10 \<Longrightarrow> last_fit k = k \<and> fit_count k = Suc (fit_count (k - 1))"
proof -
  consider "k = 128" | d where "k = Suc (128 + d)"
    using assms by (metis le_neq_implies_less less_imp_Suc_add add_Suc_right)
  then have "(k - last_fit (k - 1) < 10 \<longrightarrow> last_fit k = last_fit (k - 1) \<and> fit_count k = fit_count (k - 1) \<and> 128 \<le> k - 1) \<and>
      (\<not> k - last_fit (k - 1) < 10 \<longrightarrow> last_fit k = k \<and> fit_count k = Suc (fit_count (k - 1)))"
  proof cases
    case 1
    then show ?thesis by (simp add: last_fit_def fit_count_def)
  next
    case (2 d)
    have d: "Suc d - d div 10 * 10 = Suc (d mod 10)" by (simp add: modulo_nat_def [symmetric] Suc_diff_le)
    have next_fit: "Suc d div 10 = (if Suc (d mod 10) = 10 then Suc (d div 10) else d div 10)" by (simp add: div_Suc mod_Suc)
    have full: "Suc d div 10 * 10 = Suc d" if "Suc (d mod 10) = 10"
      using that by (simp add: mod_Suc dvd_div_mult_self mod_0_imp_dvd)
    have "d mod 10 < 10" by simp
    then show ?thesis
      using d next_fit full by (auto simp: 2 last_fit_def fit_count_def less_Suc_eq)
  qed
  then show "k - last_fit (k - 1) < 10 \<Longrightarrow> last_fit k = last_fit (k - 1) \<and> fit_count k = fit_count (k - 1) \<and> 128 \<le> k - 1"
    and "\<not> k - last_fit (k - 1) < 10 \<Longrightarrow> last_fit k = k \<and> fit_count k = Suc (fit_count (k - 1))" by blast+
qed

lemma last_fit_le: "last_fit k \<le> k" "128 \<le> k \<Longrightarrow> 128 \<le> last_fit k"
  unfolding last_fit_def by (auto split: if_splits)

lemma window_nth:
  assumes "128 \<le> k" and "length rs = k"
  shows "window_of rs k = map (\<lambda>i. feature_row (rs ! (k - 128 + i))) [0..<128]"
proof -
  have "take 128 (drop (k - 128) rs) = map (\<lambda>i. rs ! (k - 128 + i)) [0..<128]"
    using assms by (intro nth_equalityI) simp_all
  then show ?thesis by (simp add: window_of_def k_cluster_window_def)
qed

lemma fit_effect:
  assumes "length rows = k_cluster_window"
  shows "cm_n_fit_calls (tc_metrics (fit True db t rows k_cluster_window k_cluster_features c)) =
      cm_n_fit_calls (tc_metrics c) + 1"
    and "cr_labels (tc_result (fit True db t rows k_cluster_window k_cluster_features c)) = db (tc_cfg c) rows"
  using assms fit_frame(2,3) [of k_cluster_window k_cluster_features db t rows c]
  by (simp_all add: k_cluster_window_def k_cluster_features_def)

lemma word_of_nat_less: "a < 2 ^ 64 \<Longrightarrow> b < 2 ^ 64 \<Longrightarrow> (word_of_nat a :: u64) < word_of_nat b \<longleftrightarrow> a < b"
  by (simp add: word_less_nat_alt unsigned_of_nat take_bit_nat_eq_self)

text \<open>The rows gathered from the history are the window of the latest signals.\<close>

lemma gathered_window:
  assumes hist: "history_of rs p" and k: "128 \<le> length rs"
  shows "map (\<lambda>i. feature_row (pl_history p ! unat ((pl_write_idx p - word_of_nat k_cluster_window + word_of_nat i)
      mod word_of_nat k_signal_history_len))) [0..<k_cluster_window] = window_of rs (length rs)"
proof -
  have w: "pl_write_idx p = word_of_nat (length rs)" using hist by (simp add: history_of_def)
  have cell: "pl_history p ! unat ((pl_write_idx p - word_of_nat k_cluster_window + word_of_nat i)
      mod word_of_nat k_signal_history_len) = rs ! (length rs - 128 + i)" if "i < 128" for i
  proof -
    have "pl_write_idx p - word_of_nat k_cluster_window + word_of_nat i = word_of_nat (length rs - 128 + i)"
      using k by (simp add: w k_cluster_window_def of_nat_diff)
    then have "unat ((pl_write_idx p - word_of_nat k_cluster_window + word_of_nat i) mod word_of_nat k_signal_history_len)
        = (length rs - 128 + i) mod k_signal_history_len" by (simp only: ring_index)
    moreover have "length rs - 128 + i < length rs" "length rs \<le> length rs - 128 + i + k_signal_history_len"
      using k that by (simp_all add: k_signal_history_len_def)
    ultimately show ?thesis using hist unfolding history_of_def by metis
  qed
  then show ?thesis using k window_nth [of "length rs" rs] by (simp add: k_cluster_window_def cong: map_cong)
qed

lemma cluster_step:
  assumes hist: "history_of (rs @ [rec]) p" and len: "Suc (length rs) < 2 ^ 64"
    and old: "clustered libs rs p"
  shows "clustered libs (rs @ [rec]) (build_cluster_window_and_fit libs tk p)"
proof -
  let ?k = "Suc (length rs)" and ?rs = "rs @ [rec]" and ?f = "last_fit (length rs)"
  have w: "pl_write_idx p = word_of_nat ?k" using hist by (simp add: history_of_def)
  have small: "pl_write_idx p < word_of_nat k_cluster_window \<longleftrightarrow> ?k < 128"
    unfolding w k_cluster_window_def using word_of_nat_less [OF len, of 128] by simp
  have "pl_write_idx p - pl_last_refit p = word_of_nat (?k - ?f)"
    using last_fit_le(1) [of "length rs"] old by (simp add: w clustered_def of_nat_diff)
  moreover have "?k - ?f < 2 ^ 64" using len by linarith
  ultimately have throttle: "pl_write_idx p - pl_last_refit p < k_cluster_refit_every \<longleftrightarrow> ?k - ?f < 10"
    unfolding k_cluster_refit_every_def using word_of_nat_less [of "?k - ?f" 10] by simp
  consider "?k < 128" | "128 \<le> ?k" "?k - ?f < 10" | "128 \<le> ?k" "\<not> ?k - ?f < 10" by linarith
  then show ?thesis
  proof cases
    case 1
    then have "build_cluster_window_and_fit libs tk p = p"
      using small by (simp add: build_cluster_window_and_fit_def Let_def)
    with 1 old show ?thesis by (simp add: clustered_def last_fit_def fit_count_def)
  next
    case 2
    then have "build_cluster_window_and_fit libs tk p = p"
      using small throttle by (simp add: build_cluster_window_and_fit_def Let_def)
    moreover have F: "last_fit ?k = ?f" "fit_count ?k = fit_count (length rs)" "128 \<le> length rs"
      using fit_schedule(1) [OF 2(1)] 2 by simp_all
    moreover have "window_of ?rs ?f = window_of rs ?f"
      using last_fit_le [of "length rs"] F(3) by (simp add: window_of_def k_cluster_window_def)
    ultimately show ?thesis using old by (simp add: clustered_def)
  next
    case 3
    have F: "last_fit ?k = ?k" "fit_count ?k = Suc (fit_count (length rs))"
      using fit_schedule(2) [OF 3(1)] 3 by simp_all
    let ?rows = "map (\<lambda>i. feature_row (pl_history p ! unat ((pl_write_idx p - word_of_nat k_cluster_window + word_of_nat i)
                 mod word_of_nat k_signal_history_len))) [0..<k_cluster_window]"
    have "?rows = window_of ?rs ?k" using gathered_window [OF hist] 3(1) by simp
    moreover have "build_cluster_window_and_fit libs tk p = p\<lparr>pl_features := ?rows,
        pl_clusterer := fit (gl_has_cuml libs) (gl_dbscan libs) (tk_fit_ns tk) ?rows k_cluster_window
          k_cluster_features (pl_clusterer p), pl_last_refit := pl_write_idx p\<rparr>"
      using small throttle 3 by (simp add: build_cluster_window_and_fit_def Let_def)
    moreover have "length ?rows = k_cluster_window" by simp
    ultimately show ?thesis using old F w by (simp add: clustered_def fit_effect fit_frame(1) fit_nothing)
  qed
qed

section \<open>Runs\<close>

text \<open>What a reader sees who asks for the last signal after every tick.\<close>

primrec signals_seen :: "gpu_libs \<Rightarrow> tick list \<Rightarrow> pipeline \<Rightarrow> SignalRecord list" where
  "signals_seen libs [] p = []"
| "signals_seen libs (tk # tks) p =
     (let p' = run_once libs tk p in last_signal p' # signals_seen libs tks p')"

lemma length_signals_seen [simp]: "length (signals_seen libs tks p) = length tks"
  by (induction tks arbitrary: p) (simp_all add: Let_def)

definition market_ready :: "nat \<Rightarrow> pipeline \<Rightarrow> bool" where
  "market_ready n p \<longleftrightarrow> pl_n_instruments p = n \<and> 4 \<le> n \<and> graph_fits n"

lemma run_once_records:
  assumes "market_ready n p" and "history_of rs p" and p': "p' = run_once libs tk p"
  obtains p2 where "p' = (build_cluster_window_and_fit libs tk p2)\<lparr>pl_latency := pl_latency p'\<rparr>"
    "history_of (rs @ [last_signal p']) p2" "market_ready n p'" "history_of (rs @ [last_signal p']) p'"
    "sr_timestamp_ns (last_signal p') = tk_now tk" "sr_n_edges (last_signal p') = n * (n - 1) div 2"
    "pl_zero_edge_ticks p' = pl_zero_edge_ticks p" "pl_streak_max p' = pl_streak_max p"
    "pl_last_refit p2 = pl_last_refit p" "pl_features p2 = pl_features p" "pl_clusterer p2 = pl_clusterer p"
    "pl_hodge p2 = pl_hodge (analysed libs tk p)"
    "\<forall>e < n * (n - 1) div 2. pl_edge_out p' e = hw_edge (pl_hodge (analysed libs tk p)) e \<and>
       pl_harmonic_out p' e = hw_coexact (pl_hodge (analysed libs tk p)) e"
    "sr_yang_mills_action (last_signal p') = hw_yang_mills_action (pl_hodge (analysed libs tk p))"
proof -
  let ?p1 = "analysed libs tk p" and ?ne = "n * (n - 1) div 2"
  let ?sig = "extract_arbitrage_signal (tk_now tk) (pl_hodge ?p1)"
  have ready: "pl_n_instruments p = n" "4 \<le> n" "graph_fits n" using assms(1) by (simp_all add: market_ready_def)
  note ne = analysed_edges(1) [OF ready, of libs tk] analysed_edges(2) [OF ready]
  have sig: "as_n_edges ?sig = ?ne" "as_signal_ts_ns ?sig = tk_now tk" "as_harmonic_flow ?sig = hw_coexact (pl_hodge ?p1)"
    "as_yang_mills_action ?sig = hw_yang_mills_action (pl_hodge ?p1)"
    using ne by (simp_all add: extract_arbitrage_signal_def)
  define p2 where "p2 = record_signal tk ?sig (?p1\<lparr>pl_streak_current := 0\<rparr>)"
  have pos: "0 < as_n_edges ?sig" using ne sig by simp
  obtain rec where r: "pl_history p2 = (pl_history p)[unat (pl_write_idx p mod word_of_nat k_signal_history_len) := rec]"
    "pl_write_idx p2 = pl_write_idx p + 1" "sr_timestamp_ns rec = tk_now tk" "sr_n_edges rec = ?ne"
    "sr_yang_mills_action rec = hw_yang_mills_action (pl_hodge ?p1)"
    "\<forall>e < ?ne. pl_harmonic_out p2 e = hw_coexact (pl_hodge ?p1) e \<and> pl_edge_out p2 e = hw_edge (pl_hodge ?p1) e"
    "pl_n_instruments p2 = pl_n_instruments p" "pl_clusterer p2 = pl_clusterer p" "pl_features p2 = pl_features p"
    "pl_last_refit p2 = pl_last_refit p" "pl_streak_max p2 = pl_streak_max p" "pl_zero_edge_ticks p2 = pl_zero_edge_ticks p"
    "pl_hodge p2 = pl_hodge ?p1"
    by (rule record_signal_effect [OF pos p2_def], rule that) (simp_all add: sig analysed_frame)
  have split: "p' = (build_cluster_window_and_fit libs tk p2)\<lparr>pl_latency := pl_latency p'\<rparr>"
    using ne by (simp add: p' run_once_split Let_def p2_def)
  have h2: "history_of (rs @ [rec]) p2" by (rule history_append [OF assms(2) r(2,1)])
  moreover have "pl_history p' = pl_history p2" "pl_write_idx p' = pl_write_idx p2"
    by (subst split, simp add: cluster_frame)+
  ultimately have h': "history_of (rs @ [rec]) p'" by (simp add: history_of_def)
  have frame: "pl_n_instruments p' = pl_n_instruments p2" "pl_zero_edge_ticks p' = pl_zero_edge_ticks p2"
    "pl_streak_max p' = pl_streak_max p2" "pl_harmonic_out p' = pl_harmonic_out p2" "pl_edge_out p' = pl_edge_out p2"
    by (subst split, simp add: cluster_frame)+
  have last: "last_signal p' = rec" using history_last [OF h'] by simp
  show thesis
    by (rule that [of p2]) (use split h2 h' last frame r assms(1) in \<open>simp_all add: market_ready_def\<close>)
qed

lemma run_history:
  "market_ready n p \<Longrightarrow> history_of rs p \<Longrightarrow> p' = run_continuous libs tks p \<Longrightarrow>
     market_ready n p' \<and> history_of (rs @ signals_seen libs tks p) p' \<and>
     map sr_timestamp_ns (signals_seen libs tks p) = map tk_now tks \<and>
     (\<forall>r \<in> set (signals_seen libs tks p). sr_n_edges r = n * (n - 1) div 2) \<and>
     pl_zero_edge_ticks p' = pl_zero_edge_ticks p \<and> pl_streak_max p' = pl_streak_max p"
proof (induction tks arbitrary: p rs)
  case (Cons tk tks)
  obtain p2 where "market_ready n (run_once libs tk p)"
    "history_of (rs @ [last_signal (run_once libs tk p)]) (run_once libs tk p)"
    "sr_timestamp_ns (last_signal (run_once libs tk p)) = tk_now tk"
    "sr_n_edges (last_signal (run_once libs tk p)) = n * (n - 1) div 2"
    "pl_zero_edge_ticks (run_once libs tk p) = pl_zero_edge_ticks p" "pl_streak_max (run_once libs tk p) = pl_streak_max p"
    by (rule run_once_records [OF Cons.prems(1,2) refl])
  with Cons.IH [of "run_once libs tk p" "rs @ [last_signal (run_once libs tk p)]"] Cons.prems(3) show ?case
    by (simp add: run_continuous_def Let_def)
qed (simp add: run_continuous_def)

lemma run_clustered:
  "market_ready n p \<Longrightarrow> history_of rs p \<Longrightarrow> clustered libs rs p \<Longrightarrow> length rs + length tks < 2 ^ 64 \<Longrightarrow>
     clustered libs (rs @ signals_seen libs tks p) (run_continuous libs tks p)"
proof (induction tks arbitrary: p rs)
  case (Cons tk tks)
  let ?p' = "run_once libs tk p"
  obtain p2 where r: "?p' = (build_cluster_window_and_fit libs tk p2)\<lparr>pl_latency := pl_latency ?p'\<rparr>"
    "history_of (rs @ [last_signal ?p']) p2" "market_ready n ?p'" "history_of (rs @ [last_signal ?p']) ?p'"
    "pl_last_refit p2 = pl_last_refit p" "pl_features p2 = pl_features p" "pl_clusterer p2 = pl_clusterer p"
    by (rule run_once_records [OF Cons.prems(1,2) refl])
  have "clustered libs (rs @ [last_signal ?p']) (build_cluster_window_and_fit libs tk p2)"
    using Cons.prems(3,4) r by (intro cluster_step) (simp_all add: clustered_def)
  then have "clustered libs (rs @ [last_signal ?p']) ?p'"
    by (subst r(1)) (simp add: clustered_def)
  with Cons.IH [of ?p' "rs @ [last_signal ?p']"] r Cons.prems(4) show ?case
    by (simp add: run_continuous_def Let_def)
qed (simp add: run_continuous_def)

lemma fresh_pipeline:
  "history_of [] (CudaPipeline n depth mirror lap lob ws edge_buf lat)"
  "clustered libs [] (CudaPipeline n depth mirror lap lob ws edge_buf lat)"
  "4 \<le> n \<Longrightarrow> graph_fits n \<Longrightarrow> market_ready n (CudaPipeline n depth mirror lap lob ws edge_buf lat)"
  by (simp_all add: history_of_def clustered_def market_ready_def CudaPipeline_def last_fit_def fit_count_def
      new_clusterer_def)

text \<open>
  (C21) Every tick publishes a signal: with at least four instruments, whatever the book, the
  schedules and the library results, each call of \<open>run_once\<close> leaves a new last signal with the time
  of that call and all edges of the graph, the ring keeps the latest 1024 of them in their slots,
  and the counters of ticks without edges stay at zero.
\<close>

theorem signal_every_tick:
  assumes "4 \<le> n" and "graph_fits n"
    and "p0 = CudaPipeline n depth mirror lap lob ws edge_buf lat" and "p = run_continuous libs tks p0"
    and "rs = signals_seen libs tks p0"
  shows "map sr_timestamp_ns rs = map tk_now tks \<and> (\<forall>r \<in> set rs. sr_n_edges r = n * (n - 1) div 2) \<and>
     (\<forall>j < length tks. length tks \<le> j + 1024 \<longrightarrow> pl_history p ! (j mod 1024) = rs ! j) \<and>
     pl_zero_edge_ticks p = 0 \<and> pl_streak_max p = 0"
proof -
  have "market_ready n p0" "history_of [] p0" using fresh_pipeline assms by simp_all
  from run_history [OF this assms(4)] show ?thesis
    by (auto simp: assms(3,5) history_of_def k_signal_history_len_def CudaPipeline_def)
qed

text \<open>
  (C23) The clustering sees the right windows at the right times: after \<open>k\<close> signals the feature matrix was
  gathered for signal 128 and for every tenth signal after it, and consists of the features of the 128
  signals up to the last of these, oldest first. In a build with the clustering library it has been
  fitted each time, and its labels are those of the library for that matrix; in a build without it
  the matrix is gathered all the same, but the clusterer stays as it was constructed.
\<close>

theorem cluster_windows:
  assumes "4 \<le> n" and "graph_fits n" and "length tks < 2 ^ 64"
    and "p0 = CudaPipeline n depth mirror lap lob ws edge_buf lat" and "p = run_continuous libs tks p0"
    and "rs = signals_seen libs tks p0" and "k = length tks" and "f = 128 + (k - 128) div 10 * 10"
  shows "(128 \<le> k \<longrightarrow> pl_features p = map feature_row (take 128 (drop (f - 128) rs))) \<and>
     (if gl_has_cuml libs
      then cm_n_fit_calls (tc_metrics (pl_clusterer p)) = word_of_nat (if k < 128 then 0 else Suc ((k - 128) div 10)) \<and>
        (128 \<le> k \<longrightarrow> cr_labels (tc_result (pl_clusterer p)) = gl_dbscan libs default_clustering (pl_features p))
      else pl_clusterer p = new_clusterer default_clustering)"
proof -
  have "clustered libs rs p"
    using run_clustered [of n p0 "[]" libs tks] fresh_pipeline assms by simp
  then show ?thesis
    using assms by (auto simp: clustered_def last_fit_def fit_count_def window_of_def k_cluster_window_def)
qed

section \<open>The published topology\<close>

lemma analysed_bij:
  assumes "market_ready n p"
  shows "bij_betw (hw_edge (pl_hodge (analysed libs tk p))) {..<pair_count n} (node_pairs n)"
proof -
  let ?q = "transfer_lob_to_gpu tk p"
  have n: "pl_n_instruments ?q = n" "4 \<le> n" "graph_fits n"
    using assms transfer_shape [of tk p] by (auto simp: market_ready_def)
  let ?lap = "build_normalized_laplacian (tk_normalize_order tk) (db_bid_prices (fst (mirror_snapshot (pl_mirror ?q))))
      (db_ask_prices (fst (mirror_snapshot (pl_mirror ?q)))) n (pl_depth ?q) (pl_laplacian ?q)"
  obtain l b h where r: "run_spectral_pruning tk ?q = ?q\<lparr>pl_laplacian := l, pl_lobpcg := b, pl_hodge := h\<rparr>"
    using pruning_shape by blast
  have "l = pl_laplacian (run_spectral_pruning tk ?q)" by (simp add: r)
  also have "\<dots> = ?lap" using n by (simp add: run_spectral_pruning_def Let_def split: prod.split)
  finally have l: "l = ?lap" .
  have "hw_edge (pl_hodge (analysed libs tk p)) =
      hw_edge (build_incidence_matrices (tk_edge_sched tk) (tk_triangle_sched tk) l h)"
    using n by (simp add: analysed_def r run_hodge_decomposition_def Let_def l laplacian_rows)
  then show ?thesis using incidence_fields(1) [OF n(3) l [THEN arg_cong, of "\<lambda>l. build_incidence_matrices
      (tk_edge_sched tk) (tk_triangle_sched tk) l h"]] by simp
qed

text \<open>
  (C22) What the router reads is the whole graph: after every tick the published edges are the pairs of
  instruments, each once and with the lower one as source, and the published flow and action are
  those of the decomposition of that tick.
\<close>

theorem published_topology:
  assumes "4 \<le> n" and "graph_fits n"
    and "p = run_continuous libs (tks @ [tk]) (CudaPipeline n depth mirror lap lob ws edge_buf lat)"
    and "topo = last_topology p" and "m = n * (n - 1) div 2"
  shows "ts_n_edges topo = m \<and> bij_betw (ts_edge topo) {..<m} {(i, j). i < j \<and> j < n} \<and>
     (\<forall>e<m. ts_harmonic_flow topo e = hw_coexact (pl_hodge p) e) \<and>
     sr_yang_mills_action (last_signal p) = hw_yang_mills_action (pl_hodge p)"
proof -
  let ?p0 = "CudaPipeline n depth mirror lap lob ws edge_buf lat"
  let ?q = "run_continuous libs tks ?p0" and ?p1 = "analysed libs tk (run_continuous libs tks ?p0)"
  have p: "p = run_once libs tk ?q" using assms(3) by (simp add: run_continuous_def)
  have ready: "market_ready n ?q" and hist: "history_of (signals_seen libs tks ?p0) ?q"
    using run_history [OF fresh_pipeline(3) [OF assms(1,2)] fresh_pipeline(1) refl] by simp_all
  have m: "m = pair_count n" using assms(5) by (simp add: pair_count_def)
  obtain p2 where r: "p = (build_cluster_window_and_fit libs tk p2)\<lparr>pl_latency := pl_latency p\<rparr>"
    "sr_n_edges (last_signal p) = m" "pl_hodge p2 = pl_hodge ?p1"
    "\<forall>e < m. pl_edge_out p e = hw_edge (pl_hodge ?p1) e \<and> pl_harmonic_out p e = hw_coexact (pl_hodge ?p1) e"
    "sr_yang_mills_action (last_signal p) = hw_yang_mills_action (pl_hodge ?p1)"
    unfolding assms(5) by (rule run_once_records [OF ready hist p])
  have h: "pl_hodge p = pl_hodge ?p1"
    by (subst r(1)) (simp add: cluster_frame r(3))
  have "bij_betw (pl_edge_out p) {..<m} (node_pairs n)"
    using analysed_bij [OF ready, of libs tk] r(4) m
      bij_betw_cong [of "{..<m}" "pl_edge_out p" "hw_edge (pl_hodge ?p1)"] by simp
  then show ?thesis using r(2,4,5) h by (simp add: assms(4) last_topology_def node_pairs_def)
qed

text \<open>
  Below four instruments nothing is ever published: every tick counts as one without edges, the
  longest streak is the number of ticks, and the last signal stays the empty one.
\<close>

theorem few_instruments_no_signal:
  assumes "n < 4" and "length tks < 2 ^ 64"
    and "p = run_continuous libs tks (CudaPipeline n depth mirror lap lob ws edge_buf lat)"
  shows "pl_zero_edge_ticks p = word_of_nat (length tks) \<and> pl_streak_max p = word_of_nat (length tks) \<and>
     last_signal p = empty_signal"
proof -
  let ?ok = "\<lambda>k p. pl_n_instruments p = n \<and> hw_n_edges (pl_hodge p) = 0 \<and> pl_zero_edge_ticks p = word_of_nat k \<and>
    pl_streak_current p = word_of_nat k \<and> pl_streak_max p = word_of_nat k \<and>
    sl_n_rows (pl_laplacian p) < 4 \<and> pl_write_idx p = 0 \<and> pl_history p = replicate k_signal_history_len empty_signal"
  have step: "?ok (Suc k) (run_once libs tk q)" if q: "?ok k q" and k: "Suc k < 2 ^ 64" for k q tk
  proof -
    let ?t = "transfer_lob_to_gpu tk q"
    have t: "pl_n_instruments ?t = n" "pl_hodge ?t = pl_hodge q" "pl_laplacian ?t = pl_laplacian q"
      using transfer_shape [of tk q] q by auto
    have s: "pl_hodge (run_spectral_pruning tk ?t) = pl_hodge q" "sl_n_rows (pl_laplacian (run_spectral_pruning tk ?t)) < 4"
      using t q assms(1) by (simp_all add: run_spectral_pruning_def Let_def laplacian_rows)
    have a: "pl_hodge (analysed libs tk q) = pl_hodge q" "sl_n_rows (pl_laplacian (analysed libs tk q)) < 4"
      using s by (simp_all add: analysed_def run_hodge_decomposition_def)
    have "(word_of_nat k :: u64) < word_of_nat (Suc k)" using word_of_nat_less [of k "Suc k"] k by simp
    then show ?thesis
      using q a by (simp add: run_once_split Let_def zero_edge_tick_def analysed_frame add.commute)
  qed
  have run: "?ok (k + length tks) (run_continuous libs tks q)" if "?ok k q" "k + length tks < 2 ^ 64" for k q
    using that
  proof (induction tks arbitrary: k q)
    case (Cons tk tks)
    have "?ok (Suc k) (run_once libs tk q)" using step [OF Cons.prems(1)] Cons.prems(2) by simp
    from Cons.IH [OF this] Cons.prems(2) show ?case by (simp add: run_continuous_def)
  qed (simp add: run_continuous_def)
  have "?ok 0 (CudaPipeline n depth mirror lap lob ws edge_buf lat)"
    by (simp add: CudaPipeline_def hodge_workspace_init_def)
  from run [OF this] have "?ok (length tks) p" using assms(2,3) by simp
  then show ?thesis by (simp add: last_signal_def k_signal_history_len_def unat_mod)
qed

section \<open>Four instruments\<close>

definition demo_tick :: "u64 \<Rightarrow> tick" where
  "demo_tick now = \<lparr>tk_generation = now, tk_book = \<lambda>_. (0, \<lparr>db_bid_prices = \<lambda>_. 99, db_ask_prices = \<lambda>_. 101,
       db_bid_qtys = \<lambda>_. 2, db_ask_qtys = \<lambda>_. 1\<rparr>, 0),
     tk_normalize_order = [0..<4], tk_edge_sched = [3, 1], tk_triangle_sched = [5, 0, 2],
     tk_floer_orders = ([0..<6], [0..<36], [0..<36]),
     tk_instantons = \<lambda>_. \<lparr>ip_src_critical = 0, ip_dst_critical = 0, ip_path_action = 0, ip_self_dual_residual = 0, ip_valid = False\<rparr>,
     tk_transfer_ns = 5, tk_decomp_ns = 6, tk_now = now, tk_fit_ns = 8, tk_run_ns = 9\<rparr>"

definition demo_libs :: gpu_libs where
  "demo_libs = \<lparr>gl_syevd = \<lambda>_ _. (\<lambda>_. 4, \<lambda>_ _. 1), gl_dbscan = \<lambda>_ xs. map (\<lambda>_. 0) xs, gl_has_cuml = True\<rparr>"

definition demo_pipeline :: "nat \<Rightarrow> pipeline" where
  "demo_pipeline n = CudaPipeline n 1
     (GpuLobMirror \<lparr>db_bid_prices = \<lambda>_. 0, db_ask_prices = \<lambda>_. 0, db_bid_qtys = \<lambda>_. 0, db_ask_qtys = \<lambda>_. 0\<rparr>
        \<lparr>db_bid_prices = \<lambda>_. 0, db_ask_prices = \<lambda>_. 0, db_bid_qtys = \<lambda>_. 0, db_ask_qtys = \<lambda>_. 0\<rparr>)
     \<lparr>sl_row_ptr = \<lambda>_. 0, sl_col_idx = \<lambda>_. 0, sl_values = \<lambda>_. 0, sl_n_rows = 0, sl_nnz = 0\<rparr>
     \<lparr>lw_X = \<lambda>_. 0, lw_n = 0, lw_k = 0\<rparr>
     \<lparr>hw_B1 = \<lambda>_ _. 0, hw_B2 = \<lambda>_ _. 0, hw_L1 = \<lambda>_ _. 0, hw_omega = \<lambda>_. 0, hw_gamma = \<lambda>_. 0, hw_exact = \<lambda>_. 0,
        hw_coexact = \<lambda>_. 0, hw_curl_magnitude = \<lambda>_. 0, hw_arb_signal = \<lambda>_. 0, hw_prune_mask = \<lambda>_. 0,
        hw_edge = \<lambda>_. (0, 0), hw_triangle_edges = \<lambda>_. (0, 0, 0), hw_n_nodes = 0, hw_n_edges = 0, hw_n_triangles = 0,
        hw_n_harmonic_dims = 0, hw_yang_mills_action = 0\<rparr>
     (\<lambda>_. (0, 0)) LatencyHistogram"

lemma four_fit: "graph_fits 4"
  by (simp add: graph_fits_def pair_count_def k_max_edges_def k_max_triangles_def)

theorem signal_every_tick_witness:
  "map sr_timestamp_ns (signals_seen demo_libs [demo_tick 7, demo_tick 9] (demo_pipeline 4)) = [7, 9] \<and>
   pl_history (run_continuous demo_libs [demo_tick 7, demo_tick 9] (demo_pipeline 4)) ! 1 =
     signals_seen demo_libs [demo_tick 7, demo_tick 9] (demo_pipeline 4) ! 1"
proof -
  from signal_every_tick [OF order_refl four_fit demo_pipeline_def refl refl, of demo_libs "[demo_tick 7, demo_tick 9]"]
  have "map sr_timestamp_ns (signals_seen demo_libs [demo_tick 7, demo_tick 9] (demo_pipeline 4)) =
      map tk_now [demo_tick 7, demo_tick 9] \<and>
    (\<forall>j < 2. 2 \<le> j + 1024 \<longrightarrow> pl_history (run_continuous demo_libs [demo_tick 7, demo_tick 9] (demo_pipeline 4)) ! (j mod 1024) =
      signals_seen demo_libs [demo_tick 7, demo_tick 9] (demo_pipeline 4) ! j)"
    by (simp only: length_Cons list.size(3)) (simp add: numeral_2_eq_2)
  then show ?thesis by (auto simp: demo_tick_def dest: spec [of _ 1])
qed

theorem cluster_windows_witness:
  "let tks = replicate 130 (demo_tick 7); p = run_continuous demo_libs tks (demo_pipeline 4)
   in cm_n_fit_calls (tc_metrics (pl_clusterer p)) = 1 \<and>
     pl_features p = map feature_row (take 128 (signals_seen demo_libs tks (demo_pipeline 4))) \<and>
     cr_labels (tc_result (pl_clusterer p)) = gl_dbscan demo_libs default_clustering (pl_features p)"
  using cluster_windows [OF order_refl four_fit _ demo_pipeline_def refl refl refl refl, of "replicate 130 (demo_tick 7)" demo_libs]
  by (simp add: demo_libs_def Let_def)

theorem published_topology_witness:
  "bij_betw (ts_edge (last_topology (run_continuous demo_libs [demo_tick 7] (demo_pipeline 4)))) {..<6} {(i, j). i < j \<and> j < 4}"
  using published_topology [OF order_refl four_fit
      arg_cong [where f = "run_continuous demo_libs ([] @ [demo_tick 7])", OF demo_pipeline_def] refl refl]
  by (simp add: last_topology_def)

theorem few_instruments_no_signal_witness:
  "pl_zero_edge_ticks (run_continuous demo_libs [demo_tick 7, demo_tick 9] (demo_pipeline 3)) = 2"
  using few_instruments_no_signal [of 3 "[demo_tick 7, demo_tick 9]", OF _ _ refl] by (simp add: demo_pipeline_def)

end
