(* ===== verification/Backtest_Pnl.thy ===== *)
theory Backtest_Pnl
  imports Signal_Router Cuda_Pipeline Csv_Replay
begin

text \<open>
  The profit model of the backtest and its command line (\<open>engine/app/main_backtest.cpp\<close>): the moving
  average of a pair, the tracker that turns routed edges into net returns, and \<open>parse_args\<close>.

  The smoothing factor, read from the environment, is an argument. \<open>copysign\<close> sees no negative zero.
\<close>

section \<open>Command line\<close>

record CliArgs =
  cli_csv_path :: string
  cli_mode :: ReplayMode
  cli_throttle_rate :: u32
  cli_gpu_device :: int
  cli_arena_mb :: u64
  cli_out_dir :: string

definition default_args :: "string \<Rightarrow> CliArgs" where
  "default_args path = \<lparr>cli_csv_path = path, cli_mode = Fastest, cli_throttle_rate = 100000, cli_gpu_device = 0,
     cli_arena_mb = 512, cli_out_dir = ''../data''\<rparr>"

text \<open>
  \<open>strtoul\<close> and \<open>atoi\<close> in base ten: white space, a sign and the longest run of digits. \<open>strtoul\<close>
  saturates at the largest value and negates modulo \<open>2 ^ 64\<close>.
\<close>

definition number_text :: "string \<Rightarrow> bool \<times> nat" where
  "number_text s =
     (let t = dropWhile (\<lambda>c. c \<in> set [CHR '' '', CHR 0x09, CHR 0x0A, CHR 0x0B, CHR 0x0C, CHR 0x0D]) s;
          neg = (t \<noteq> [] \<and> hd t = CHR ''-'');
          u = (if t \<noteq> [] \<and> (hd t = CHR ''-'' \<or> hd t = CHR ''+'') then tl t else t)
      in (neg, decimal_val (takeWhile is_digit u)))"

definition strtoul :: "string \<Rightarrow> u64" where
  "strtoul s = (case number_text s of (neg, n) \<Rightarrow>
     if n \<ge> 2 ^ 64 then - 1 else if neg then - word_of_nat n else word_of_nat n)"

definition atoi :: "string \<Rightarrow> int" where
  "atoi s = (case number_text s of (neg, n) \<Rightarrow> if neg then - int n else int n)"

datatype cli_result = Run CliArgs | Exit int

fun parse_rest :: "string list \<Rightarrow> CliArgs \<Rightarrow> cli_result" where
  "parse_rest [] a = Run a"
| "parse_rest (arg # rest) a =
     (let has_value = (rest \<noteq> []); v = hd rest in
      if arg = ''--mode'' \<and> has_value then
        (if v = ''fastest'' then parse_rest (tl rest) (a\<lparr>cli_mode := Fastest\<rparr>)
         else if v = ''realtime'' then parse_rest (tl rest) (a\<lparr>cli_mode := Realtime\<rparr>)
         else if v = ''throttled'' then parse_rest (tl rest) (a\<lparr>cli_mode := Throttled\<rparr>)
         else Exit 1)
      else if arg = ''--throttle-rate'' \<and> has_value
        then parse_rest (tl rest) (a\<lparr>cli_throttle_rate := ucast (strtoul v)\<rparr>)
      else if arg = ''--gpu-device'' \<and> has_value then parse_rest (tl rest) (a\<lparr>cli_gpu_device := atoi v\<rparr>)
      else if arg = ''--arena-mb'' \<and> has_value then parse_rest (tl rest) (a\<lparr>cli_arena_mb := strtoul v\<rparr>)
      else if arg = ''--out-dir'' \<and> has_value then parse_rest (tl rest) (a\<lparr>cli_out_dir := v\<rparr>)
      else if arg = ''--help'' \<or> arg = ''-h'' then Exit 0
      else Exit 1)"

definition parse_args :: "string list \<Rightarrow> cli_result" where
  "parse_args argv = parse_rest (drop 2 argv) (default_args (argv ! 1))"

text \<open>\<open>main\<close> before it parses: without a file it prints the usage and ends.\<close>

definition main_args :: "string list \<Rightarrow> cli_result" where
  "main_args argv = (if length argv < 2 then Exit 1 else parse_args argv)"

text \<open>The arguments that spell out a configuration.\<close>

definition mode_name :: "ReplayMode \<Rightarrow> string" where
  "mode_name m = (case m of Fastest \<Rightarrow> ''fastest'' | Realtime \<Rightarrow> ''realtime'' | Throttled \<Rightarrow> ''throttled'')"

definition int_text :: "int \<Rightarrow> string" where
  "int_text i = (if i < 0 then CHR ''-'' # to_string (nat (- i)) else to_string (nat i))"

definition args_text :: "CliArgs \<Rightarrow> string list" where
  "args_text a =
     [cli_csv_path a, ''--mode'', mode_name (cli_mode a), ''--throttle-rate'', to_string (unat (cli_throttle_rate a)),
      ''--gpu-device'', int_text (cli_gpu_device a), ''--arena-mb'', to_string (unat (cli_arena_mb a)),
      ''--out-dir'', cli_out_dir a]"

lemma digits_value: "decimal_val (takeWhile is_digit (to_string n)) = n"
proof -
  have "takeWhile is_digit (to_string n) = to_string n"
    using to_string_digits by (rule takeWhile_eq_all_conv [THEN iffD2])
  then show ?thesis by (simp only: decimal_val_to_string)
qed

lemma number_to_string: "number_text (to_string n) = (False, n)"
proof -
  obtain c cs where t: "to_string n = c # cs" using to_string_nonempty by (meson list.exhaust)
  have digits: "\<forall>x \<in> set (to_string n). is_digit x" by (rule to_string_digits)
  have not_space: "\<not> is_digit x" if "x \<in> set [CHR '' '', CHR 0x09, CHR 0x0A, CHR 0x0B, CHR 0x0C, CHR 0x0D, CHR ''-'', CHR ''+'']" for x
    using that by (auto simp: is_digit_def)
  have c: "c \<notin> set [CHR '' '', CHR 0x09, CHR 0x0A, CHR 0x0B, CHR 0x0C, CHR 0x0D, CHR ''-'', CHR ''+'']"
    using digits not_space t by (metis list.set_intros(1))
  show ?thesis using c digits_value [of n] by (simp add: number_text_def Let_def t)
qed

lemma number_negative: "number_text (CHR ''-'' # to_string n) = (True, n)"
  using digits_value [of n] by (simp add: number_text_def Let_def)

lemma strtoul_to_string: "n < 2 ^ 64 \<Longrightarrow> strtoul (to_string n) = word_of_nat n"
  by (simp add: strtoul_def number_to_string)

lemma atoi_int_text: "atoi (int_text i) = i"
  by (simp add: atoi_def int_text_def number_to_string number_negative)

text \<open>
  The command line is read back as it was written: the arguments that spell out any
  configuration, in the documented options, parse to exactly that configuration.
\<close>

theorem args_roundtrip: "main_args (prog # args_text a) = Run a"
proof -
  have "unat (cli_throttle_rate a) < 2 ^ 64"
    using unsigned_less [of "cli_throttle_rate a", where ?'a = nat] by simp
  moreover have "ucast (ucast (cli_throttle_rate a) :: u64) = cli_throttle_rate a"
    by (rule bit_word_eqI) (simp add: bit_simps)
  ultimately have "ucast (strtoul (to_string (unat (cli_throttle_rate a)))) = cli_throttle_rate a"
    by (simp add: strtoul_to_string)
  moreover have "strtoul (to_string (unat (cli_arena_mb a))) = cli_arena_mb a"
    using unat_lt_64 [of "cli_arena_mb a"] by (simp add: strtoul_to_string)
  ultimately show ?thesis
    by (cases "cli_mode a")
      (simp_all add: main_args_def parse_args_def args_text_def default_args_def mode_name_def atoi_int_text)
qed

section \<open>Moving average of a pair\<close>

record EwmaPair =
  ew_mu :: dbl
  ew_m2 :: dbl
  ew_warm :: bool

definition new_ewma :: EwmaPair where
  "new_ewma = \<lparr>ew_mu = 0, ew_m2 = 1 / 10 ^ 8, ew_warm = False\<rparr>"

definition k_min_sigma :: dbl where "k_min_sigma = 1 / 10 ^ 5"
definition k_max_gross_bps :: flt where "k_max_gross_bps = 5"

definition ewma_update :: "dbl \<Rightarrow> dbl \<Rightarrow> EwmaPair \<Rightarrow> dbl \<times> EwmaPair" where
  "ewma_update alpha log_ratio e =
     (if \<not> ew_warm e then (0, \<lparr>ew_mu = log_ratio, ew_m2 = 1 / 10 ^ 8, ew_warm = True\<rparr>)
      else
        let diff = log_ratio - ew_mu e;
            mu = ew_mu e + alpha * diff;
            m2 = (1 - alpha) * ew_m2 e + alpha * diff * diff;
            sigma = sqrt (max m2 (k_min_sigma * k_min_sigma))
        in ((log_ratio - mu) / sigma, e\<lparr>ew_mu := mu, ew_m2 := m2\<rparr>))"

definition sigma_bps :: "EwmaPair \<Rightarrow> flt" where
  "sigma_bps e = sqrt (max (ew_m2 e) (k_min_sigma * k_min_sigma)) * 10 ^ 4"

section \<open>The tracker\<close>

record TickRecord =
  tr_timestamp_ns :: u64
  tr_pnl :: dbl
  tr_cumulative_pnl :: dbl
  tr_yang_mills_action :: flt
  tr_max_curl :: flt
  tr_floer_asd_residual :: flt
  tr_betti_1 :: int
  tr_spread_bps :: flt

record PnlTracker =
  pt_equity_curve :: "dbl list"
  pt_ticks :: "TickRecord list"
  pt_current_pnl :: dbl
  pt_sum_ret :: dbl
  pt_sum_ret2 :: dbl
  pt_n :: u64
  pt_wins :: u64
  pt_filtered :: u64
  pt_prev_signal_ts_ns :: u64
  pt_baselines :: "EwmaPair list"

definition n_feed_instruments :: nat where "n_feed_instruments = 4"

definition new_tracker :: PnlTracker where
  "new_tracker = \<lparr>pt_equity_curve = [0], pt_ticks = [], pt_current_pnl = 0, pt_sum_ret = 0, pt_sum_ret2 = 0,
     pt_n = 0, pt_wins = 0, pt_filtered = 0, pt_prev_signal_ts_ns = 0,
     pt_baselines = replicate (n_feed_instruments * n_feed_instruments) new_ewma\<rparr>"

definition copysign1 :: "flt \<Rightarrow> flt" where
  "copysign1 x = (if x < 0 then -1 else 1)"

definition book_return :: "flt \<Rightarrow> flt \<Rightarrow> SignalRecord \<Rightarrow> PnlTracker \<Rightarrow> PnlTracker" where
  "book_return net_ret spread_bps sig t =
     (let current = pt_current_pnl t + net_ret
      in t\<lparr>pt_sum_ret := pt_sum_ret t + net_ret, pt_sum_ret2 := pt_sum_ret2 t + net_ret * net_ret,
           pt_n := pt_n t + 1, pt_wins := (if net_ret > 0 then pt_wins t + 1 else pt_wins t),
           pt_current_pnl := current, pt_equity_curve := pt_equity_curve t @ [current],
           pt_ticks := pt_ticks t @ [\<lparr>tr_timestamp_ns = sr_timestamp_ns sig, tr_pnl = net_ret, tr_cumulative_pnl = current,
             tr_yang_mills_action = sr_yang_mills_action sig, tr_max_curl = sr_max_curl sig,
             tr_floer_asd_residual = sr_floer_asd_residual sig, tr_betti_1 = sr_floer_HF1 sig, tr_spread_bps = spread_bps\<rparr>],
           pt_prev_signal_ts_ns := sr_timestamp_ns sig\<rparr>)"

definition pnl_record ::
    "dbl \<Rightarrow> RoutedEdge \<Rightarrow> flt \<Rightarrow> flt \<Rightarrow> flt \<Rightarrow> SignalRecord \<Rightarrow> PnlTracker \<Rightarrow> PnlTracker" where
  "pnl_record alpha edge mid_src mid_dst spread_price sig t =
     (if mid_src \<le> 0 \<or> mid_dst \<le> 0 then t
      else
        let src = unat (re_src_instrument edge); dst = unat (re_dst_instrument edge)
        in if src \<ge> n_feed_instruments \<or> dst \<ge> n_feed_instruments then t
           else
             let slot = src * n_feed_instruments + dst
             in case ewma_update alpha (ln (mid_dst / mid_src)) (pt_baselines t ! slot) of (z, bl) \<Rightarrow>
                  let t1 = t\<lparr>pt_baselines := (pt_baselines t)[slot := bl]\<rparr>;
                      strength = tanh (re_harmonic_flow edge);
                      direction = - copysign1 z * copysign1 strength;
                      gross_ret = min (\<bar>strength\<bar> * \<bar>z\<bar> * sigma_bps bl) k_max_gross_bps;
                      spread_bps = (spread_price / mid_src) * 10 ^ 4
                  in if \<not> ew_warm bl then t1
                     else if gross_ret \<le> spread_bps \<or> \<bar>z\<bar> < 1 / 2 then t1\<lparr>pt_filtered := pt_filtered t1 + 1\<rparr>
                     else book_return (direction * (gross_ret - spread_bps)) spread_bps sig t1)"

definition report_stats :: "PnlTracker \<Rightarrow> (dbl \<times> dbl \<times> dbl \<times> dbl) option" where
  "report_stats t =
     (if pt_n t = 0 then None
      else
        let n = real (unat (pt_n t));
            mean = pt_sum_ret t / n;
            var = pt_sum_ret2 t / n - mean * mean;
            stdv = (if var > 0 then sqrt var else 1)
        in Some (real (unat (pt_wins t)) / n * 100, mean, stdv, mean / stdv))"

section \<open>Accounting\<close>

definition accounts_ok :: "PnlTracker \<Rightarrow> bool" where
  "accounts_ok t \<longleftrightarrow>
     length (pt_baselines t) = n_feed_instruments * n_feed_instruments \<and>
     length (pt_equity_curve t) = Suc (length (pt_ticks t)) \<and>
     (\<forall>i < length (pt_ticks t). pt_equity_curve t ! Suc i = pt_equity_curve t ! i + tr_pnl (pt_ticks t ! i) \<and>
        tr_cumulative_pnl (pt_ticks t ! i) = pt_equity_curve t ! Suc i) \<and>
     pt_equity_curve t ! 0 = 0 \<and> pt_current_pnl t = last (pt_equity_curve t) \<and>
     pt_sum_ret t = sum_list (map tr_pnl (pt_ticks t)) \<and> pt_sum_ret t = pt_current_pnl t \<and>
     pt_sum_ret2 t = sum_list (map (\<lambda>k. (tr_pnl k)\<^sup>2) (pt_ticks t)) \<and>
     pt_n t = word_of_nat (length (pt_ticks t)) \<and>
     pt_wins t = word_of_nat (length (filter (\<lambda>k. tr_pnl k > 0) (pt_ticks t))) \<and>
     (\<forall>k \<in> set (pt_ticks t). tr_pnl k \<noteq> 0 \<and> \<bar>tr_pnl k\<bar> \<le> k_max_gross_bps - tr_spread_bps k)"

lemma accounts_new: "accounts_ok new_tracker"
  by (simp add: accounts_ok_def new_tracker_def n_feed_instruments_def)

lemma book_return_ok:
  assumes "accounts_ok t" and "r \<noteq> 0" and "\<bar>r\<bar> \<le> k_max_gross_bps - s"
  shows "accounts_ok (book_return r s sig t)"
proof -
  have ne: "pt_equity_curve t \<noteq> []" using assms(1) by (auto simp: accounts_ok_def)
  then have "last (pt_equity_curve t) = pt_equity_curve t ! length (pt_ticks t)"
    using assms(1) by (simp add: accounts_ok_def last_conv_nth)
  then show ?thesis
    using assms by (auto simp: accounts_ok_def book_return_def Let_def nth_append less_Suc_eq power2_eq_square)
qed

text \<open>What \<open>record\<close> does once the moving average of the pair is known.\<close>

lemma ewma_warm: "ewma_update alpha x e = (z, bl) \<Longrightarrow> ew_warm bl"
  by (auto simp: ewma_update_def Let_def split: if_splits)

lemma pnl_record_cases:
  assumes "ewma_update alpha (ln (md / ms))
      (pt_baselines t ! (unat (re_src_instrument edge) * n_feed_instruments + unat (re_dst_instrument edge))) = (z, bl)"
    and "slot = unat (re_src_instrument edge) * n_feed_instruments + unat (re_dst_instrument edge)"
    and "g = min (\<bar>tanh (re_harmonic_flow edge)\<bar> * \<bar>z\<bar> * sigma_bps bl) k_max_gross_bps"
    and "s = (sp / ms) * 10 ^ 4"
    and "d = - copysign1 z * copysign1 (tanh (re_harmonic_flow edge))"
    and "t1 = t\<lparr>pt_baselines := (pt_baselines t)[slot := bl]\<rparr>"
  shows "pnl_record alpha edge ms md sp sig t =
    (if ms \<le> 0 \<or> md \<le> 0 \<or> unat (re_src_instrument edge) \<ge> n_feed_instruments \<or>
        unat (re_dst_instrument edge) \<ge> n_feed_instruments then t
     else if g \<le> s \<or> \<bar>z\<bar> < 1 / 2 then t1\<lparr>pt_filtered := pt_filtered t1 + 1\<rparr>
     else book_return (d * (g - s)) s sig t1)"
  unfolding pnl_record_def Let_def assms(2-6) assms(1) using ewma_warm [OF assms(1)] by simp

lemma copysign1_cases: "copysign1 x = 1 \<or> copysign1 x = -1"
  by (simp add: copysign1_def)

lemma pnl_record_ok:
  assumes "accounts_ok t"
  shows "accounts_ok (pnl_record alpha edge ms md sp sig t)"
proof -
  define slot where "slot = unat (re_src_instrument edge) * n_feed_instruments + unat (re_dst_instrument edge)"
  obtain z bl where e: "ewma_update alpha (ln (md / ms)) (pt_baselines t ! slot) = (z, bl)" by fastforce
  define d where "d = - copysign1 z * copysign1 (tanh (re_harmonic_flow edge))"
  define g where "g = min (\<bar>tanh (re_harmonic_flow edge)\<bar> * \<bar>z\<bar> * sigma_bps bl) k_max_gross_bps"
  define s where "s = (sp / ms) * 10 ^ 4"
  define t1 where "t1 = t\<lparr>pt_baselines := (pt_baselines t)[slot := bl]\<rparr>"
  have base: "accounts_ok t1" "accounts_ok (t1\<lparr>pt_filtered := c\<rparr>)" for c
    using assms by (simp_all add: accounts_ok_def t1_def)
  have d: "d = 1 \<or> d = -1" using copysign1_cases [of z] copysign1_cases [of "tanh (re_harmonic_flow edge)"]
    by (auto simp: d_def)
  have g: "g \<le> k_max_gross_bps" by (simp add: g_def)
  have "accounts_ok (book_return (d * (g - s)) s sig t1)" if "\<not> g \<le> s"
    using that d g by (intro book_return_ok [OF base(1)]) auto
  then show ?thesis
    using assms base by (subst pnl_record_cases [OF e [unfolded slot_def] slot_def g_def s_def d_def t1_def]) simp
qed

text \<open>
  (C35) The books of the backtest add up: after any sequence of routed edges the equity curve starts at
  zero and moves by exactly the return of each recorded tick, the current profit is its last value
  and the sum of the returns, the sums behind mean and deviation are those of the recorded returns,
  the counters are the numbers of ticks and of positive ticks, and no return exceeds five basis
  points less the spread.
\<close>

theorem backtest_accounting:
  assumes "t = fold (\<lambda>(edge, ms, md, sp, sig). pnl_record alpha edge ms md sp sig) rs new_tracker"
  shows "length (pt_equity_curve t) = Suc (length (pt_ticks t)) \<and> pt_equity_curve t ! 0 = 0 \<and>
     (\<forall>i < length (pt_ticks t). pt_equity_curve t ! Suc i = pt_equity_curve t ! i + tr_pnl (pt_ticks t ! i)) \<and>
     pt_current_pnl t = last (pt_equity_curve t) \<and> pt_current_pnl t = sum_list (map tr_pnl (pt_ticks t)) \<and>
     pt_sum_ret t = pt_current_pnl t \<and> pt_sum_ret2 t = sum_list (map (\<lambda>k. (tr_pnl k)\<^sup>2) (pt_ticks t)) \<and>
     pt_n t = word_of_nat (length (pt_ticks t)) \<and>
     pt_wins t = word_of_nat (length (filter (\<lambda>k. tr_pnl k > 0) (pt_ticks t))) \<and>
     (\<forall>k \<in> set (pt_ticks t). \<bar>tr_pnl k\<bar> \<le> 5 - tr_spread_bps k)"
proof -
  have "accounts_ok (fold (\<lambda>(edge, ms, md, sp, sig). pnl_record alpha edge ms md sp sig) rs s)" if "accounts_ok s" for s
    using that by (induction rs arbitrary: s) (auto simp: pnl_record_ok)
  from this [OF accounts_new] show ?thesis
    by (simp add: assms accounts_ok_def k_max_gross_bps_def)
qed

text \<open>
  The reported return of a signal is decided when it is generated: a recorded tick is a win
  exactly if the deviation of the pair and the flow of the edge have opposite signs, and its size is
  the deviation times the strength, capped and reduced by the spread. No later price enters it.
\<close>

theorem return_fixed_at_signal:
  assumes "t' = pnl_record alpha edge ms md sp sig t" and "pt_ticks t' = pt_ticks t @ [k]"
    and "slot = unat (re_src_instrument edge) * 4 + unat (re_dst_instrument edge)"
    and "ewma_update alpha (ln (md / ms)) (pt_baselines t ! slot) = (z, bl)"
  shows "(tr_pnl k > 0 \<longleftrightarrow> (z < 0) \<noteq> (re_harmonic_flow edge < 0)) \<and>
     \<bar>tr_pnl k\<bar> = min (\<bar>tanh (re_harmonic_flow edge)\<bar> * \<bar>z\<bar> * sigma_bps bl) 5 - sp / ms * 10 ^ 4"
proof -
  have slot: "slot = unat (re_src_instrument edge) * n_feed_instruments + unat (re_dst_instrument edge)"
    using assms(3) by (simp add: n_feed_instruments_def)
  define d where "d = - copysign1 z * copysign1 (tanh (re_harmonic_flow edge))"
  define g where "g = min (\<bar>tanh (re_harmonic_flow edge)\<bar> * \<bar>z\<bar> * sigma_bps bl) k_max_gross_bps"
  define s where "s = (sp / ms) * 10 ^ 4"
  have "\<not> g \<le> s \<and> tr_pnl k = d * (g - s)"
    using assms(2) unfolding assms(1)
      pnl_record_cases [OF assms(4) [unfolded slot] slot g_def s_def d_def refl]
    by (auto simp: book_return_def Let_def split: if_splits)
  moreover have "d = (if (z < 0) \<noteq> (re_harmonic_flow edge < 0) then 1 else -1)"
    by (simp add: d_def copysign1_def)
  ultimately have "(tr_pnl k > 0 \<longleftrightarrow> (z < 0) \<noteq> (re_harmonic_flow edge < 0)) \<and> \<bar>tr_pnl k\<bar> = g - s"
    by (auto simp: abs_if)
  then show ?thesis by (simp add: g_def s_def k_max_gross_bps_def)
qed


text \<open>A warm pair, no smoothing and no spread: a positive flow on a rich destination loses.\<close>

definition example_edge :: RoutedEdge where
  "example_edge = \<lparr>re_src_instrument = 0, re_dst_instrument = 1, re_harmonic_flow = 1, re_yang_mills_action = 1,
     re_signal_ts_ns = 7, re_edge_index = 0\<rparr>"

definition example_tracker :: PnlTracker where
  "example_tracker = new_tracker\<lparr>pt_baselines :=
     (pt_baselines new_tracker)[1 := \<lparr>ew_mu = 0, ew_m2 = 1 / 10 ^ 8, ew_warm = True\<rparr>]\<rparr>"

lemma example_sigma: "sqrt (max (ew_m2 (pt_baselines example_tracker ! 1)) (k_min_sigma * k_min_sigma)) = 1 / 10 ^ 4"
proof -
  have "max (ew_m2 (pt_baselines example_tracker ! 1)) (k_min_sigma * k_min_sigma) = (1 / 10 ^ 4)\<^sup>2"
    by (simp add: k_min_sigma_def power2_eq_square example_tracker_def new_tracker_def n_feed_instruments_def)
  then show ?thesis by (simp only: real_sqrt_abs) simp
qed

lemma example_update:
  "ewma_update 0 (ln (exp 1 / 1)) (pt_baselines example_tracker ! 1) = (10 ^ 4, pt_baselines example_tracker ! 1)"
proof -
  have "ew_warm (pt_baselines example_tracker ! 1)" "ew_mu (pt_baselines example_tracker ! 1) = 0"
    by (simp_all add: example_tracker_def new_tracker_def n_feed_instruments_def)
  then show ?thesis by (simp add: ewma_update_def Let_def example_sigma [unfolded One_nat_def])
qed

theorem return_fixed_at_signal_witness:
  "\<exists>k. pt_ticks (pnl_record 0 example_edge 1 (exp 1) 0 empty_signal example_tracker) = pt_ticks example_tracker @ [k] \<and>
     \<not> tr_pnl k > 0 \<and> \<bar>tr_pnl k\<bar> = min (\<bar>tanh 1\<bar> * 10 ^ 4) 5"
proof -
  let ?bl = "pt_baselines example_tracker ! 1"
  let ?t' = "pnl_record 0 example_edge 1 (exp 1) 0 empty_signal example_tracker"
  have s: "sigma_bps ?bl = 1" unfolding sigma_bps_def example_sigma by simp
  have slot: "(1::nat) = unat (re_src_instrument example_edge) * 4 + unat (re_dst_instrument example_edge)"
    by (simp add: example_edge_def)
  then have e: "ewma_update 0 (ln (exp 1 / 1)) (pt_baselines example_tracker !
      (unat (re_src_instrument example_edge) * n_feed_instruments + unat (re_dst_instrument example_edge))) = (10 ^ 4, ?bl)"
    using example_update by (simp add: n_feed_instruments_def)
  have "\<exists>k. pt_ticks ?t' = pt_ticks example_tracker @ [k]"
    unfolding pnl_record_cases [OF e refl refl refl refl refl]
    by (simp add: example_edge_def book_return_def Let_def n_feed_instruments_def k_max_gross_bps_def
        s [unfolded One_nat_def] min_def)
  then obtain k where k: "pt_ticks ?t' = pt_ticks example_tracker @ [k]" ..
  have "re_harmonic_flow example_edge = 1" by (simp add: example_edge_def)
  with return_fixed_at_signal [OF refl k slot example_update] s k show ?thesis
    by (intro exI [of _ k]) simp
qed

definition example_signals :: "(RoutedEdge \<times> flt \<times> flt \<times> flt \<times> SignalRecord) list" where
  "example_signals = [(example_edge, 1, 1, 0, empty_signal), (example_edge, 1, exp 1, 0, empty_signal)]"

theorem backtest_accounting_witness:
  "\<exists>t. t = fold (\<lambda>(edge, ms, md, sp, sig). pnl_record 0 edge ms md sp sig) example_signals new_tracker \<and>
     pt_equity_curve t ! 0 = 0 \<and> pt_current_pnl t = sum_list (map tr_pnl (pt_ticks t)) \<and>
     pt_n t = word_of_nat (length (pt_ticks t))"
  using backtest_accounting [OF refl, of 0 example_signals] by blast

end
