(* ===== verification/Signal_Graph.thy ===== *)
theory Signal_Graph
  imports Signal_Router Cuda_Pipeline
begin

text \<open>
  From the pipeline to the router, as both programs connect them: the spans of \<open>route\<close> are the
  published arrays up to the published number of edges. For a published graph of the instruments
  the routed edges are pairs of different instruments, none of which occurs twice.
\<close>

definition topology_graph :: "flt \<Rightarrow> TopologySnapshot \<Rightarrow> flow_graph" where
  "topology_graph threshold topo =
     (let es = [0..<ts_n_edges topo]
      in \<lparr>fg_curl_flow = map (ts_harmonic_flow topo) es, fg_edge_src = map (\<lambda>e. int (fst (ts_edge topo e))) es,
          fg_edge_dst = map (\<lambda>e. int (snd (ts_edge topo e))) es, fg_threshold = threshold\<rparr>)"

text \<open>A graph whose edges join different ones of \<open>n\<close> instruments.\<close>

definition edges_among :: "nat \<Rightarrow> TopologySnapshot \<Rightarrow> bool" where
  "edges_among n topo \<longleftrightarrow> (\<forall>e < ts_n_edges topo. fst (ts_edge topo e) < snd (ts_edge topo e) \<and> snd (ts_edge topo e) < n)"

lemma edges_amongI: "bij_betw (ts_edge topo) {..<ts_n_edges topo} {(i, j). i < j \<and> j < n} \<Longrightarrow> edges_among n topo"
  unfolding edges_among_def
proof (intro allI impI)
  fix e assume "bij_betw (ts_edge topo) {..<ts_n_edges topo} {(i, j). i < j \<and> j < n}" "e < ts_n_edges topo"
  then have "ts_edge topo e \<in> {(i, j). i < j \<and> j < n}" using bij_betw_apply by fastforce
  then show "fst (ts_edge topo e) < snd (ts_edge topo e) \<and> snd (ts_edge topo e) < n" by auto
qed

lemma graph_ends:
  assumes "edges_among n topo" and "n \<le> 2 ^ 32" and "e < ts_n_edges topo"
  shows "unat (edge_src (topology_graph thr topo) e) = fst (ts_edge topo e)"
    and "unat (edge_dst (topology_graph thr topo) e) = snd (ts_edge topo e)"
    and "edge_src (topology_graph thr topo) e \<noteq> edge_dst (topology_graph thr topo) e"
proof -
  have b: "fst (ts_edge topo e) < snd (ts_edge topo e)" "snd (ts_edge topo e) < 2 ^ 32"
    using assms by (auto simp: edges_among_def)
  then show u: "unat (edge_src (topology_graph thr topo) e) = fst (ts_edge topo e)"
    "unat (edge_dst (topology_graph thr topo) e) = snd (ts_edge topo e)"
    using assms(3)
    by (simp_all add: topology_graph_def edge_src_def edge_dst_def Let_def unsigned_of_nat take_bit_nat_eq_self)
  show "edge_src (topology_graph thr topo) e \<noteq> edge_dst (topology_graph thr topo) e"
    using u b by (metis less_irrefl)
qed

lemma fill_slots_edges:
  assumes "\<And>e. e < length (fg_curl_flow g) \<Longrightarrow> edge_src g e \<noteq> edge_dst g e"
  shows "set (fill_slots g slots busy) \<subseteq> {..<length (fg_curl_flow g)} \<and> distinct (endpoints g (fill_slots g slots busy)) \<and>
    set (endpoints g (fill_slots g slots busy)) \<inter> set busy = {}"
proof (induction slots arbitrary: busy)
  case (Suc slots)
  show ?case
  proof (cases "scan_edges g busy [0..<length (fg_curl_flow g)] None")
    case (Some b)
    note b = scan_all(2) [OF Some]
    have "edge_src g b \<notin> set busy" "edge_dst g b \<notin> set busy" using b by (simp_all add: edge_open_def)
    with Suc.IH [of "busy @ [edge_src g b, edge_dst g b]"] b assms [of b] show ?thesis
      by (auto simp: Some endpoints_def)
  qed (simp add: endpoints_def)
qed (simp add: endpoints_def)

lemma routed_edges:
  assumes "edges_among n topo" and "n \<le> 2 ^ 32" and "route (topology_graph thr topo) action ts m = (out, m')"
  obtains es where "out = map (routed_edge (topology_graph thr topo) action ts) es" "set es \<subseteq> {..<ts_n_edges topo}"
    "distinct (concat (map (\<lambda>e. [fst (ts_edge topo e), snd (ts_edge topo e)]) es))"
proof -
  let ?g = "topology_graph thr topo"
  have flow: "length (fg_curl_flow ?g) = ts_n_edges topo" by (simp add: topology_graph_def Let_def)
  define es where "es = (if action < fg_threshold ?g \<or> fg_curl_flow ?g = [] then [] else fill_slots ?g k_signal_router_top_k [])"
  have out: "out = map (routed_edge ?g action ts) es"
    using assms(3) by (auto simp: route_def Let_def es_def split: if_splits)
  have "set es \<subseteq> {..<ts_n_edges topo} \<and> distinct (endpoints ?g es)"
    using fill_slots_edges [of ?g k_signal_router_top_k "[]"] graph_ends(3) [OF assms(1,2)]
    by (auto simp: es_def flow endpoints_def)
  then have es: "set es \<subseteq> {..<ts_n_edges topo}" "distinct (endpoints ?g es)" by simp_all
  have "map unat (endpoints ?g es) = concat (map (\<lambda>e. [fst (ts_edge topo e), snd (ts_edge topo e)]) es)"
    using es(1) graph_ends(1,2) [OF assms(1,2)] by (induction es) (auto simp: endpoints_def)
  moreover have "distinct (map unat (endpoints ?g es))"
    using es(2) by (simp add: distinct_map inj_on_def word_unat_eq_iff)
  ultimately show ?thesis using that [OF out es(1)] by simp
qed

lemma disjoint_pairs_bound:
  assumes "distinct (concat (map (\<lambda>e. [fst (f e), snd (f e)]) es))"
    and "\<forall>e \<in> set es. fst (f e) < n \<and> snd (f e) < (n :: nat)"
  shows "2 * length es \<le> n"
proof -
  let ?l = "concat (map (\<lambda>e. [fst (f e), snd (f e)]) es)"
  have "length ?l = 2 * length es" by (induction es) auto
  moreover have "set ?l \<subseteq> {..<n}" using assms(2) by auto
  then have "card (set ?l) \<le> card {..<n}" by (intro card_mono) auto
  ultimately show ?thesis using distinct_card [OF assms(1)] by simp
qed

end
