(* ===== verification/Backtest_Run.thy ===== *)
theory Backtest_Run
  imports Backtest_Pnl Signal_Graph Ring_Buffer Lob_Core
begin

text \<open>
  The backtest as a whole (\<open>main\<close> of \<open>engine/app/main_backtest.cpp\<close>): the replay thread pushes the
  updates of the file into the ring, the main thread pops them, applies them to the book and calls
  the pipeline once per batch.

  The two threads are a step relation. A push, a pop and the test of the loop are one step each;
  the accesses inside a push and a pop interleave in \<open>Ring_Concurrency\<close>. The environment variables,
  the libraries and what the device does during the call made at a given update count are arguments.
\<close>

section \<open>Set-up\<close>

definition update_type :: ctype where "update_type = \<lparr>sizeof = 24, alignof = 8\<rparr>"

definition zero_update :: LobUpdate where
  "zero_update = \<lparr>lu_timestamp_ns = 0, lu_price = 0, lu_quantity = 0, lu_instrument_id = 0, lu_depth_level = 0, lu_side = Bid\<rparr>"

text \<open>The arena, the book and the ring; \<open>None\<close> is a book whose arrays did not fit.\<close>

definition backtest_setup :: "u64 \<Rightarrow> CliArgs \<Rightarrow> (lob \<times> LobUpdate ring \<times> arena) option" where
  "backtest_setup new_addr cli =
     (case LobSoA (MemoryArena new_addr (cli_arena_mb cli * 1024 * 1024)) n_feed_instruments 1 of
        None \<Rightarrow> None
      | Some (book, a) \<Rightarrow>
          (case DynamicSpscRingBuffer update_type zero_update a 8388608 of (ring, a') \<Rightarrow> Some (book, ring, a')))"

text \<open>
  \<open>HOLO_K_ALPHA\<close> as \<open>std::stod\<close> reads it (an argument; \<open>None\<close> is an exception), or the default.
\<close>

definition active_k_alpha :: "(string \<Rightarrow> dbl option) \<Rightarrow> string option \<Rightarrow> dbl" where
  "active_k_alpha stod holo_k_alpha =
     (case Option.bind holo_k_alpha stod of Some v \<Rightarrow> v | None \<Rightarrow> 2 / 100)"

definition gpu_batch :: "string option \<Rightarrow> u64" where
  "gpu_batch holo_gpu_batch =
     (case holo_gpu_batch of None \<Rightarrow> 2048 | Some env \<Rightarrow> let v = strtoul env in if v > 0 then v else 2048)"

section \<open>The consumer\<close>

record backtest_env =
  be_libs :: gpu_libs
  be_alpha :: dbl
  be_threshold :: flt
  be_batch :: u64
  be_tick :: "u64 \<Rightarrow> tick"

record backtest =
  bk_lob :: lob
  bk_pipeline :: pipeline
  bk_router :: RouterMetrics
  bk_pnl :: PnlTracker
  bk_count :: u64

text \<open>The pipeline reads the book on the thread that writes it, so every staging attempt is clean.\<close>

definition book_arrays :: "lob \<Rightarrow> device_book" where
  "book_arrays s = \<lparr>db_bid_prices = \<lambda>i. lb_bid_prices s ! i, db_ask_prices = \<lambda>i. lb_ask_prices s ! i,
     db_bid_qtys = \<lambda>i. lb_bid_qtys s ! i, db_ask_qtys = \<lambda>i. lb_ask_qtys s ! i\<rparr>"

definition observe :: "lob \<Rightarrow> tick \<Rightarrow> tick" where
  "observe s tk = tk\<lparr>tk_generation := ls_total_updates (lb_stats s), tk_book := \<lambda>_. (lb_seq s, book_arrays s, lb_seq s)\<rparr>"

definition record_edges :: "dbl \<Rightarrow> lob \<Rightarrow> SignalRecord \<Rightarrow> RoutedEdge list \<Rightarrow> PnlTracker \<Rightarrow> PnlTracker" where
  "record_edges alpha book sig edges pnl =
     fold (\<lambda>re. pnl_record alpha re (mid_price book (unat (re_src_instrument re)))
       (mid_price book (unat (re_dst_instrument re))) (spread book (unat (re_src_instrument re))) sig) edges pnl"

definition process_signal :: "backtest_env \<Rightarrow> backtest \<Rightarrow> backtest" where
  "process_signal env s =
     (let p = run_once (be_libs env) (observe (bk_lob s) (be_tick env (bk_count s))) (bk_pipeline s);
          sig = last_signal p;
          s1 = s\<lparr>bk_pipeline := p\<rparr>
      in if sr_yang_mills_action sig > 1 / 10 ^ 4 then
           let topo = last_topology p
           in if ts_n_edges topo > 0 then
                case route (topology_graph (be_threshold env) topo) (sr_yang_mills_action sig) (sr_timestamp_ns sig)
                    (bk_router s) of (edges, m) \<Rightarrow>
                  s1\<lparr>bk_router := m, bk_pnl := record_edges (be_alpha env) (bk_lob s) sig edges (bk_pnl s)\<rparr>
              else s1
         else s1)"

text \<open>The body of the loop for one popped update, and the call after the loop.\<close>

definition consume :: "backtest_env \<Rightarrow> LobUpdate \<Rightarrow> backtest \<Rightarrow> backtest" where
  "consume env u s =
     (let s1 = s\<lparr>bk_lob := apply_lob u (bk_lob s), bk_count := bk_count s + 1\<rparr>
      in if bk_count s1 mod be_batch env = 0 then process_signal env s1 else s1)"

definition flush_batch :: "backtest_env \<Rightarrow> backtest \<Rightarrow> backtest" where
  "flush_batch env s = (if bk_count s mod be_batch env \<noteq> 0 then process_signal env s else s)"

section \<open>The two threads\<close>

datatype phase = Checking | Popping | Exited

record backtest_run =
  rn_pending :: "LobUpdate list"
  rn_ring :: "LobUpdate ring"
  rn_finished :: bool
  rn_phase :: phase
  rn_back :: backtest

inductive bt_step :: "backtest_env \<Rightarrow> backtest_run \<Rightarrow> backtest_run \<Rightarrow> bool" for env where
  push: "rn_pending s = u # us \<Longrightarrow> try_push u (rn_ring s) = (True, r) \<Longrightarrow>
    bt_step env s (s\<lparr>rn_pending := us, rn_ring := r\<rparr>)"
| push_full: "rn_pending s = u # us \<Longrightarrow> try_push u (rn_ring s) = (False, r) \<Longrightarrow>
    bt_step env s (s\<lparr>rn_ring := r\<rparr>)"
| finish: "rn_pending s = [] \<Longrightarrow> bt_step env s (s\<lparr>rn_finished := True\<rparr>)"
| enter: "rn_phase s = Checking \<Longrightarrow> \<not> rn_finished s \<or> \<not> ring_empty (rn_ring s) \<Longrightarrow>
    bt_step env s (s\<lparr>rn_phase := Popping\<rparr>)"
| leave: "rn_phase s = Checking \<Longrightarrow> rn_finished s \<Longrightarrow> ring_empty (rn_ring s) \<Longrightarrow>
    bt_step env s (s\<lparr>rn_phase := Exited\<rparr>)"
| pop: "rn_phase s = Popping \<Longrightarrow> try_pop (rn_ring s) = (Some u, r) \<Longrightarrow>
    bt_step env s (s\<lparr>rn_ring := r, rn_phase := Checking, rn_back := consume env u (rn_back s)\<rparr>)"
| pause: "rn_phase s = Popping \<Longrightarrow> try_pop (rn_ring s) = (None, r) \<Longrightarrow>
    bt_step env s (s\<lparr>rn_ring := r, rn_phase := Checking\<rparr>)"

abbreviation bt_steps :: "backtest_env \<Rightarrow> backtest_run \<Rightarrow> backtest_run \<Rightarrow> bool" where
  "bt_steps env \<equiv> (bt_step env)\<^sup>*\<^sup>*"

definition start_run :: "LobUpdate list \<Rightarrow> LobUpdate ring \<Rightarrow> backtest \<Rightarrow> backtest_run" where
  "start_run us r b = \<lparr>rn_pending = us, rn_ring = r, rn_finished = False, rn_phase = Checking, rn_back = b\<rparr>"

section \<open>Every interleaving consumes the file in order\<close>

definition replay_inv :: "backtest_env \<Rightarrow> LobUpdate list \<Rightarrow> backtest \<Rightarrow> backtest_run \<Rightarrow> bool" where
  "replay_inv env us b s \<longleftrightarrow> ring_ok (rn_ring s) \<and>
     (\<exists>taken. us = taken @ ring_list (rn_ring s) @ rn_pending s \<and> rn_back s = fold (consume env) taken b) \<and>
     (rn_finished s \<longrightarrow> rn_pending s = []) \<and>
     (rn_phase s = Exited \<longrightarrow> rn_finished s \<and> ring_list (rn_ring s) = [])"

lemma ring_empty_list: "ring_ok r \<Longrightarrow> ring_empty r \<longleftrightarrow> ring_list r = []"
  using full_iff(2) [of r] by (simp add: ring_empty_def length_0_conv [symmetric] del: length_0_conv)

lemma replay_inv_start: "ring_ok r \<Longrightarrow> ring_list r = [] \<Longrightarrow> replay_inv env us b (start_run us r b)"
  by (simp add: replay_inv_def start_run_def)

lemma replay_inv_step: "bt_step env s s' \<Longrightarrow> replay_inv env us b s \<Longrightarrow> replay_inv env us b s'"
proof (induction rule: bt_step.induct)
  case (push s u ps r)
  then show ?case using dyn_ring.push_cases [OF _ push(2)] by (auto simp: replay_inv_def)
next
  case (push_full s u ps r)
  then show ?case using dyn_ring.push_cases [OF _ push_full(2)] by (auto simp: replay_inv_def)
next
  case (leave s)
  then show ?case using ring_empty_list by (auto simp: replay_inv_def)
next
  case (pop s u r)
  then obtain taken where t: "us = taken @ ring_list (rn_ring s) @ rn_pending s" "rn_back s = fold (consume env) taken b"
    and ok: "ring_ok (rn_ring s)" by (auto simp: replay_inv_def)
  note c = dyn_ring.pop_cases [OF ok pop(2)]
  then have "us = (taken @ [u]) @ ring_list r @ rn_pending s \<and>
      consume env u (rn_back s) = fold (consume env) (taken @ [u]) b" using t by simp
  then show ?case using pop c unfolding replay_inv_def by auto
next
  case (pause s r)
  then show ?case using dyn_ring.pop_cases [OF _ pause(2)] by (auto simp: replay_inv_def)
qed (auto simp: replay_inv_def)

lemma replay_inv_steps: "bt_steps env s s' \<Longrightarrow> replay_inv env us b s \<Longrightarrow> replay_inv env us b s'"
  by (induction rule: rtranclp_induct) (auto intro: replay_inv_step)

text \<open>
  (C6) The backtest is reproducible, and no update is lost, repeated or reordered: however the replay
  thread and the main thread interleave and however often the ring is full or empty, a loop that
  ends has consumed exactly the updates of the file, in order; the book, the signals, the routed
  edges and the profit are those of the sequential program.
\<close>

theorem backtest_sequential:
  assumes "ring_ok r" and "ring_list r = []" and "bt_steps env (start_run us r b) s" and "rn_phase s = Exited"
  shows "rn_back s = fold (consume env) us b"
  using replay_inv_steps [OF assms(3) replay_inv_start [OF assms(1,2)]] assms(4) by (auto simp: replay_inv_def)

section \<open>The loop can always end\<close>

lemma steps_trans: "bt_step env s s1 \<Longrightarrow> bt_steps env s1 s2 \<Longrightarrow> bt_steps env s s2"
  by (rule converse_rtranclp_into_rtranclp)

definition remaining_work :: "backtest_run \<Rightarrow> nat" where
  "remaining_work s = 2 * length (rn_pending s) + length (ring_list (rn_ring s)) + (if rn_finished s then 0 else 1)"

lemma to_checking:
  assumes "replay_inv env us b s" and "rn_phase s \<noteq> Exited"
  obtains s' where "bt_steps env s s'" "rn_phase s' = Checking" "replay_inv env us b s'" "remaining_work s' \<le> remaining_work s"
proof (cases "rn_phase s = Checking")
  case True
  then show ?thesis using that [of s] assms(1) by simp
next
  case False
  then have ph: "rn_phase s = Popping" using assms(2) by (cases "rn_phase s") auto
  have ok: "ring_ok (rn_ring s)" using assms(1) by (simp add: replay_inv_def)
  obtain res r where p: "try_pop (rn_ring s) = (res, r)" by fastforce
  note c = dyn_ring.pop_cases [OF ok p]
  obtain s' where s': "bt_step env s s'" "rn_phase s' = Checking" "rn_ring s' = r" "rn_pending s' = rn_pending s"
    "rn_finished s' = rn_finished s"
  proof (cases res)
    case None
    then show ?thesis using that [of "s\<lparr>rn_ring := r, rn_phase := Checking\<rparr>"] bt_step.pause [OF ph, of r] p by simp
  next
    case (Some u)
    then show ?thesis
      using that [of "s\<lparr>rn_ring := r, rn_phase := Checking, rn_back := consume env u (rn_back s)\<rparr>"]
        bt_step.pop [OF ph, of u r] p by simp
  qed
  have "length (ring_list r) \<le> length (ring_list (rn_ring s))" using c by (cases res) simp_all
  then have "remaining_work s' \<le> remaining_work s" using s' by (simp add: remaining_work_def)
  then show ?thesis using that [of s'] s' replay_inv_step [OF s'(1) assms(1)] by auto
qed

lemma run_progress:
  assumes "replay_inv env us b s" and "rn_phase s = Checking" and "\<not> (rn_finished s \<and> ring_list (rn_ring s) = [])"
  obtains s' where "bt_steps env s s'" "rn_phase s' = Checking" "replay_inv env us b s'" "remaining_work s' < remaining_work s"
proof -
  have ok: "ring_ok (rn_ring s)" using assms(1) by (simp add: replay_inv_def)
  show ?thesis
  proof (cases "ring_list (rn_ring s)")
    case (Cons u rest)
    obtain r where p: "try_pop (rn_ring s) = (Some u, r)" "ring_list r = rest"
      using dyn_ring.pop_Cons [OF ok Cons] by auto
    let ?s1 = "s\<lparr>rn_phase := Popping\<rparr>"
    let ?s2 = "?s1\<lparr>rn_ring := r, rn_phase := Checking, rn_back := consume env u (rn_back ?s1)\<rparr>"
    have st: "bt_step env s ?s1" "bt_step env ?s1 ?s2"
      using bt_step.enter [OF assms(2)] bt_step.pop [of ?s1 u r] p Cons ring_empty_list [OF ok] by auto
    then have inv: "replay_inv env us b ?s2" using replay_inv_step assms(1) by blast
    have "remaining_work ?s2 < remaining_work s" using Cons p by (simp add: remaining_work_def)
    with st inv show ?thesis by (intro that [of ?s2]) auto
  next
    case Nil
    then have nf: "\<not> rn_finished s" using assms(3) by simp
    show ?thesis
    proof (cases "rn_pending s")
      case Nil2: Nil
      have st: "bt_step env s (s\<lparr>rn_finished := True\<rparr>)" using Nil2 by (rule bt_step.finish)
      have "remaining_work (s\<lparr>rn_finished := True\<rparr>) < remaining_work s" using nf by (simp add: remaining_work_def)
      with st show ?thesis using replay_inv_step [OF st assms(1)] assms(2)
        by (intro that [of "s\<lparr>rn_finished := True\<rparr>"]) auto
    next
      case (Cons u ps)
      have "2 \<le> slot_count (rn_ring s)" using ok by (auto elim: ring_okE)
      then obtain r where p: "try_push u (rn_ring s) = (True, r)" "ring_list r = [u]"
        using dyn_ring.push_room [OF ok, of u] Nil by auto
      let ?s1 = "s\<lparr>rn_pending := ps, rn_ring := r\<rparr>"
      have st: "bt_step env s ?s1" using Cons p(1) by (rule bt_step.push)
      have "remaining_work ?s1 < remaining_work s" using Cons Nil p by (simp add: remaining_work_def)
      with st show ?thesis using replay_inv_step [OF st assms(1)] assms(2) by (intro that [of ?s1]) auto
    qed
  qed
qed

lemma run_ends:
  "replay_inv env us b s \<Longrightarrow> rn_phase s = Checking \<Longrightarrow> \<exists>s'. bt_steps env s s' \<and> rn_phase s' = Exited"
proof (induction "remaining_work s" arbitrary: s rule: less_induct)
  case less
  show ?case
  proof (cases "rn_finished s \<and> ring_list (rn_ring s) = []")
    case True
    then have "bt_step env s (s\<lparr>rn_phase := Exited\<rparr>)"
      using less.prems ring_empty_list by (intro bt_step.leave) (auto simp: replay_inv_def)
    then show ?thesis by (intro exI [of _ "s\<lparr>rn_phase := Exited\<rparr>"]) auto
  next
    case False
    obtain s1 where s1: "bt_steps env s s1" "rn_phase s1 = Checking" "replay_inv env us b s1" "remaining_work s1 < remaining_work s"
      by (rule run_progress [OF less.prems False])
    from less.hyps [OF s1(4,3,2)] s1(1) show ?thesis by (meson rtranclp_trans)
  qed
qed

text \<open>
  The backtest never gets stuck: from every state the two threads can reach, with the ring full or
  empty and whatever has been replayed, the loop can still be brought to its end.
\<close>

theorem backtest_can_end:
  assumes "ring_ok r" and "ring_list r = []" and "bt_steps env (start_run us r b) s"
  shows "\<exists>s'. bt_steps env s s' \<and> rn_phase s' = Exited \<and> rn_back s' = fold (consume env) us b"
proof -
  have inv: "replay_inv env us b s" by (rule replay_inv_steps [OF assms(3) replay_inv_start [OF assms(1,2)]])
  have "\<exists>s'. bt_steps env s s' \<and> rn_phase s' = Exited"
  proof (cases "rn_phase s = Exited")
    case False
    obtain s1 where "bt_steps env s s1" "rn_phase s1 = Checking" "replay_inv env us b s1"
      by (rule to_checking [OF inv False])
    with run_ends show ?thesis by (meson rtranclp_trans)
  qed auto
  then obtain s' where s': "bt_steps env s s'" "rn_phase s' = Exited" by blast
  then have "replay_inv env us b s'" using replay_inv_steps inv by blast
  then show ?thesis using s' by (auto simp: replay_inv_def)
qed

section \<open>One signal per batch\<close>

text \<open>The state \<open>main\<close> starts the loop with.\<close>

definition start_backtest :: "lob \<Rightarrow> pipeline \<Rightarrow> backtest" where
  "start_backtest book p = \<lparr>bk_lob = book, bk_pipeline = p,
     bk_router = \<lparr>rm_signals_processed = 0, rm_edges_routed = 0, rm_signals_suppressed = 0\<rparr>,
     bk_pnl = new_tracker, bk_count = 0\<rparr>"

lemma process_signal_frame:
  "bk_lob (process_signal env s) = bk_lob s" "bk_count (process_signal env s) = bk_count s"
  "bk_pipeline (process_signal env s) =
     run_once (be_libs env) (observe (bk_lob s) (be_tick env (bk_count s))) (bk_pipeline s)"
  by (simp_all add: process_signal_def Let_def split: prod.split)

lemma consume_book: "bk_lob (fold (consume env) us b) = fold apply_lob us (bk_lob b)"
  by (induction us arbitrary: b) (simp_all add: consume_def Let_def process_signal_frame)

lemma consume_count: "bk_count (fold (consume env) us b) = bk_count b + word_of_nat (length us)"
  by (induction us arbitrary: b) (simp_all add: consume_def Let_def process_signal_frame algebra_simps)

lemma batch_boundary:
  fixes B :: u64
  assumes "k < 2 ^ 64" and "0 < B"
  shows "(word_of_nat k :: u64) mod B = 0 \<longleftrightarrow> k mod unat B = 0"
proof -
  have "unat ((word_of_nat k :: u64) mod B) = k mod unat B"
    using assms(1) by (simp add: unat_mod unsigned_of_nat take_bit_nat_eq_self)
  then show ?thesis by (metis unat_eq_zero)
qed

lemma consume_pipeline:
  assumes "length us < 2 ^ 64" and "0 < be_batch env" and "bk_count b = 0"
  shows "\<exists>tks. length tks = length us div unat (be_batch env) \<and>
    bk_pipeline (fold (consume env) us b) = run_continuous (be_libs env) tks (bk_pipeline b)"
  using assms(1)
proof (induction us rule: rev_induct)
  case Nil
  show ?case by (simp add: run_continuous_def)
next
  case (snoc u us)
  let ?B = "unat (be_batch env)" and ?c = "fold (consume env) us b"
  obtain tks where t: "length tks = length us div ?B" "bk_pipeline ?c = run_continuous (be_libs env) tks (bk_pipeline b)"
    using snoc by auto
  have cnt: "bk_count ?c + 1 = word_of_nat (Suc (length us))" using assms(3) by (simp add: consume_count)
  have b: "(bk_count ?c + 1) mod be_batch env = 0 \<longleftrightarrow> Suc (length us) mod ?B = 0"
    unfolding cnt using snoc.prems by (intro batch_boundary [OF _ assms(2)]) simp
  show ?case
  proof (cases "Suc (length us) mod ?B = 0")
    case True
    let ?tk = "observe (apply_lob u (bk_lob ?c)) (be_tick env (bk_count ?c + 1))"
    have "bk_pipeline (consume env u ?c) = run_continuous (be_libs env) (tks @ [?tk]) (bk_pipeline b)"
      using b True t(2) by (simp add: consume_def Let_def process_signal_frame run_continuous_def)
    moreover have "length (tks @ [?tk]) = Suc (length us) div ?B" using t(1) True by (simp add: div_Suc)
    ultimately show ?thesis by (intro exI [of _ "tks @ [?tk]"]) simp
  next
    case False
    then have "bk_pipeline (consume env u ?c) = bk_pipeline ?c" using b by (simp add: consume_def Let_def)
    then show ?thesis using t False by (intro exI [of _ tks]) (simp add: div_Suc)
  qed
qed

lemma div_round_up:
  fixes k B :: nat
  assumes "0 < B"
  shows "(k + B - 1) div B = (if k mod B = 0 then k div B else Suc (k div B))"
proof (cases "k mod B = 0")
  case True
  obtain c where c: "B = Suc c" using assms by (cases B) auto
  then have "k + B - 1 = c + k div B * B" using True div_mult_mod_eq [of k B] by simp
  moreover have "(c + k div B * B) div B = k div B + c div B" using div_mult_self1 [of B c "k div B"] assms by simp
  ultimately show ?thesis using True c by (simp add: add.commute)
next
  case False
  then obtain d where d: "k mod B = Suc d" by (cases "k mod B") auto
  then have lt: "d < B" using mod_less_divisor [OF assms, of k] by simp
  have "k + B - 1 = d + Suc (k div B) * B" using d div_mult_mod_eq [of k B] by simp
  then have "(k + B - 1) div B = Suc (k div B) + d div B" using div_mult_self1 [of B d "Suc (k div B)"] assms by simp
  then show ?thesis using False lt by simp
qed

lemma flush_pipeline:
  assumes "length us < 2 ^ 64" and B: "0 < be_batch env" and "bk_count b = 0"
  shows "\<exists>tks. length tks = (length us + unat (be_batch env) - 1) div unat (be_batch env) \<and>
    bk_pipeline (flush_batch env (fold (consume env) us b)) = run_continuous (be_libs env) tks (bk_pipeline b)"
proof -
  let ?B = "unat (be_batch env)" and ?c = "fold (consume env) us b"
  obtain tks where t: "length tks = length us div ?B" "bk_pipeline ?c = run_continuous (be_libs env) tks (bk_pipeline b)"
    using consume_pipeline [OF assms] by blast
  have pos: "0 < ?B" using B by (simp add: unat_gt_0)
  have "bk_count ?c mod be_batch env = 0 \<longleftrightarrow> length us mod ?B = 0"
    using batch_boundary [OF assms(1) B] assms(3) by (simp add: consume_count)
  then show ?thesis
    using t div_round_up [OF pos, of "length us"]
    by (auto simp: flush_batch_def process_signal_frame run_continuous_def
        intro: exI [of _ tks] exI [of _ "tks @ [observe (bk_lob ?c) (be_tick env (bk_count ?c))]"])
qed

lemma n_feed_fits: "graph_fits n_feed_instruments" "4 \<le> n_feed_instruments"
  using four_fit by (simp_all add: n_feed_instruments_def)

text \<open>
  (C16) From the file to the signals: a file of \<open>n\<close> well-formed rows leaves the book with all its
  quotes and yields exactly one signal per batch of updates, the last partial batch included, each
  over all six pairs of instruments; no update is skipped, whatever the timing.
\<close>

theorem backtest_signals:
  assumes "\<forall>row \<in> set rows. row_wf row" and "2 * length rows < 2 ^ 64"
    and "csv_run cfg (\<lambda>_. False) (Some (concat (map row_text rows))) m = (us, m')"
    and "ring_ok r" and "ring_list r = []" and "0 < be_batch env"
    and "bt_steps env (start_run us r (start_backtest book (CudaPipeline 4 1 mirror lap lob ws edge_buf lat))) s"
    and "rn_phase s = Exited" and "final = flush_batch env (rn_back s)"
  shows "bk_lob final = fold apply_lob (concat (map (row_updates \<circ> row_fields) rows)) book \<and>
     pl_write_idx (bk_pipeline final) =
       word_of_nat ((2 * length rows + unat (be_batch env) - 1) div unat (be_batch env)) \<and>
     (rows \<noteq> [] \<longrightarrow> sr_n_edges (last_signal (bk_pipeline final)) = 6) \<and> pl_zero_edge_ticks (bk_pipeline final) = 0"
proof -
  let ?p0 = "CudaPipeline 4 1 mirror lap lob ws edge_buf lat" and ?B = "unat (be_batch env)"
  obtain us1 m1 where l: "csv_loop cfg (\<lambda>_. False) 0 0 (concat (map row_text rows)) m = (us1, m1)" by fastforce
  have us: "us = concat (map (row_updates \<circ> row_fields) rows)"
    using assms(3) l csv_loop_rows [OF assms(1) l] by (simp add: csv_run_def)
  have len: "length us = 2 * length rows"
    unfolding us by (induction rows) (simp_all add: row_updates_def)
  have final: "rn_back s = fold (consume env) us (start_backtest book ?p0)"
    using replay_inv_steps [OF assms(7) replay_inv_start [OF assms(4,5)]] assms(8) by (auto simp: replay_inv_def)
  obtain tks where t: "length tks = (2 * length rows + ?B - 1) div ?B"
    "bk_pipeline final = run_continuous (be_libs env) tks ?p0"
    using flush_pipeline [of us env "start_backtest book ?p0"] assms(2,6,9) len final by (auto simp: start_backtest_def)
  have hist: "history_of (signals_seen (be_libs env) tks ?p0) (bk_pipeline final)"
    "\<forall>r \<in> set (signals_seen (be_libs env) tks ?p0). sr_n_edges r = 6"
    "pl_zero_edge_ticks (bk_pipeline final) = 0"
    using run_history [OF fresh_pipeline(3) [OF _ four_fit] fresh_pipeline(1) t(2)] by (simp_all add: CudaPipeline_def)
  have "bk_lob final = fold apply_lob us book"
    unfolding assms(9) final by (simp add: flush_batch_def process_signal_frame consume_book) (simp add: start_backtest_def)
  moreover have "sr_n_edges (last_signal (bk_pipeline final)) = 6" if "rows \<noteq> []"
  proof -
    have "0 < ?B" using assms(6) by (simp add: unat_gt_0)
    moreover have "0 < length rows" using that by simp
    ultimately have "?B \<le> 2 * length rows + ?B - 1" by linarith
    then have "0 < length tks" using t(1) \<open>0 < ?B\<close> by (simp add: div_greater_zero_iff)
    then have ne: "signals_seen (be_libs env) tks ?p0 \<noteq> []" by (metis length_greater_0_conv length_signals_seen)
    then obtain rs rec where rs: "signals_seen (be_libs env) tks ?p0 = rs @ [rec]" by (metis rev_exhaust)
    then have "last_signal (bk_pipeline final) = rec" using history_last hist(1) by simp
    then show ?thesis using hist(2) rs by simp
  qed
  ultimately show ?thesis using hist t(1) us by (simp add: history_of_def)
qed

section \<open>How large the arena must be\<close>

lemma arena_capacity:
  assumes "unat mb < 2 ^ 40"
  shows "unat (align_up (mb * 1024 * 1024) 4096) = unat mb * 2 ^ 20"
proof -
  have "unat (mb * 1024) = unat mb * 1024" using assms by (simp add: unat_mult_no_wrap)
  then have m: "unat (mb * 1024 * 1024) = unat mb * 2 ^ 20" using assms by (simp add: unat_mult_no_wrap)
  have p: "is_pow2 (4096 :: u64)" using is_pow2I [of 12] by simp
  have "unat (align_up (mb * 1024 * 1024) 4096) = (unat mb * 2 ^ 20 + 4095) div 4096 * 4096"
    using unat_align_up [OF p, of "mb * 1024 * 1024"] m assms by simp
  also have "\<dots> = unat mb * 2 ^ 20" by simp
  finally show ?thesis .
qed

lemma book_fits:
  assumes "\<not> C < 256"
  shows "\<exists>book. LobSoA \<lparr>ar_capacity = C, ar_base = addr, ar_cursor = 0\<rparr> n_feed_instruments 1 =
    Some (book, \<lparr>ar_capacity = C, ar_base = addr, ar_cursor = 256\<rparr>)"
proof -
  have le: "256 \<le> C" using assms by simp
  have lt: "\<not> C < x" if "x \<le> 256" for x using that le by (meson leD le_less_trans order_trans)
  show ?thesis
    by (simp add: LobSoA_def n_feed_instruments_def Let_def alloc_def alloc_alignment_def align_up_def holo_simps
        float_type_def u32_type_def u64_type_def line_type_def lt)
qed

lemma setup_arena:
  assumes "unat (cli_arena_mb cli) < 2 ^ 40"
  obtains C where "unat C = unat (cli_arena_mb cli) * 2 ^ 20"
    and "MemoryArena addr (cli_arena_mb cli * 1024 * 1024) = \<lparr>ar_capacity = C, ar_base = addr, ar_cursor = 0\<rparr>"
proof
  let ?C = "align_up (cli_arena_mb cli * 1024 * 1024) 4096"
  show "unat ?C = unat (cli_arena_mb cli) * 2 ^ 20" by (rule arena_capacity [OF assms])
  show "MemoryArena addr (cli_arena_mb cli * 1024 * 1024) = \<lparr>ar_capacity = ?C, ar_base = addr, ar_cursor = 0\<rparr>"
    by (simp add: MemoryArena_def holo_simps)
qed

lemma ring_alloc: "alloc update_type 8388608 \<lparr>ar_capacity = C, ar_base = addr, ar_cursor = 256\<rparr> =
    (if C < 201326848 then (None, \<lparr>ar_capacity = C, ar_base = addr, ar_cursor = 256\<rparr>)
     else (Some (addr + 256), \<lparr>ar_capacity = C, ar_base = addr, ar_cursor = 201326848\<rparr>))"
  by (simp add: alloc_def alloc_alignment_def align_up_def update_type_def k_cache_line_def)

lemma large_arena:
  assumes "MemoryArena addr (cli_arena_mb cli * 1024 * 1024) = \<lparr>ar_capacity = C, ar_base = addr, ar_cursor = 0\<rparr>"
    and "\<not> C < 201326848"
  shows "\<exists>book ring a. backtest_setup addr cli = Some (book, ring, a) \<and> ring_ok ring \<and> ring_list ring = [] \<and>
    unat (usable_capacity ring) = 8388607"
proof -
  let ?a = "\<lparr>ar_capacity = C, ar_base = addr, ar_cursor = 256\<rparr>"
  have "\<not> C < 256" using assms(2) by (auto simp: word_less_nat_alt)
  from book_fits [OF this] obtain book where book: "LobSoA \<lparr>ar_capacity = C, ar_base = addr, ar_cursor = 0\<rparr> n_feed_instruments 1 =
      Some (book, ?a)" by blast
  obtain ring a where r: "DynamicSpscRingBuffer update_type zero_update ?a 8388608 = (ring, a)" by fastforce
  have ok: "ring_ok ring \<and> ring_list ring = [] \<and> slot_count ring = 2 ^ 23"
    using DynamicSpscRingBuffer_ok [of 23 update_type ?a "addr + 256" _ zero_update ring a] ring_alloc [of C addr] assms(2) r by simp
  then have "unat (usable_capacity ring) = 8388607" using usable_capacity_slots [of ring] by simp
  moreover have "backtest_setup addr cli = Some (book, ring, a)"
    unfolding backtest_setup_def assms(1) book option.case prod.case r ..
  ultimately show ?thesis using ok by blast
qed

lemma small_arena:
  assumes "MemoryArena addr (cli_arena_mb cli * 1024 * 1024) = \<lparr>ar_capacity = C, ar_base = addr, ar_cursor = 0\<rparr>"
    and C: "unat C = m * 2 ^ 20" "C < 201326848" and "backtest_setup addr cli = Some (book, ring, a)"
  shows "\<not> ring_ok ring"
proof (cases "C < 256")
  case True
  then have "unat C < 256" by (simp add: word_less_nat_alt)
  then have "C = 0" using C(1) by (cases m) (simp_all add: unat_eq_zero [symmetric])
  then have "LobSoA \<lparr>ar_capacity = C, ar_base = addr, ar_cursor = 0\<rparr> n_feed_instruments 1 = None"
    by (simp add: LobSoA_def n_feed_instruments_def Let_def alloc_def alloc_alignment_def align_up_def holo_simps float_type_def)
  then show ?thesis using assms(4) unfolding backtest_setup_def assms(1) by simp
next
  case small: False
  obtain bk where "LobSoA \<lparr>ar_capacity = C, ar_base = addr, ar_cursor = 0\<rparr> n_feed_instruments 1 =
      Some (bk, \<lparr>ar_capacity = C, ar_base = addr, ar_cursor = 256\<rparr>)" using book_fits [OF small] by blast
  then show ?thesis using assms(4) ring_alloc [of C addr] C(2)
    unfolding backtest_setup_def assms(1) by (auto simp: DynamicSpscRingBuffer_def alloc_span_def ring_ok_def)
qed

text \<open>
  The ring decides the arena size: the ring of the backtest exists exactly when \<open>--arena-mb\<close> is
  at least 193. Below that the span of slots is empty, which only an assertion that the release build
  omits would catch, and the first push writes outside it.
\<close>

theorem arena_needed:
  assumes "unat (cli_arena_mb cli) < 2 ^ 40"
  shows "(\<exists>book ring a. backtest_setup addr cli = Some (book, ring, a) \<and> ring_ok ring \<and>
       ring_list ring = [] \<and> unat (usable_capacity ring) = 8388607) \<longleftrightarrow> 193 \<le> unat (cli_arena_mb cli)"
proof -
  obtain C where C: "unat C = unat (cli_arena_mb cli) * 2 ^ 20"
    "MemoryArena addr (cli_arena_mb cli * 1024 * 1024) = \<lparr>ar_capacity = C, ar_base = addr, ar_cursor = 0\<rparr>"
    by (rule setup_arena [OF assms])
  have "C < 201326848 \<longleftrightarrow> \<not> 193 \<le> unat (cli_arena_mb cli)" using C(1) by (auto simp: word_less_nat_alt)
  then show ?thesis using large_arena [OF C(2)] small_arena [OF C(2,1)] by blast
qed

section \<open>A small run\<close>

definition demo_ring :: "LobUpdate ring" where
  "demo_ring = \<lparr>rb_capacity = 2, rb_mask = 1, rb_slots = [zero_update, zero_update], rb_head = 0, rb_tail = 0\<rparr>"

definition demo_book :: lob where
  "demo_book = \<lparr>lb_n_instruments = 4, lb_depth = 1, lb_total_slots = 8, lb_bid_prices = replicate 4 100,
     lb_ask_prices = replicate 4 100, lb_bid_qtys = replicate 4 0, lb_ask_qtys = replicate 4 0,
     lb_seq_nos = replicate 8 k_invalid_seq, lb_last_ts_ns = replicate 4 0,
     lb_stats = \<lparr>ls_total_updates = 0, ls_bid_updates = 0, ls_ask_updates = 0, ls_dropped_updates = 0\<rparr>, lb_seq = 0\<rparr>"

definition demo_env :: backtest_env where
  "demo_env = \<lparr>be_libs = demo_libs, be_alpha = 2 / 100, be_threshold = 10, be_batch = gpu_batch None, be_tick = demo_tick\<rparr>"

definition demo_row :: csv_row where
  "demo_row = \<lparr>cr_ts = 17, cr_instr = 3, cr_bid_price = (99, ''5''), cr_bid_qty = (1, ''''), cr_ask_price = (100, ''25''),
     cr_ask_qty = (2, '''')\<rparr>"

lemma demo_ring_ok: "ring_ok demo_ring" "ring_list demo_ring = []"
  by (auto simp: demo_ring_def ring_ok_def ring_list_def ring_len_def slot_count_def intro!: exI [of _ 1])

lemma demo_run_ends:
  obtains s where "bt_steps demo_env (start_run us demo_ring b) s" "rn_phase s = Exited"
  using run_ends [OF replay_inv_start [OF demo_ring_ok, of demo_env us b]] by (auto simp: start_run_def)

theorem backtest_sequential_witness:
  "\<exists>s. bt_steps demo_env (start_run [zero_update, zero_update, zero_update] demo_ring (start_backtest demo_book (demo_pipeline 4))) s \<and>
     rn_back s = (consume demo_env zero_update ^^ 3) (start_backtest demo_book (demo_pipeline 4))"
proof -
  let ?us = "[zero_update, zero_update, zero_update]" and ?b = "start_backtest demo_book (demo_pipeline 4)"
  obtain s where "bt_steps demo_env (start_run ?us demo_ring ?b) s" "rn_phase s = Exited" by (rule demo_run_ends)
  with backtest_sequential [OF demo_ring_ok this] show ?thesis by (auto simp: numeral_3_eq_3)
qed

theorem backtest_can_end_witness:
  "\<exists>s. bt_steps demo_env (start_run [zero_update] demo_ring (start_backtest demo_book (demo_pipeline 4))) s \<and>
     rn_phase s = Exited \<and> rn_back s = consume demo_env zero_update (start_backtest demo_book (demo_pipeline 4))"
  using backtest_can_end [OF demo_ring_ok rtranclp.rtrancl_refl, of demo_env "[zero_update]"] by simp

theorem backtest_signals_witness:
  "\<exists>s us m'. csv_run \<lparr>rp_mode = Fastest, rp_msgs_per_sec = 1, rp_max_gap_ms = 500\<rparr> (\<lambda>_. False) (Some (row_text demo_row))
       \<lparr>rp_rows_read = 0, rp_updates_pushed = 0, rp_updates_dropped = 0, rp_parse_errors = 0, rp_sleeps = [], rp_finished = False\<rparr> = (us, m') \<and>
     bt_steps demo_env (start_run us demo_ring (start_backtest demo_book (demo_pipeline 4))) s \<and> rn_phase s = Exited \<and>
     pl_write_idx (bk_pipeline (flush_batch demo_env (rn_back s))) = 1 \<and>
     sr_n_edges (last_signal (bk_pipeline (flush_batch demo_env (rn_back s)))) = 6"
proof -
  let ?cfg = "\<lparr>rp_mode = Fastest, rp_msgs_per_sec = 1, rp_max_gap_ms = 500\<rparr>"
  let ?m = "\<lparr>rp_rows_read = 0, rp_updates_pushed = 0, rp_updates_dropped = 0, rp_parse_errors = 0, rp_sleeps = [], rp_finished = False\<rparr>"
  let ?b = "start_backtest demo_book (demo_pipeline 4)"
  obtain us m' where c: "csv_run ?cfg (\<lambda>_. False) (Some (concat (map row_text [demo_row]))) ?m = (us, m')" by fastforce
  obtain s where s: "bt_steps demo_env (start_run us demo_ring ?b) s" "rn_phase s = Exited" by (rule demo_run_ends)
  have wf: "\<forall>row \<in> set [demo_row]. row_wf row"
    by (simp add: row_wf_def demo_row_def k_max_instruments_def is_digit_def dec_value_def digit_val_def)
  have B: "be_batch demo_env = 2048" by (simp add: demo_env_def gpu_batch_def)
  then have pos: "0 < be_batch demo_env" by simp
  have "2 * length [demo_row] < 2 ^ 64" by simp
  from backtest_signals [OF wf this c demo_ring_ok pos s(1) [unfolded demo_pipeline_def] s(2) refl] s c show ?thesis
    unfolding B by auto
qed

theorem arena_needed_witness:
  "(\<exists>book ring a. backtest_setup 4096 (default_args ''lob.csv'') = Some (book, ring, a) \<and> ring_ok ring \<and> ring_list ring = [])"
  using arena_needed [of "default_args ''lob.csv''" 4096] by (auto simp: default_args_def)

end
