(* ===== verification/Main_Live.thy ===== *)
theory Main_Live
  imports Signal_Graph Execution_Engine Ring_Buffer Lob_Core User_Data_Feed Binance_Feed Binance_Gateway
begin

text \<open>
  The live program (\<open>engine/app/main_live.cpp\<close>): its start, the listen key requests, the drain of
  the market data ring, the profit it prints, and the loop that turns signals into pairs of orders.

  The loop runs beside the pipeline, the book writer and the order threads. What one iteration reads
  of them is the record \<open>live_view\<close>: every read of the book while it handles edge \<open>i\<close> may see a
  different book. The coroutines it spawns are the pairs it appends; \<open>Execution_Engine\<close> models them.
  A division by a zero mid price is infinite in the code and zero here; the theorems ask for
  positive mid prices.
\<close>

section \<open>Start\<close>

definition order_size_usd :: dbl where "order_size_usd = 100"
definition max_position_usd :: dbl where "max_position_usd = 100000"

text \<open>
  \<open>fetch_listen_key\<close> and \<open>renew_listen_key\<close>: the response of the exchange is an argument, \<open>None\<close> is
  a connection that throws. The result \<open>None\<close> is an exception.
\<close>

definition fetch_listen_key :: "string option \<Rightarrow> string option" where
  "fetch_listen_key response = (case response of None \<Rightarrow> None | Some body \<Rightarrow> listen_key_of body)"

definition renew_listen_key :: "int option \<Rightarrow> bool" where
  "renew_listen_key status = (case status of None \<Rightarrow> False | Some st \<Rightarrow> st = 200)"

text \<open>The start of \<open>main\<close>: the exit code, or the credentials and the listen key it runs with.\<close>

datatype live_start = Stopped int | Started string string string

definition live_main :: "string option \<Rightarrow> string option \<Rightarrow> string option \<Rightarrow> live_start" where
  "live_main env_key env_secret response =
     (case (env_key, env_secret) of
        (Some key, Some secret) \<Rightarrow>
          (case fetch_listen_key response of None \<Rightarrow> Stopped 1 | Some listen_key \<Rightarrow> Started key secret listen_key)
      | _ \<Rightarrow> Stopped 1)"

section \<open>Market data\<close>

text \<open>
  The drain loops: pop and apply until the ring is empty. What the feed does to the ring between two
  pops is the argument \<open>env\<close>; \<open>None\<close> is a loop that never ends.
\<close>

partial_function (option) drain_ring ::
    "(nat \<Rightarrow> LobUpdate ring \<Rightarrow> LobUpdate ring) \<Rightarrow> nat \<Rightarrow> LobUpdate ring \<Rightarrow> lob \<Rightarrow> (LobUpdate ring \<times> lob) option" where
  "drain_ring env i r s =
     (case try_pop r of
        (Some u, r') \<Rightarrow> drain_ring env (Suc i) (env i r') (apply_lob u s)
      | (None, r') \<Rightarrow> Some (r', s))"

text \<open>The mark prices of the profit log.\<close>

definition live_mark :: "lob \<Rightarrow> string \<Rightarrow> dbl" where
  "live_mark s symbol =
     (if symbol = ''BTCUSDT'' then mid_price s 0
      else if symbol = ''ETHUSDT'' then mid_price s 1
      else if symbol = ''SOLUSDT'' then mid_price s 2
      else if symbol = ''BNBUSDT'' then mid_price s 3
      else 0)"

definition live_pnl :: "lob \<Rightarrow> engine \<Rightarrow> dbl \<times> nat" where
  "live_pnl s e = (total_pnl (live_mark s) (ee_pnl e), live_order_count (ee_oms e))"

section \<open>From a signal to orders\<close>

definition safe_maker_price :: "string \<Rightarrow> bool \<Rightarrow> dbl \<Rightarrow> dbl" where
  "safe_maker_price symbol is_buy touch_price =
     (let tick = ((\<lambda>t. t / 10) ^^ sp_price_decimals (precision_for symbol)) 1
      in if is_buy then touch_price - tick else touch_price + tick)"

record live_view =
  vw_signal :: SignalRecord
  vw_topology :: TopologySnapshot
  vw_threshold :: flt
  vw_halted :: bool
  vw_at_capacity :: bool
  vw_position :: "nat \<Rightarrow> string \<Rightarrow> dbl"
  vw_book :: "nat \<Rightarrow> nat \<Rightarrow> lob"
  vw_now :: u64
  vw_send_now :: "nat \<Rightarrow> u64"

record live =
  lv_last_sig_ts :: u64
  lv_router :: RouterMetrics
  lv_latency :: "histogram list"
  lv_spawned :: "(ArbLeg \<times> ArbLeg) list"

text \<open>The two legs of edge \<open>i\<close>, with the numbers of the reads of the book in the order of the code.\<close>

definition live_legs :: "(nat \<Rightarrow> lob) \<Rightarrow> RoutedEdge \<Rightarrow> ArbLeg \<times> ArbLeg" where
  "live_legs book edge =
     (let src = unat (re_src_instrument edge); dst = unat (re_dst_instrument edge);
          is_long = (re_harmonic_flow edge > 0);
          sym1 = k_symbols_upper ! src; sym2 = k_symbols_upper ! dst
      in (\<lparr>leg_symbol = sym1, leg_side = (if is_long then Buy else Sell),
           leg_qty = order_size_usd / mid_price (book 1) src,
           leg_price = safe_maker_price sym1 is_long (if is_long then best_bid (book 2) src else best_ask (book 2) src)\<rparr>,
          \<lparr>leg_symbol = sym2, leg_side = (if is_long then Sell else Buy),
           leg_qty = order_size_usd / mid_price (book 3) dst,
           leg_price = safe_maker_price sym2 (\<not> is_long) (if is_long then best_ask (book 4) dst else best_bid (book 4) dst)\<rparr>))"

definition live_edge :: "live_view \<Rightarrow> nat \<times> RoutedEdge \<Rightarrow> live \<Rightarrow> live" where
  "live_edge vw ie st =
     (case ie of (i, edge) \<Rightarrow>
        let src = unat (re_src_instrument edge);
            cur_pos1_qty = \<bar>vw_position vw i (k_symbols_upper ! src)\<bar>
        in if cur_pos1_qty * mid_price (vw_book vw i 0) src > max_position_usd then st
           else st\<lparr>lv_latency := record_stage SignalToOrderSend (vw_send_now vw i - sr_timestamp_ns (vw_signal vw)) (lv_latency st),
                   lv_spawned := lv_spawned st @ [live_legs (vw_book vw i) edge]\<rparr>)"

text \<open>One iteration of the loop after its sleep.\<close>

definition live_poll :: "live_view \<Rightarrow> live \<Rightarrow> live" where
  "live_poll vw st =
     (let sig = vw_signal vw
      in if sr_timestamp_ns sig \<noteq> lv_last_sig_ts st \<and> sr_timestamp_ns sig \<noteq> 0 then
           let st1 = st\<lparr>lv_last_sig_ts := sr_timestamp_ns sig,
                 lv_latency := record_stage PollWakeToSignalNoticed (vw_now vw - sr_timestamp_ns sig) (lv_latency st)\<rparr>
           in if ts_n_edges (vw_topology vw) > 0 then
                case route (topology_graph (vw_threshold vw) (vw_topology vw)) (sr_yang_mills_action sig) (sr_timestamp_ns sig)
                    (lv_router st1) of (edges, m) \<Rightarrow>
                  let st2 = st1\<lparr>lv_router := m\<rparr>
                  in if vw_halted vw \<or> vw_at_capacity vw then st2
                     else fold (live_edge vw) (enumerate 0 edges) st2
              else st1
         else st)"

section \<open>What is spawned\<close>

lemma drain_quiet:
  "ring_ok r \<Longrightarrow> \<exists>r'. drain_ring (\<lambda>_ q. q) i r s = Some (r', fold apply_lob (ring_list r) s) \<and> ring_ok r' \<and> ring_list r' = []"
proof (induction "ring_list r" arbitrary: r s i)
  case Nil
  then have "try_pop r = (None, r)" using dyn_ring.pop_Nil by metis
  then show ?case using Nil by (simp add: drain_ring.simps)
next
  case (Cons u us)
  then obtain r1 where r1: "try_pop r = (Some u, r1)" "ring_ok r1" "ring_list r1 = us"
    using dyn_ring.pop_Cons [OF Cons.prems Cons.hyps(2) [symmetric]] by auto
  from Cons.hyps(1) [OF r1(3) [symmetric] r1(2), of "Suc i" "apply_lob u s"] show ?case
    using r1 by (simp add: drain_ring.simps [of _ i] Cons.hyps(2) [symmetric])
qed

lemma maker_tick: "((\<lambda>t. t / 10) ^^ k) (1 :: dbl) = 1 / 10 ^ k"
  by (induction k) simp_all

lemma maker_price: "safe_maker_price symbol is_buy p =
    (if is_buy then p - 1 / 10 ^ sp_price_decimals (precision_for symbol) else p + 1 / 10 ^ sp_price_decimals (precision_for symbol))"
  by (simp add: safe_maker_price_def maker_tick)

definition within_limit :: "live_view \<Rightarrow> nat \<times> RoutedEdge \<Rightarrow> bool" where
  "within_limit vw ie \<longleftrightarrow> (case ie of (i, edge) \<Rightarrow>
     \<bar>vw_position vw i (k_symbols_upper ! unat (re_src_instrument edge))\<bar> *
       mid_price (vw_book vw i 0) (unat (re_src_instrument edge)) \<le> max_position_usd)"

lemma live_edges_spawned:
  "lv_spawned (fold (live_edge vw) ies st) =
     lv_spawned st @ map (\<lambda>(i, edge). live_legs (vw_book vw i) edge) (filter (within_limit vw) ies)"
  by (induction ies arbitrary: st) (auto simp: live_edge_def within_limit_def Let_def)

text \<open>The edges one iteration acts on.\<close>

definition poll_edges :: "live_view \<Rightarrow> live \<Rightarrow> RoutedEdge list" where
  "poll_edges vw st =
     (if sr_timestamp_ns (vw_signal vw) \<noteq> lv_last_sig_ts st \<and> sr_timestamp_ns (vw_signal vw) \<noteq> 0 \<and>
         ts_n_edges (vw_topology vw) > 0 \<and> \<not> vw_halted vw \<and> \<not> vw_at_capacity vw
      then fst (route (topology_graph (vw_threshold vw) (vw_topology vw)) (sr_yang_mills_action (vw_signal vw))
        (sr_timestamp_ns (vw_signal vw)) (lv_router st))
      else [])"

lemma live_poll_spawned:
  "lv_spawned (live_poll vw st) = lv_spawned st @
     map (\<lambda>(i, edge). live_legs (vw_book vw i) edge) (filter (within_limit vw) (enumerate 0 (poll_edges vw st)))"
  by (simp add: live_poll_def poll_edges_def Let_def live_edges_spawned split: prod.split)

text \<open>An order of the loop for instrument \<open>i\<close>: 100 dollars at the mid price, one tick behind the touch.\<close>

definition maker_leg :: "lob \<Rightarrow> nat \<Rightarrow> ArbLeg \<Rightarrow> bool" where
  "maker_leg s i l \<longleftrightarrow>
     (let tick = 1 / 10 ^ sp_price_decimals (precision_for (k_symbols_upper ! i))
      in leg_symbol l = k_symbols_upper ! i \<and> leg_qty l * mid_price s i = 100 \<and>
         leg_price l = (if leg_side l = Buy then best_bid s i - tick else best_ask s i + tick))"

lemma legs_ok:
  assumes "\<And>k. book k = s" and "0 < mid_price s (unat (re_src_instrument edge))" and "0 < mid_price s (unat (re_dst_instrument edge))"
    and "live_legs book edge = (l1, l2)"
  shows "maker_leg s (unat (re_src_instrument edge)) l1 \<and> maker_leg s (unat (re_dst_instrument edge)) l2 \<and>
    leg_side l2 = opposite (leg_side l1)"
proof -
  note defs = maker_leg_def live_legs_def Let_def order_size_usd_def maker_price opposite_def
  note a = assms(4) [unfolded defs, symmetric]
  show ?thesis using assms(1-3) a unfolding defs by (cases "re_harmonic_flow edge > 0") simp_all
qed

lemma symbols_distinct: "distinct k_symbols_upper" "length k_symbols_upper = 4"
  by (simp_all add: k_symbols_upper_def)

lemma distinct_pairs_filter:
  "distinct (concat (map (\<lambda>x. [f x, g x]) xs)) \<Longrightarrow> distinct (concat (map (\<lambda>x. [f x, g x]) (filter P xs)))"
  by (induction xs) auto

lemma poll_edges_ends:
  assumes "edges_among n (vw_topology vw)" and "n \<le> 2 ^ 32"
  shows "distinct (concat (map (\<lambda>re. [unat (re_src_instrument re), unat (re_dst_instrument re)]) (poll_edges vw st))) \<and>
    (\<forall>re \<in> set (poll_edges vw st). unat (re_src_instrument re) < n \<and> unat (re_dst_instrument re) < n)"
proof -
  let ?g = "topology_graph (vw_threshold vw) (vw_topology vw)" and ?sig = "vw_signal vw"
  obtain out m' where r: "route ?g (sr_yang_mills_action ?sig) (sr_timestamp_ns ?sig) (lv_router st) = (out, m')" by fastforce
  obtain es where es: "out = map (routed_edge ?g (sr_yang_mills_action ?sig) (sr_timestamp_ns ?sig)) es"
    "set es \<subseteq> {..<ts_n_edges (vw_topology vw)}"
    "distinct (concat (map (\<lambda>e. [fst (ts_edge (vw_topology vw) e), snd (ts_edge (vw_topology vw) e)]) es))"
    by (rule routed_edges [OF assms r])
  have ends: "unat (edge_src ?g e) = fst (ts_edge (vw_topology vw) e)" "unat (edge_dst ?g e) = snd (ts_edge (vw_topology vw) e)"
    "snd (ts_edge (vw_topology vw) e) < n" "fst (ts_edge (vw_topology vw) e) < n" if "e \<in> set es" for e
    using graph_ends(1,2) [OF assms, of e] es(2) that assms(1) by (auto simp: edges_among_def dest: less_trans)
  have "concat (map (\<lambda>re. [unat (re_src_instrument re), unat (re_dst_instrument re)]) out) =
      concat (map (\<lambda>e. [fst (ts_edge (vw_topology vw) e), snd (ts_edge (vw_topology vw) e)]) es)"
    unfolding es(1) map_map using ends by (intro arg_cong [where f = concat] map_cong) (auto simp: routed_edge_def)
  moreover have "\<forall>re \<in> set out. unat (re_src_instrument re) < n \<and> unat (re_dst_instrument re) < n"
    using ends unfolding es(1) by (auto simp: routed_edge_def)
  ultimately show ?thesis using es(3) r by (simp add: poll_edges_def)
qed

definition leg_ends :: "RoutedEdge \<Rightarrow> nat list" where
  "leg_ends re = [unat (re_src_instrument re), unat (re_dst_instrument re)]"

text \<open>On a book that does not move, the spawned pairs are those of some routed edges without a common end.\<close>

lemma live_poll_pairs:
  assumes edges: "edges_among 4 (vw_topology vw)" and quiet: "\<And>i k. vw_book vw i k = s"
  obtains res where "lv_spawned (live_poll vw st) = lv_spawned st @ map (live_legs (\<lambda>_. s)) res"
    and "distinct (concat (map leg_ends res))" and "set res \<subseteq> set (poll_edges vw st)"
    and "\<forall>re \<in> set res. unat (re_src_instrument re) < 4 \<and> unat (re_dst_instrument re) < 4"
proof
  let ?res = "map snd (filter (within_limit vw) (enumerate 0 (poll_edges vw st)))"
  note ends = poll_edges_ends [OF edges, of st]
  have "vw_book vw = (\<lambda>_ _. s)" using quiet by blast
  then show "lv_spawned (live_poll vw st) = lv_spawned st @ map (live_legs (\<lambda>_. s)) ?res"
    by (simp add: live_poll_spawned comp_def split_def)
  show sub: "set ?res \<subseteq> set (poll_edges vw st)" by (auto simp: in_set_enumerate_eq)
  then show "\<forall>re \<in> set ?res. unat (re_src_instrument re) < 4 \<and> unat (re_dst_instrument re) < 4" using ends by auto
  have "concat (map (leg_ends \<circ> snd) (enumerate 0 (poll_edges vw st))) = concat (map leg_ends (poll_edges vw st))"
    by (simp add: map_map [symmetric] del: map_map)
  then have "distinct (concat (map (\<lambda>x. [unat (re_src_instrument (snd x)), unat (re_dst_instrument (snd x))])
      (enumerate 0 (poll_edges vw st))))" using ends by (simp add: comp_def leg_ends_def [abs_def])
  from distinct_pairs_filter [OF this, of "within_limit vw"] show "distinct (concat (map leg_ends ?res))"
    by (simp add: leg_ends_def [abs_def] comp_def)
qed

lemma legs_symbols:
  assumes "distinct (concat (map leg_ends res))" and "\<forall>re \<in> set res. unat (re_src_instrument re) < 4 \<and> unat (re_dst_instrument re) < 4"
  shows "distinct (concat (map (\<lambda>(l1, l2). [leg_symbol l1, leg_symbol l2]) (map (live_legs (\<lambda>_. s)) res)))"
proof -
  have "concat (map (\<lambda>(l1, l2). [leg_symbol l1, leg_symbol l2]) (map (live_legs (\<lambda>_. s)) res)) =
      map (\<lambda>i. k_symbols_upper ! i) (concat (map leg_ends res))"
    unfolding map_concat map_map
    by (intro arg_cong [where f = concat] map_cong) (auto simp: live_legs_def Let_def leg_ends_def)
  moreover have "distinct (map (\<lambda>i. k_symbols_upper ! i) (concat (map leg_ends res)))"
    using assms symbols_distinct by (auto simp: distinct_map inj_on_def nth_eq_iff_index_eq leg_ends_def)
  ultimately show ?thesis by simp
qed

text \<open>
  (C9) What the live loop orders: on a book that does not move during one iteration it spawns at most two
  pairs of orders, no instrument occurs twice, the two orders of a pair have opposite sides, each is
  worth 100 dollars at the mid price, and every price is one tick behind the best price of its own
  side, so on an uncrossed book no order takes liquidity. A halted or full engine, a signal without edges or one
  already seen spawns nothing.
\<close>

theorem live_orders:
  assumes edges: "edges_among 4 (vw_topology vw)" and quiet: "\<And>i k. vw_book vw i k = s"
    and mid: "\<And>i. i < 4 \<Longrightarrow> 0 < mid_price s i" and spawned: "lv_spawned (live_poll vw st) = lv_spawned st @ pairs"
  shows "length pairs \<le> 2 \<and> distinct (concat (map (\<lambda>(l1, l2). [leg_symbol l1, leg_symbol l2]) pairs)) \<and>
    (\<forall>(l1, l2) \<in> set pairs. leg_side l2 = opposite (leg_side l1) \<and> (\<exists>i<4. maker_leg s i l1) \<and> (\<exists>j<4. maker_leg s j l2)) \<and>
    (vw_halted vw \<or> vw_at_capacity vw \<or> ts_n_edges (vw_topology vw) = 0 \<or>
       sr_timestamp_ns (vw_signal vw) = lv_last_sig_ts st \<longrightarrow> pairs = [])"
proof -
  obtain res where res: "lv_spawned (live_poll vw st) = lv_spawned st @ map (live_legs (\<lambda>_. s)) res"
    "distinct (concat (map leg_ends res))" "set res \<subseteq> set (poll_edges vw st)"
    and lt: "\<forall>re \<in> set res. unat (re_src_instrument re) < 4 \<and> unat (re_dst_instrument re) < 4"
    by (rule live_poll_pairs [OF edges quiet])
  have pairs: "pairs = map (live_legs (\<lambda>_. s)) res" using spawned res(1) by simp
  have "length pairs \<le> 2"
    using disjoint_pairs_bound [of "\<lambda>re. (unat (re_src_instrument re), unat (re_dst_instrument re))" res 4] res(2) lt
    by (simp add: pairs leg_ends_def [abs_def])
  moreover have "distinct (concat (map (\<lambda>(l1, l2). [leg_symbol l1, leg_symbol l2]) pairs))"
    unfolding pairs by (rule legs_symbols [OF res(2) lt])
  moreover have "case p of (l1, l2) \<Rightarrow> leg_side l2 = opposite (leg_side l1) \<and> (\<exists>i<4. maker_leg s i l1) \<and> (\<exists>j<4. maker_leg s j l2)"
    if "p \<in> set pairs" for p
  proof -
    obtain l1 l2 where p: "p = (l1, l2)" by fastforce
    then obtain re where re: "re \<in> set res" "live_legs (\<lambda>_. s) re = (l1, l2)" using \<open>p \<in> set pairs\<close> by (auto simp: pairs)
    with legs_ok [OF refl _ _ re(2)] mid lt show ?thesis unfolding p prod.case by blast
  qed
  moreover have "vw_halted vw \<or> vw_at_capacity vw \<or> ts_n_edges (vw_topology vw) = 0 \<or>
      sr_timestamp_ns (vw_signal vw) = lv_last_sig_ts st \<longrightarrow> pairs = []"
    using res(3) by (auto simp: pairs poll_edges_def)
  ultimately show ?thesis by blast
qed

text \<open>
  The position limit looks at the first instrument of a pair only: whatever the positions in all
  other instruments are, the same orders are spawned; and a routed edge is ordered exactly if the
  position in its first instrument is worth at most 100000 dollars.
\<close>

theorem limit_checks_first_leg:
  assumes "\<And>re i. re \<in> set (poll_edges vw st) \<Longrightarrow>
      p i (k_symbols_upper ! unat (re_src_instrument re)) = vw_position vw i (k_symbols_upper ! unat (re_src_instrument re))"
  shows "lv_spawned (live_poll (vw\<lparr>vw_position := p\<rparr>) st) = lv_spawned (live_poll vw st) \<and>
    lv_spawned (live_poll vw st) = lv_spawned st @ map (\<lambda>(i, re). live_legs (vw_book vw i) re)
      (filter (\<lambda>(i, re). \<bar>vw_position vw i (k_symbols_upper ! unat (re_src_instrument re))\<bar> *
         mid_price (vw_book vw i 0) (unat (re_src_instrument re)) \<le> 100000) (enumerate 0 (poll_edges vw st)))"
proof -
  have e: "poll_edges (vw\<lparr>vw_position := p\<rparr>) st = poll_edges vw st" by (simp add: poll_edges_def)
  have "filter (within_limit (vw\<lparr>vw_position := p\<rparr>)) (enumerate 0 (poll_edges vw st)) =
      filter (within_limit vw) (enumerate 0 (poll_edges vw st))"
    using assms by (intro filter_cong refl) (auto simp: within_limit_def in_set_enumerate_eq)
  then show ?thesis
    by (simp add: live_poll_spawned e) (simp add: within_limit_def [abs_def] max_position_usd_def)
qed

lemma nearest_even_below_half: "0 \<le> x \<Longrightarrow> x < 1 / 2 \<Longrightarrow> nearest_even x = 0"
  by (simp add: nearest_even_def floor_eq_iff [of x 0, THEN iffD2])

lemma nearest_even_one: "1 / 2 < x \<Longrightarrow> x < 3 / 2 \<Longrightarrow> nearest_even x = 1"
proof -
  assume x: "1 / 2 < x" "x < 3 / 2"
  then have "\<lfloor>x\<rfloor> = 0 \<or> \<lfloor>x\<rfloor> = 1" by linarith
  then show ?thesis using x by (auto simp: nearest_even_def Let_def)
qed

lemma digit_zero_one: "digit 0 = CHR ''0''" "digit (Suc 0) = CHR ''1''"
  by code_simp+

text \<open>
  (C40) The size of an order for SOLUSDT is lost in formatting: the gateway writes its quantity without
  decimals, so with a mid price above 200 dollars the order that should be worth 100 dollars is sent
  with quantity 0, and between 67 and 200 dollars it is sent as one whole unit.
\<close>

theorem sol_quantity_rounded:
  assumes "legs = live_legs (\<lambda>_. s) edge"
    and "l = fst legs \<and> re_src_instrument edge = 2 \<or> l = snd legs \<and> re_dst_instrument edge = 2"
    and "wire = format_decimal (leg_qty l) (sp_qty_decimals (precision_for (leg_symbol l)))"
  shows "leg_symbol l = ''SOLUSDT'' \<and> (200 < mid_price s 2 \<longrightarrow> wire = ''0'') \<and>
    (67 \<le> mid_price s 2 \<and> mid_price s 2 < 200 \<longrightarrow> wire = ''1'')"
proof -
  have l: "leg_symbol l = ''SOLUSDT''" "leg_qty l = 100 / mid_price s 2"
    using assms(1,2) by (auto simp: live_legs_def Let_def k_symbols_upper_def order_size_usd_def)
  have d: "sp_qty_decimals (precision_for ''SOLUSDT'') = 0"
    by (simp add: precision_for_def symbol_precision_table_def)
  have wire: "wire = (if leg_qty l < 0 then ''-'' else []) @ take 47 (to_string (nat (nearest_even \<bar>leg_qty l\<bar>)))"
    if "0 \<le> leg_qty l" using that by (simp add: assms(3) l(1) d format_decimal_def fixed_text_def)
  have "wire = ''0''" if "200 < mid_price s 2"
  proof -
    have "0 \<le> leg_qty l" "leg_qty l < 1 / 2" using that by (simp_all add: l field_simps)
    then show ?thesis using wire nearest_even_below_half by (simp add: to_string.simps digit_zero_one)
  qed
  moreover have "wire = ''1''" if "67 \<le> mid_price s 2" "mid_price s 2 < 200"
  proof -
    have "1 / 2 < leg_qty l" "leg_qty l < 3 / 2" using that by (simp_all add: l field_simps)
    then show ?thesis using wire nearest_even_one by (simp add: to_string.simps digit_zero_one)
  qed
  ultimately show ?thesis using l by simp
qed

section \<open>One iteration\<close>

definition poll_view :: live_view where
  "poll_view = \<lparr>vw_signal = empty_signal\<lparr>sr_timestamp_ns := 7, sr_yang_mills_action := 20, sr_n_edges := 6\<rparr>,
     vw_topology = \<lparr>ts_harmonic_flow = \<lambda>e. [12, -40, 3, 15, 0, 30] ! e,
       ts_edge = \<lambda>e. [(0, 1), (0, 2), (0, 3), (1, 2), (2, 3), (1, 3)] ! e, ts_n_edges = 6\<rparr>,
     vw_threshold = 10, vw_halted = False, vw_at_capacity = False, vw_position = \<lambda>_ _. 0,
     vw_book = \<lambda>_ _. \<lparr>lb_n_instruments = 4, lb_depth = 1, lb_total_slots = 8, lb_bid_prices = [99, 99, 249, 99],
       lb_ask_prices = [101, 101, 251, 101], lb_bid_qtys = [1, 1, 1, 1], lb_ask_qtys = [1, 1, 1, 1],
       lb_seq_nos = [0, 0, 0, 0, 0, 0, 0, 0], lb_last_ts_ns = [0, 0, 0, 0],
       lb_stats = \<lparr>ls_total_updates = 0, ls_bid_updates = 0, ls_ask_updates = 0, ls_dropped_updates = 0\<rparr>, lb_seq = 0\<rparr>,
     vw_now = 9, vw_send_now = \<lambda>_. 9\<rparr>"

definition demo_live :: live where
  "demo_live = \<lparr>lv_last_sig_ts = 0, lv_router = \<lparr>rm_signals_processed = 0, rm_edges_routed = 0, rm_signals_suppressed = 0\<rparr>,
     lv_latency = LatencyHistogram, lv_spawned = []\<rparr>"

lemma less_6: "(e :: nat) < 6 \<longleftrightarrow> e = 0 \<or> e = 1 \<or> e = 2 \<or> e = 3 \<or> e = 4 \<or> e = 5"
  by arith

lemma less_4: "(e :: nat) < 4 \<longleftrightarrow> e = 0 \<or> e = 1 \<or> e = 2 \<or> e = 3"
  by arith

lemma demo_edges: "edges_among 4 (vw_topology poll_view)"
  by (auto simp: edges_among_def poll_view_def less_6)

lemma demo_graph_value: "topology_graph (vw_threshold poll_view) (vw_topology poll_view) =
    \<lparr>fg_curl_flow = [12, -40, 3, 15, 0, 30], fg_edge_src = [0, 0, 0, 1, 2, 1], fg_edge_dst = [1, 2, 3, 2, 3, 3],
     fg_threshold = 10\<rparr>"
  by (simp add: topology_graph_def poll_view_def Let_def upt_conv_Cons)

lemma demo_slots: "fill_slots (topology_graph (vw_threshold poll_view) (vw_topology poll_view)) k_signal_router_top_k [] = [1, 5]"
proof -
  have k: "k_signal_router_top_k = Suc (Suc (Suc 0))" by (simp add: k_signal_router_top_k_def)
  show ?thesis
    unfolding demo_graph_value k by (simp add: upt_conv_Cons edge_open_def edge_strength_def edge_src_def edge_dst_def)
qed

lemma demo_poll: "map (\<lambda>re. (re_src_instrument re, re_dst_instrument re, re_harmonic_flow re)) (poll_edges poll_view demo_live) =
    [(0, 2, -40), (1, 3, 30)]"
proof -
  have "poll_edges poll_view demo_live = map (routed_edge (topology_graph (vw_threshold poll_view) (vw_topology poll_view)) 20 7) [1, 5]"
    using demo_slots by (simp add: poll_edges_def route_def Let_def)
      (simp add: poll_view_def demo_live_def topology_graph_def Let_def)
  then show ?thesis unfolding demo_graph_value by (simp add: routed_edge_def edge_src_def edge_dst_def)
qed

theorem live_orders_witness:
  "map (\<lambda>(l1, l2). (leg_symbol l1, leg_side l1, leg_price l1, leg_symbol l2, leg_side l2, leg_price l2))
     (lv_spawned (live_poll poll_view demo_live)) =
   [(''BTCUSDT'', Sell, 101 + 1 / 10, ''SOLUSDT'', Buy, 249 - 1 / 1000), (''ETHUSDT'', Buy, 99 - 1 / 100, ''BNBUSDT'', Sell, 101 + 1 / 100)] \<and>
   map (\<lambda>(l1, l2). leg_side l2) (lv_spawned (live_poll poll_view demo_live)) =
     map (\<lambda>(l1, l2). opposite (leg_side l1)) (lv_spawned (live_poll poll_view demo_live)) \<and>
   lv_spawned (live_poll (poll_view\<lparr>vw_halted := True\<rparr>) demo_live) = []"
proof -
  let ?s = "vw_book poll_view 0 0"
  have quiet: "vw_book poll_view i k = ?s" for i k by (simp add: poll_view_def)
  have mid: "0 < mid_price ?s i" if "i < 4" for i
    using that by (auto simp: less_4 poll_view_def mid_price_def)
  have nil: "lv_spawned demo_live = []" by (simp add: demo_live_def)
  have a: "map (\<lambda>(l1, l2). leg_side l2) (lv_spawned (live_poll poll_view demo_live)) =
      map (\<lambda>(l1, l2). opposite (leg_side l1)) (lv_spawned (live_poll poll_view demo_live))"
    using live_orders [OF demo_edges quiet mid, of demo_live "lv_spawned (live_poll poll_view demo_live)"] nil by auto
  have b: "lv_spawned (live_poll (poll_view\<lparr>vw_halted := True\<rparr>) demo_live) = []"
    using live_orders [of "poll_view\<lparr>vw_halted := True\<rparr>" ?s demo_live "lv_spawned (live_poll (poll_view\<lparr>vw_halted := True\<rparr>) demo_live)"]
      demo_edges mid nil by (simp add: poll_view_def)
  obtain r1 r2 where r: "poll_edges poll_view demo_live = [r1, r2]"
    "(re_src_instrument r1, re_dst_instrument r1, re_harmonic_flow r1) = (0, 2, -40)"
    "(re_src_instrument r2, re_dst_instrument r2, re_harmonic_flow r2) = (1, 3, 30)"
    using demo_poll by (auto simp: Cons_eq_map_conv map_eq_Cons_conv)
  have "lv_spawned (live_poll poll_view demo_live) = [live_legs (\<lambda>_. ?s) r1, live_legs (\<lambda>_. ?s) r2]"
    by (simp add: live_poll_spawned nil r(1) within_limit_def) (simp add: poll_view_def max_position_usd_def)
  then show ?thesis
    using a b r(2,3) by (simp add: live_legs_def Let_def k_symbols_upper_def maker_price precision_for_def
        symbol_precision_table_def poll_view_def best_bid_def best_ask_def)
qed

text \<open>A position of a million BNB does not stop an order in BNBUSDT.\<close>

theorem limit_checks_first_leg_witness:
  "length (lv_spawned (live_poll (poll_view\<lparr>vw_position := \<lambda>_ symbol. if symbol = ''BNBUSDT'' then 1000000 else 0\<rparr>) demo_live)) = 2"
proof -
  have src: "unat (re_src_instrument re) = 0 \<or> unat (re_src_instrument re) = 1" if "re \<in> set (poll_edges poll_view demo_live)" for re
  proof -
    have "(re_src_instrument re, re_dst_instrument re, re_harmonic_flow re) \<in> set [(0, 2, -40), (1, 3, 30)]"
      unfolding demo_poll [symmetric] using that by auto
    then show ?thesis by auto
  qed
  have len: "length (poll_edges poll_view demo_live) = 2"
    using demo_poll [THEN arg_cong [where f = length]] by simp
  have "filter (\<lambda>(i, re). \<bar>vw_position poll_view i (k_symbols_upper ! unat (re_src_instrument re))\<bar> *
         mid_price (vw_book poll_view i 0) (unat (re_src_instrument re)) \<le> 100000) (enumerate 0 (poll_edges poll_view demo_live)) =
      enumerate 0 (poll_edges poll_view demo_live)"
    by (intro filter_True) (auto simp: poll_view_def)
  moreover have "(if k_symbols_upper ! unat (re_src_instrument re) = ''BNBUSDT'' then 1000000 else 0) =
      vw_position poll_view i (k_symbols_upper ! unat (re_src_instrument re))"
    if "re \<in> set (poll_edges poll_view demo_live)" for re i
  proof -
    have "k_symbols_upper ! unat (re_src_instrument re) \<noteq> ''BNBUSDT''"
      using src [OF that] by (auto simp: k_symbols_upper_def)
    then show ?thesis by (simp add: poll_view_def)
  qed
  note limit_checks_first_leg [of poll_view demo_live "\<lambda>_ symbol. if symbol = ''BNBUSDT'' then 1000000 else 0", OF this]
  moreover have "lv_spawned demo_live = []" by (simp add: demo_live_def)
  ultimately show ?thesis using len by simp
qed

theorem sol_quantity_rounded_witness:
  "format_decimal (leg_qty (snd (live_legs (\<lambda>_. vw_book poll_view 0 0) (hd (poll_edges poll_view demo_live))))) 0 = ''0''"
proof -
  have "re_dst_instrument (hd (poll_edges poll_view demo_live)) = 2"
    using demo_poll by (cases "poll_edges poll_view demo_live") auto
  moreover have "200 < mid_price (vw_book poll_view 0 0) 2" by (simp add: poll_view_def mid_price_def)
  moreover have "sp_qty_decimals (precision_for ''SOLUSDT'') = 0"
    by (simp add: precision_for_def symbol_precision_table_def)
  ultimately show ?thesis
    using sol_quantity_rounded [OF refl disjI2 refl, where l = "snd (live_legs (\<lambda>_. vw_book poll_view 0 0) (hd (poll_edges poll_view demo_live)))"
        and s = "vw_book poll_view 0 0" and edge = "hd (poll_edges poll_view demo_live)"]
    by auto
qed

end
