(* ===== verification/Ring_Concurrency.thy ===== *)
theory Ring_Concurrency
  imports Ring_Buffer
begin

text \<open>
  The single memory accesses of \<open>try_push\<close> and \<open>try_pop\<close> of \<open>DynamicSpscRingBuffer\<close>
  (\<open>engine/core/lockfree_ring_buffer.hpp\<close>), interleaved in any order by one producer and one consumer.
  A thread is the position inside its current call with the values it has loaded; an access of the
  two indices or of a slot is one step. The memory is sequentially consistent: each thread alone
  writes its own index, and the release store of an index after the slot access, read by the other
  side with acquire, orders everything the proof needs.

  The abstract specification is the same queue with atomic calls (\<open>Ring_Buffer\<close>): \<open>atomic_run\<close>
  replays a trace of completed calls on it and demands the same results.
\<close>

section \<open>Threads\<close>

datatype 'a producer =
    PIdle
  | PHead 'a u64
  | PRoom 'a u64
  | PWritten 'a u64

datatype 'a consumer =
    CIdle
  | CTail u64
  | CItem u64
  | CRead u64 'a

record 'a ring_run =
  rr_ring :: "'a ring"
  rr_producer :: "'a producer"
  rr_consumer :: "'a consumer"

datatype 'a call = Pushed 'a bool | Popped "'a option"

text \<open>A step with the call it completes, if any. The producer may push any item at any time.\<close>

inductive access :: "'a ring_run \<Rightarrow> 'a call list \<Rightarrow> 'a ring_run \<Rightarrow> bool" where
  push_load_head: "rr_producer s = PIdle \<Longrightarrow>
    access s [] (s\<lparr>rr_producer := PHead x (rb_head (rr_ring s))\<rparr>)"
| push_load_tail_full: "rr_producer s = PHead x h \<Longrightarrow> (h + 1) AND rb_mask (rr_ring s) = rb_tail (rr_ring s) \<Longrightarrow>
    access s [Pushed x False] (s\<lparr>rr_producer := PIdle\<rparr>)"
| push_load_tail: "rr_producer s = PHead x h \<Longrightarrow> (h + 1) AND rb_mask (rr_ring s) \<noteq> rb_tail (rr_ring s) \<Longrightarrow>
    access s [] (s\<lparr>rr_producer := PRoom x h\<rparr>)"
| push_store_slot: "rr_producer s = PRoom x h \<Longrightarrow>
    access s [] (s\<lparr>rr_ring := (rr_ring s)\<lparr>rb_slots := (rb_slots (rr_ring s))[unat h := x]\<rparr>, rr_producer := PWritten x h\<rparr>)"
| push_store_head: "rr_producer s = PWritten x h \<Longrightarrow>
    access s [Pushed x True]
      (s\<lparr>rr_ring := (rr_ring s)\<lparr>rb_head := (h + 1) AND rb_mask (rr_ring s)\<rparr>, rr_producer := PIdle\<rparr>)"
| pop_load_tail: "rr_consumer s = CIdle \<Longrightarrow>
    access s [] (s\<lparr>rr_consumer := CTail (rb_tail (rr_ring s))\<rparr>)"
| pop_load_head_empty: "rr_consumer s = CTail t \<Longrightarrow> t = rb_head (rr_ring s) \<Longrightarrow>
    access s [Popped None] (s\<lparr>rr_consumer := CIdle\<rparr>)"
| pop_load_head: "rr_consumer s = CTail t \<Longrightarrow> t \<noteq> rb_head (rr_ring s) \<Longrightarrow>
    access s [] (s\<lparr>rr_consumer := CItem t\<rparr>)"
| pop_load_slot: "rr_consumer s = CItem t \<Longrightarrow>
    access s [] (s\<lparr>rr_consumer := CRead t (rb_slots (rr_ring s) ! unat t)\<rparr>)"
| pop_store_tail: "rr_consumer s = CRead t y \<Longrightarrow>
    access s [Popped (Some y)]
      (s\<lparr>rr_ring := (rr_ring s)\<lparr>rb_tail := (t + 1) AND rb_mask (rr_ring s)\<rparr>, rr_consumer := CIdle\<rparr>)"

text \<open>Runs, with the trace of the calls in the order of their completion.\<close>

inductive accesses :: "'a ring_run \<Rightarrow> 'a call list \<Rightarrow> 'a ring_run \<Rightarrow> bool" where
  no_access: "accesses s [] s"
| more_accesses: "accesses s tr s' \<Longrightarrow> access s' c s'' \<Longrightarrow> accesses s (tr @ c) s''"

definition idle_run :: "'a ring \<Rightarrow> 'a ring_run" where
  "idle_run r = \<lparr>rr_ring = r, rr_producer = PIdle, rr_consumer = CIdle\<rparr>"

text \<open>The specification: the calls one after the other, with the results of the trace.\<close>

fun atomic_run :: "'a call list \<Rightarrow> 'a ring \<Rightarrow> 'a ring option" where
  "atomic_run [] r = Some r"
| "atomic_run (Pushed x ok # tr) r =
     (case try_push x r of (b, r') \<Rightarrow> if b = ok then atomic_run tr r' else None)"
| "atomic_run (Popped res # tr) r =
     (case try_pop r of (y, r') \<Rightarrow> if y = res then atomic_run tr r' else None)"

lemma atomic_run_append: "atomic_run (tr @ tr') r = Option.bind (atomic_run tr r) (atomic_run tr')"
  by (induction tr r rule: atomic_run.induct) (auto split: prod.split)

section \<open>The accesses on the contents\<close>

lemma slot_store_unseen:
  assumes "ring_ok r"
  shows "ring_list (r\<lparr>rb_slots := (rb_slots r)[unat (rb_head r) := x]\<rparr>) = ring_list r"
    and "ring_ok (r\<lparr>rb_slots := (rb_slots r)[unat (rb_head r) := x]\<rparr>)"
    and "slot_count (r\<lparr>rb_slots := (rb_slots r)[unat (rb_head r) := x]\<rparr>) = slot_count r"
proof -
  let ?r = "r\<lparr>rb_slots := (rb_slots r)[unat (rb_head r) := x]\<rparr>"
  show n: "slot_count ?r = slot_count r" by (simp add: slot_count_def)
  show "ring_ok ?r" using assms by (simp add: ring_ok_def)
  have b: "unat (rb_head r) < slot_count r" "unat (rb_tail r) < slot_count r"
    using assms by (auto elim: ring_okE)
  have len: "ring_len ?r = ring_len r" using n by (simp add: ring_len_def)
  show "ring_list ?r = ring_list r"
    unfolding ring_list_def len n
  proof (rule map_cong [OF refl], goal_cases)
    case (1 i)
    then have "(unat (rb_tail r) + i) mod slot_count r \<noteq> unat (rb_head r)"
      using circ_index_head(2) [OF b] by (simp add: ring_len_def)
    then show ?case by simp
  qed
qed

lemma head_store_push:
  assumes "ring_ok r" and "ring_len r < slot_count r - 1" and "rb_slots r ! unat (rb_head r) = x"
  shows "try_push x r = (True, r\<lparr>rb_head := (rb_head r + 1) AND rb_mask r\<rparr>)"
proof -
  have "(rb_slots r)[unat (rb_head r) := x] = rb_slots r" using assms(3) by (metis list_update_id)
  then show ?thesis using full_iff(1) [OF assms(1)] assms(2) by (simp add: try_push_def Let_def)
qed

lemma tail_store_pop:
  assumes "ring_ok r" and "ring_len r \<noteq> 0"
  shows "try_pop r = (Some (rb_slots r ! unat (rb_tail r)), r\<lparr>rb_tail := (rb_tail r + 1) AND rb_mask r\<rparr>)"
  using full_iff(2) [OF assms(1)] assms(2) by (simp add: try_pop_def Let_def)

section \<open>The invariant\<close>

definition producer_ok :: "'a ring \<Rightarrow> 'a producer \<Rightarrow> bool" where
  "producer_ok r p \<longleftrightarrow> (case p of
     PIdle \<Rightarrow> True
   | PHead x h \<Rightarrow> h = rb_head r
   | PRoom x h \<Rightarrow> h = rb_head r \<and> ring_len r < slot_count r - 1
   | PWritten x h \<Rightarrow> h = rb_head r \<and> ring_len r < slot_count r - 1 \<and> rb_slots r ! unat h = x)"

definition consumer_ok :: "'a ring \<Rightarrow> 'a consumer \<Rightarrow> bool" where
  "consumer_ok r c \<longleftrightarrow> (case c of
     CIdle \<Rightarrow> True
   | CTail t \<Rightarrow> t = rb_tail r
   | CItem t \<Rightarrow> t = rb_tail r \<and> ring_len r \<noteq> 0
   | CRead t y \<Rightarrow> t = rb_tail r \<and> ring_len r \<noteq> 0 \<and> rb_slots r ! unat t = y)"

definition ring_run_ok :: "'a ring_run \<Rightarrow> bool" where
  "ring_run_ok s \<longleftrightarrow> ring_ok (rr_ring s) \<and> producer_ok (rr_ring s) (rr_producer s) \<and> consumer_ok (rr_ring s) (rr_consumer s)"

lemma ring_len_list: "ring_len r = length (ring_list r)"
  by simp

text \<open>What the other side's accesses leave of a thread's knowledge.\<close>

lemma push_keeps_consumer:
  assumes "ring_ok r" and "consumer_ok r c" and "try_push x r = (True, r')"
  shows "consumer_ok r' c"
proof -
  have "ring_len r < slot_count r - 1" using assms(1,3) dyn_ring.push_cases [OF assms(1,3)] by simp
  then obtain r1 where r1: "try_push x r = (True, r1)" "ring_list r1 = ring_list r @ [x]" "rb_tail r1 = rb_tail r"
    by (rule try_push_room [OF assms(1)])
  have slots: "rb_slots r' = (rb_slots r)[unat (rb_head r) := x]"
    using assms(3) by (auto simp: try_push_def Let_def split: if_splits)
  have "rb_slots r' ! unat (rb_tail r) = rb_slots r ! unat (rb_tail r)" if "ring_len r \<noteq> 0"
    using that full_iff(2) [OF assms(1)] by (simp add: slots word_unat_eq_iff)
  moreover have "ring_len r' \<noteq> 0" using r1 assms(3) by (metis ring_len_list append_is_Nil_conv length_0_conv not_Cons_self2 prod.inject)
  ultimately show ?thesis using assms(2,3) r1 by (auto simp: consumer_ok_def split: consumer.splits)
qed

lemma pop_keeps_producer:
  assumes "ring_ok r" and "producer_ok r p" and "try_pop r = (Some y, r')"
  shows "producer_ok r' p"
proof -
  have "ring_len r \<noteq> 0"
    using dyn_ring.pop_cases [OF assms(1,3)] by (simp add: ring_len_list del: length_ring_list)
  then obtain r1 where r1: "try_pop r = (Some (hd (ring_list r)), r1)" "slot_count r1 = slot_count r"
    "ring_list r1 = tl (ring_list r)" "rb_head r1 = rb_head r"
    by (rule try_pop_nonempty [OF assms(1)])
  have "rb_slots r' = rb_slots r" using assms(3) by (auto simp: try_pop_def Let_def split: if_splits)
  moreover have "ring_len r' = ring_len r - 1" using r1 assms(3) by (simp add: ring_len_list del: length_ring_list)
  ultimately show ?thesis using assms(2,3) r1 by (auto simp: producer_ok_def split: producer.splits)
qed

lemma slot_store_keeps_consumer:
  assumes "ring_ok r" and "consumer_ok r c"
  shows "consumer_ok (r\<lparr>rb_slots := (rb_slots r)[unat (rb_head r) := x]\<rparr>) c"
proof -
  have "ring_len (r\<lparr>rb_slots := (rb_slots r)[unat (rb_head r) := x]\<rparr>) = ring_len r"
    using slot_store_unseen(3) [OF assms(1)] by (simp add: ring_len_def)
  moreover have "unat (rb_tail r) \<noteq> unat (rb_head r)" if "ring_len r \<noteq> 0"
    using that full_iff(2) [OF assms(1)] by (simp add: word_unat_eq_iff)
  ultimately show ?thesis using assms(2) by (auto simp: consumer_ok_def split: consumer.splits)
qed

section \<open>Every interleaving is an atomic one\<close>

text \<open>
  One access: it keeps the invariant, and either completes no call and leaves the contents, or
  completes the call it reports exactly as the atomic operation would at this moment.
\<close>

definition access_ok :: "'a ring_run \<Rightarrow> 'a call list \<Rightarrow> 'a ring_run \<Rightarrow> bool" where
  "access_ok s c s' \<longleftrightarrow> ring_run_ok s' \<and> slot_count (rr_ring s') = slot_count (rr_ring s) \<and>
    (\<exists>r'. atomic_run c (rr_ring s) = Some r' \<and> ring_list r' = ring_list (rr_ring s'))"

lemma slot_store_ok:
  assumes "rr_producer s = PRoom x h" and "ring_run_ok s"
  shows "access_ok s [] (s\<lparr>rr_ring := (rr_ring s)\<lparr>rb_slots := (rb_slots (rr_ring s))[unat h := x]\<rparr>, rr_producer := PWritten x h\<rparr>)"
proof -
  from assms have ok: "ring_ok (rr_ring s)" "h = rb_head (rr_ring s)" "ring_len (rr_ring s) < slot_count (rr_ring s) - 1"
    "consumer_ok (rr_ring s) (rr_consumer s)" by (simp_all add: ring_run_ok_def producer_ok_def)
  let ?r = "(rr_ring s)\<lparr>rb_slots := (rb_slots (rr_ring s))[unat h := x]\<rparr>"
  have "unat h < length (rb_slots (rr_ring s))" using ok(1,2) by (auto simp: slot_count_def elim: ring_okE)
  then have "rb_slots ?r ! unat h = x" by simp
  moreover note slot_store_unseen [OF ok(1), of x, folded ok(2)] slot_store_keeps_consumer [OF ok(1,4), of x, folded ok(2)]
  moreover from this have "ring_len ?r = ring_len (rr_ring s)" by (metis ring_len_list)
  ultimately show ?thesis using ok by (simp add: access_ok_def ring_run_ok_def producer_ok_def)
qed

lemma head_store_ok:
  assumes "rr_producer s = PWritten x h" and "ring_run_ok s"
  shows "access_ok s [Pushed x True] (s\<lparr>rr_ring := (rr_ring s)\<lparr>rb_head := (h + 1) AND rb_mask (rr_ring s)\<rparr>, rr_producer := PIdle\<rparr>)"
proof -
  from assms have ok: "ring_ok (rr_ring s)" "h = rb_head (rr_ring s)" "ring_len (rr_ring s) < slot_count (rr_ring s) - 1"
    "rb_slots (rr_ring s) ! unat h = x" "consumer_ok (rr_ring s) (rr_consumer s)"
    by (auto simp: ring_run_ok_def producer_ok_def)
  let ?r = "(rr_ring s)\<lparr>rb_head := (h + 1) AND rb_mask (rr_ring s)\<rparr>"
  have p: "try_push x (rr_ring s) = (True, ?r)" using head_store_push [OF ok(1,3)] ok(2,4) by simp
  have "slot_count ?r = slot_count (rr_ring s)" by (simp add: slot_count_def)
  then show ?thesis
    using p dyn_ring.push_cases [OF ok(1) p] push_keeps_consumer [OF ok(1,5) p]
    by (simp add: access_ok_def ring_run_ok_def producer_ok_def)
qed

lemma tail_store_ok:
  assumes "rr_consumer s = CRead t y" and "ring_run_ok s"
  shows "access_ok s [Popped (Some y)] (s\<lparr>rr_ring := (rr_ring s)\<lparr>rb_tail := (t + 1) AND rb_mask (rr_ring s)\<rparr>, rr_consumer := CIdle\<rparr>)"
proof -
  from assms have ok: "ring_ok (rr_ring s)" "t = rb_tail (rr_ring s)" "ring_len (rr_ring s) \<noteq> 0"
    "rb_slots (rr_ring s) ! unat t = y" "producer_ok (rr_ring s) (rr_producer s)"
    by (auto simp: ring_run_ok_def consumer_ok_def)
  let ?r = "(rr_ring s)\<lparr>rb_tail := (t + 1) AND rb_mask (rr_ring s)\<rparr>"
  have p: "try_pop (rr_ring s) = (Some y, ?r)" using tail_store_pop [OF ok(1,3)] ok(2,4) by simp
  have "slot_count ?r = slot_count (rr_ring s)" by (simp add: slot_count_def)
  then show ?thesis
    using p dyn_ring.pop_cases [OF ok(1) p] pop_keeps_producer [OF ok(1,5) p]
    by (simp add: access_ok_def ring_run_ok_def consumer_ok_def)
qed

lemma access_refines:
  assumes "access s c s'" and "ring_run_ok s"
  shows "ring_run_ok s' \<and> slot_count (rr_ring s') = slot_count (rr_ring s) \<and>
    (\<exists>r'. atomic_run c (rr_ring s) = Some r' \<and> ring_list r' = ring_list (rr_ring s'))"
  using assms
proof (induction rule: access.induct)
  case (push_load_head s x)
  then show ?case by (simp add: ring_run_ok_def producer_ok_def)
next
  case (push_load_tail_full s x h)
  then have "try_push x (rr_ring s) = (False, rr_ring s)"
    by (simp add: ring_run_ok_def producer_ok_def try_push_def)
  then show ?case using push_load_tail_full by (simp add: ring_run_ok_def producer_ok_def)
next
  case (push_load_tail s x h)
  then have ok: "ring_ok (rr_ring s)" "h = rb_head (rr_ring s)" by (simp_all add: ring_run_ok_def producer_ok_def)
  then have "ring_len (rr_ring s) < slot_count (rr_ring s) - 1"
    using push_load_tail(2) full_iff(1) [OF ok(1)] dyn_ring.bounded [OF ok(1)] by simp
  then show ?case using push_load_tail ok by (simp add: ring_run_ok_def producer_ok_def)
next
  case (push_store_slot s x h)
  show ?case using slot_store_ok [OF push_store_slot] by (simp only: access_ok_def)
next
  case (push_store_head s x h)
  show ?case using head_store_ok [OF push_store_head] by (simp only: access_ok_def)
next
  case (pop_load_tail s)
  then show ?case by (simp add: ring_run_ok_def consumer_ok_def)
next
  case (pop_load_head_empty s t)
  then have "try_pop (rr_ring s) = (None, rr_ring s)"
    by (simp add: ring_run_ok_def consumer_ok_def try_pop_def)
  then show ?case using pop_load_head_empty by (simp add: ring_run_ok_def consumer_ok_def)
next
  case (pop_load_head s t)
  then have ok: "ring_ok (rr_ring s)" "t = rb_tail (rr_ring s)" by (simp_all add: ring_run_ok_def consumer_ok_def)
  then show ?case using pop_load_head full_iff(2) [OF ok(1)] by (simp add: ring_run_ok_def consumer_ok_def)
next
  case (pop_load_slot s t)
  then show ?case by (simp add: ring_run_ok_def consumer_ok_def)
next
  case (pop_store_tail s t y)
  show ?case using tail_store_ok [OF pop_store_tail] by (simp only: access_ok_def)
qed

text \<open>The results of the atomic operations depend on the contents and the room only.\<close>

lemma atomic_run_contents:
  "ring_ok r \<Longrightarrow> ring_ok q \<Longrightarrow> ring_list r = ring_list q \<Longrightarrow> slot_count r = slot_count q \<Longrightarrow> atomic_run tr r = Some r' \<Longrightarrow>
     \<exists>q'. atomic_run tr q = Some q' \<and> ring_ok r' \<and> ring_ok q' \<and> ring_list q' = ring_list r' \<and> slot_count q' = slot_count r' \<and>
       slot_count r' = slot_count r"
proof (induction tr r arbitrary: q rule: atomic_run.induct)
  case (2 x ok tr r)
  obtain b r1 where p: "try_push x r = (b, r1)" by fastforce
  obtain b' q1 where p': "try_push x q = (b', q1)" by fastforce
  note c = dyn_ring.push_cases [OF 2(2) p] dyn_ring.push_cases [OF 2(3) p']
  have n: "slot_count r1 = slot_count r" "slot_count q1 = slot_count q"
    using p p' by (auto simp: try_push_def Let_def slot_count_def split: if_splits)
  have "b' = b" "ring_list r1 = ring_list q1" using c 2(4,5) by auto
  with 2(1) [OF p [symmetric] _ _ _ _ _, of q1] 2(5,6) c n p p' show ?case by (auto split: if_splits)
next
  case (3 res tr r)
  obtain y r1 where p: "try_pop r = (y, r1)" by fastforce
  obtain y' q1 where p': "try_pop q = (y', q1)" by fastforce
  note c = dyn_ring.pop_cases [OF 3(2) p] dyn_ring.pop_cases [OF 3(3) p']
  have n: "slot_count r1 = slot_count r" "slot_count q1 = slot_count q"
    using p p' by (auto simp: try_pop_def Let_def slot_count_def split: if_splits)
  have "y' = y \<and> ring_list r1 = ring_list q1" using c 3(4) by (cases y; cases y') auto
  with 3(1) [OF p [symmetric] _ _ _ _ _, of q1] 3(5,6) c n p p' show ?case by (auto split: if_splits)
qed auto

lemma accesses_refine:
  "accesses s tr s' \<Longrightarrow> ring_run_ok s \<Longrightarrow>
     ring_run_ok s' \<and> slot_count (rr_ring s') = slot_count (rr_ring s) \<and>
     (\<exists>r'. atomic_run tr (rr_ring s) = Some r' \<and> ring_list r' = ring_list (rr_ring s') \<and> ring_ok r' \<and>
       slot_count r' = slot_count (rr_ring s))"
proof (induction rule: accesses.induct)
  case (no_access s)
  then show ?case by (simp add: ring_run_ok_def)
next
  case (more_accesses s tr s1 c s2)
  then obtain r1 where r1: "atomic_run tr (rr_ring s) = Some r1" "ring_list r1 = ring_list (rr_ring s1)" "ring_ok r1"
    "slot_count r1 = slot_count (rr_ring s1)" and ok: "ring_run_ok s1" "slot_count (rr_ring s1) = slot_count (rr_ring s)" by auto
  note a = access_refines [OF more_accesses(2) ok(1)]
  then obtain r' where r': "atomic_run c (rr_ring s1) = Some r'" "ring_list r' = ring_list (rr_ring s2)" by blast
  have "ring_ok (rr_ring s1)" using ok(1) by (simp add: ring_run_ok_def)
  from atomic_run_contents [OF this r1(3) r1(2) [symmetric] r1(4) [symmetric] r'(1)] obtain q where
    "atomic_run c r1 = Some q" "ring_list q = ring_list r'" "ring_ok q" "slot_count q = slot_count (rr_ring s1)" by auto
  then show ?case using a r1 r' ok by (simp add: atomic_run_append)
qed

text \<open>The items of the accepted pushes and of the successful pops of a trace.\<close>

fun accepted :: "'a call list \<Rightarrow> 'a list" where
  "accepted [] = []"
| "accepted (Pushed x ok # tr) = (if ok then x # accepted tr else accepted tr)"
| "accepted (Popped res # tr) = accepted tr"

fun taken :: "'a call list \<Rightarrow> 'a list" where
  "taken [] = []"
| "taken (Pushed x ok # tr) = taken tr"
| "taken (Popped res # tr) = (case res of None \<Rightarrow> taken tr | Some y \<Rightarrow> y # taken tr)"

lemma atomic_run_fifo:
  "atomic_run tr r = Some r' \<Longrightarrow> ring_ok r \<Longrightarrow> ring_list r @ accepted tr = taken tr @ ring_list r'"
proof (induction tr r rule: atomic_run.induct)
  case (2 x ok tr r)
  obtain b r1 where p: "try_push x r = (b, r1)" by fastforce
  note c = dyn_ring.push_cases [OF 2(3) p]
  then show ?case using 2(1) [OF p [symmetric]] 2(2) p by (auto split: if_splits)
next
  case (3 res tr r)
  obtain y r1 where p: "try_pop r = (y, r1)" by fastforce
  note c = dyn_ring.pop_cases [OF 3(3) p]
  have res: "y = res" "atomic_run tr r1 = Some r'" using 3(2) p by (simp_all split: if_splits)
  have ih: "ring_list r1 @ accepted tr = taken tr @ ring_list r'" using 3(1) [OF p [symmetric] res] c by simp
  show ?case using c ih by (cases y) (simp_all add: res(1) [symmetric])
qed simp

text \<open>
  (C4) The ring is linearizable: whatever way the single loads and stores of one producer and one
  consumer interleave, the completed calls return what the same calls, executed one at a time in the
  order of their completion, return, and the contents are the same, a call that has not completed
  having changed nothing. In particular the items taken, followed by the contents, are the initial
  contents followed by the items accepted.
\<close>

theorem ring_linearizable:
  assumes "ring_ok r" and "accesses (idle_run r) tr s"
  shows "(\<exists>r'. atomic_run tr r = Some r' \<and> ring_list r' = ring_list (rr_ring s)) \<and> ring_ok (rr_ring s) \<and>
    ring_list r @ accepted tr = taken tr @ ring_list (rr_ring s)"
  using accesses_refine [OF assms(2)] assms(1) atomic_run_fifo [of tr r]
  by (auto simp: idle_run_def ring_run_ok_def producer_ok_def consumer_ok_def)

section \<open>An interleaving\<close>

text \<open>A push and a pop that overlap: the pop starts on the empty ring and takes the item.\<close>

definition two_slots :: "nat ring" where
  "two_slots = \<lparr>rb_capacity = 2, rb_mask = 1, rb_slots = [5, 6], rb_head = 0, rb_tail = 0\<rparr>"

lemma two_slots_ok: "ring_ok two_slots" "ring_list two_slots = []"
  by (auto simp: two_slots_def ring_ok_def ring_list_def ring_len_def intro!: exI [of _ 1])

lemma overlapping_calls:
  "\<exists>s. accesses (idle_run two_slots) [Pushed 7 True, Popped (Some 7)] s"
proof -
  let ?r = two_slots and ?r1 = "two_slots\<lparr>rb_slots := [7, 6]\<rparr>"
  let ?r2 = "two_slots\<lparr>rb_slots := [7, 6], rb_head := 1\<rparr>"
  let ?st = "\<lambda>r p c. \<lparr>rr_ring = r, rr_producer = p, rr_consumer = c\<rparr>"
  have a: "access (?st ?r PIdle CIdle) [] (?st ?r (PHead 7 0) CIdle)"
    using push_load_head [of "?st ?r PIdle CIdle" 7] by (simp add: two_slots_def)
  have b: "access (?st ?r (PHead 7 0) CIdle) [] (?st ?r (PHead 7 0) (CTail 0))"
    using pop_load_tail [of "?st ?r (PHead 7 0) CIdle"] by (simp add: two_slots_def)
  have c: "access (?st ?r (PHead 7 0) (CTail 0)) [] (?st ?r (PRoom 7 0) (CTail 0))"
    using push_load_tail [of "?st ?r (PHead 7 0) (CTail 0)" 7 0] by (simp add: two_slots_def)
  have d: "access (?st ?r (PRoom 7 0) (CTail 0)) [] (?st ?r1 (PWritten 7 0) (CTail 0))"
    using push_store_slot [of "?st ?r (PRoom 7 0) (CTail 0)" 7 0] by (simp add: two_slots_def)
  have e: "access (?st ?r1 (PWritten 7 0) (CTail 0)) [Pushed 7 True] (?st ?r2 PIdle (CTail 0))"
    using push_store_head [of "?st ?r1 (PWritten 7 0) (CTail 0)" 7 0] by (simp add: two_slots_def)
  have f: "access (?st ?r2 PIdle (CTail 0)) [] (?st ?r2 PIdle (CItem 0))"
    using pop_load_head [of "?st ?r2 PIdle (CTail 0)" 0] by (simp add: two_slots_def)
  have g: "access (?st ?r2 PIdle (CItem 0)) [] (?st ?r2 PIdle (CRead 0 7))"
    using pop_load_slot [of "?st ?r2 PIdle (CItem 0)" 0] by (simp add: two_slots_def)
  have h: "access (?st ?r2 PIdle (CRead 0 7)) [Popped (Some 7)] (?st (?r2\<lparr>rb_tail := 1\<rparr>) PIdle CIdle)"
    using pop_store_tail [of "?st ?r2 PIdle (CRead 0 7)" 0 7] by (simp add: two_slots_def)
  have "accesses (?st ?r PIdle CIdle) ((((((((([] @ []) @ []) @ []) @ []) @ [Pushed 7 True]) @ []) @ []) @ [Popped (Some 7)]))
      (?st (?r2\<lparr>rb_tail := 1\<rparr>) PIdle CIdle)"
    by (rule more_accesses [OF more_accesses [OF more_accesses [OF more_accesses [OF more_accesses [OF more_accesses
      [OF more_accesses [OF more_accesses [OF no_access a] b] c] d] e] f] g] h])
  then show ?thesis by (auto simp: idle_run_def)
qed

theorem ring_linearizable_witness:
  "\<exists>s r'. accesses (idle_run two_slots) [Pushed 7 True, Popped (Some 7)] s \<and>
     atomic_run [Pushed 7 True, Popped (Some 7)] two_slots = Some r' \<and> ring_list (rr_ring s) = []"
  using overlapping_calls ring_linearizable [OF two_slots_ok(1)] two_slots_ok(2) by fastforce

end
