(* ===== verification/Signal_Publication.thy ===== *)
theory Signal_Publication
  imports Cuda_Pipeline
begin

text \<open>
  The pipeline thread against a reader of its results (\<open>record_signal\<close> of \<open>math/cuda_pipeline.cu\<close>,
  \<open>last_signal\<close> and \<open>last_topology\<close> of its header, the poll loop of \<open>app/main_live.cpp\<close>), access by access.

  The pipeline copies the topology into host buffers that every signal reuses, stores the new record
  into its slot of the history, and publishes it by the increment of the write index. The reader loads
  the index, copies the record out of its slot, and then reads the host buffers through the pointers
  of \<open>last_topology\<close>. A record is \<open>W\<close> words, the buffers are \<open>C\<close> cells (flow, sources and
  destinations of the edges); word \<open>i\<close> of signal \<open>k\<close> is \<open>sig k i\<close>, cell \<open>c\<close> of its topology
  \<open>cell k c\<close>. The copies of the device may store the cells in any order. The memory is sequentially
  consistent; the number of edges, the same in every signal, is not loaded again.
\<close>

section \<open>Accesses\<close>

datatype publisher = WIdle | WCells "nat set" | WWords nat

datatype 'w poller =
    RIdle
  | RCopy nat nat nat "nat \<Rightarrow> 'w"
  | RSignal nat "nat \<Rightarrow> 'w" "nat \<Rightarrow> 'w option"

text \<open>\<open>pb_count\<close> counts the published signals; the code keeps only the index, its value modulo \<open>2 ^ 64\<close>.\<close>

record 'w publication =
  pb_cells :: "nat \<Rightarrow> 'w"
  pb_history :: "nat \<Rightarrow> nat \<Rightarrow> 'w"
  pb_write_idx :: u64
  pb_count :: nat
  pb_writer :: publisher
  pb_reader :: "'w poller"

inductive publish_step ::
    "nat \<Rightarrow> nat \<Rightarrow> (nat \<Rightarrow> nat \<Rightarrow> 'w) \<Rightarrow> (nat \<Rightarrow> nat \<Rightarrow> 'w) \<Rightarrow> 'w publication \<Rightarrow> 'w publication \<Rightarrow> bool"
  for W C sig cell where
  begin_copy: "pb_writer s = WIdle \<Longrightarrow> publish_step W C sig cell s (s\<lparr>pb_writer := WCells {}\<rparr>)"
| store_cell: "pb_writer s = WCells D \<Longrightarrow> c < C \<Longrightarrow> c \<notin> D \<Longrightarrow>
    publish_step W C sig cell s (s\<lparr>pb_cells := (pb_cells s)(c := cell (pb_count s) c), pb_writer := WCells (insert c D)\<rparr>)"
| copies_done: "pb_writer s = WCells {..<C} \<Longrightarrow> publish_step W C sig cell s (s\<lparr>pb_writer := WWords 0\<rparr>)"
| store_word: "pb_writer s = WWords i \<Longrightarrow> i < W \<Longrightarrow> idx = unat (pb_write_idx s mod word_of_nat k_signal_history_len) \<Longrightarrow>
    publish_step W C sig cell s
      (s\<lparr>pb_history := (pb_history s)(idx := (pb_history s idx)(i := sig (pb_count s) i)), pb_writer := WWords (Suc i)\<rparr>)"
| publish: "pb_writer s = WWords W \<Longrightarrow>
    publish_step W C sig cell s (s\<lparr>pb_write_idx := pb_write_idx s + 1, pb_count := Suc (pb_count s), pb_writer := WIdle\<rparr>)"
| load_index: "pb_reader s = RIdle \<Longrightarrow>
    slot = unat ((pb_write_idx s + word_of_nat k_signal_history_len - 1) mod word_of_nat k_signal_history_len) \<Longrightarrow>
    publish_step W C sig cell s (s\<lparr>pb_reader := RCopy (pb_count s) slot 0 garbage\<rparr>)"
| load_word: "pb_reader s = RCopy w slot i copy \<Longrightarrow> i < W \<Longrightarrow>
    publish_step W C sig cell s (s\<lparr>pb_reader := RCopy w slot (Suc i) (copy(i := pb_history s slot i))\<rparr>)"
| have_signal: "pb_reader s = RCopy w slot W copy \<Longrightarrow>
    publish_step W C sig cell s (s\<lparr>pb_reader := RSignal w copy (\<lambda>_. None)\<rparr>)"
| load_cell: "pb_reader s = RSignal w copy view \<Longrightarrow> c < C \<Longrightarrow>
    publish_step W C sig cell s (s\<lparr>pb_reader := RSignal w copy (view(c \<mapsto> pb_cells s c))\<rparr>)"
| poll_again: "pb_reader s = RSignal w copy view \<Longrightarrow> publish_step W C sig cell s (s\<lparr>pb_reader := RIdle\<rparr>)"

definition publish_init :: "(nat \<Rightarrow> 'w) \<Rightarrow> (nat \<Rightarrow> 'w) \<Rightarrow> 'w publication" where
  "publish_init blank buffers = \<lparr>pb_cells = buffers, pb_history = \<lambda>_. blank, pb_write_idx = 0, pb_count = 0,
     pb_writer = WIdle, pb_reader = RIdle\<rparr>"

section \<open>What the memory holds\<close>

text \<open>The record and the topology after \<open>w\<close> published signals.\<close>

definition after_signals :: "(nat \<Rightarrow> 'w) \<Rightarrow> (nat \<Rightarrow> nat \<Rightarrow> 'w) \<Rightarrow> nat \<Rightarrow> nat \<Rightarrow> 'w" where
  "after_signals first f w = (case w of 0 \<Rightarrow> first | Suc k \<Rightarrow> f k)"

lemma after_signals_simps [simp]: "after_signals first f 0 = first" "after_signals first f (Suc k) = f k"
  by (simp_all add: after_signals_def)

definition reader_slot :: "nat \<Rightarrow> nat" where "reader_slot w = (w + 1023) mod 1024"

lemma write_slot: "unat ((word_of_nat c :: u64) mod word_of_nat k_signal_history_len) = reader_slot (Suc c)"
proof -
  have "unat ((word_of_nat c :: u64) mod word_of_nat k_signal_history_len) = (c mod 2 ^ 64) mod 1024"
    by (simp add: k_signal_history_len_def unat_mod unsigned_of_nat take_bit_eq_mod)
  also have "\<dots> = c mod 1024" by (rule mod_mod_cancel) simp
  finally show ?thesis by (simp add: reader_slot_def)
qed

lemma read_slot: "unat ((word_of_nat c + word_of_nat k_signal_history_len - 1 :: u64) mod word_of_nat k_signal_history_len) = reader_slot c"
proof -
  have e: "(word_of_nat c + word_of_nat k_signal_history_len - 1 :: u64) = word_of_nat (c + 1023)"
    by (simp add: k_signal_history_len_def)
  have "reader_slot (Suc (c + 1023)) = (c + 1023 + 1024) mod 1024" by (simp add: reader_slot_def add.commute)
  then show ?thesis unfolding e write_slot by (simp only: mod_add_self2 reader_slot_def)
qed

lemma slot_apart: "w \<le> c \<Longrightarrow> c < w + 1023 \<Longrightarrow> reader_slot (Suc c) \<noteq> reader_slot w"
proof
  assume a: "w \<le> c" "c < w + 1023" "reader_slot (Suc c) = reader_slot w"
  then have "c mod 1024 = (w + 1023) mod 1024" by (simp add: reader_slot_def)
  then have "1024 dvd (w + 1023) - c" by (metis mod_eq_dvd_iff_nat less_imp_le_nat a(2))
  moreover have "0 < (w + 1023) - c" "(w + 1023) - c < 1024" using a(1,2) by auto
  ultimately show False using nat_dvd_not_less by blast
qed

section \<open>The invariant\<close>

definition cells_ok :: "nat \<Rightarrow> (nat \<Rightarrow> nat \<Rightarrow> 'w) \<Rightarrow> (nat \<Rightarrow> 'w) \<Rightarrow> 'w publication \<Rightarrow> bool" where
  "cells_ok C cell buffers s \<longleftrightarrow> (\<forall>c<C. pb_cells s c =
     (case pb_writer s of
        WIdle \<Rightarrow> after_signals buffers cell (pb_count s) c
      | WCells D \<Rightarrow> (if c \<in> D then cell (pb_count s) c else after_signals buffers cell (pb_count s) c)
      | WWords i \<Rightarrow> cell (pb_count s) c))"

definition history_ok :: "nat \<Rightarrow> (nat \<Rightarrow> nat \<Rightarrow> 'w) \<Rightarrow> (nat \<Rightarrow> 'w) \<Rightarrow> 'w publication \<Rightarrow> bool" where
  "history_ok W sig blank s \<longleftrightarrow> pb_write_idx s = word_of_nat (pb_count s) \<and>
     (\<forall>w i. w \<le> pb_count s \<and> pb_count s < w + 1023 \<and> i < W \<longrightarrow> pb_history s (reader_slot w) i = after_signals blank sig w i) \<and>
     (\<forall>j. pb_writer s = WWords j \<longrightarrow> (\<forall>i<j. pb_history s (reader_slot (Suc (pb_count s))) i = sig (pb_count s) i))"

text \<open>\<open>v\<close> is the value of cell \<open>c\<close> after \<open>w\<close> signals or a later one up to the one in progress.\<close>

definition seen :: "(nat \<Rightarrow> nat \<Rightarrow> 'w) \<Rightarrow> (nat \<Rightarrow> 'w) \<Rightarrow> nat \<Rightarrow> nat \<Rightarrow> nat \<Rightarrow> 'w \<Rightarrow> bool" where
  "seen cell buffers w n c v \<longleftrightarrow> (\<exists>k. w \<le> k \<and> k \<le> Suc n \<and> v = after_signals buffers cell k c)"

lemma seen_later: "seen cell buffers w n c v \<Longrightarrow> seen cell buffers w (Suc n) c v"
  unfolding seen_def using le_SucI by blast

definition reader_ok ::
    "nat \<Rightarrow> nat \<Rightarrow> (nat \<Rightarrow> nat \<Rightarrow> 'w) \<Rightarrow> (nat \<Rightarrow> nat \<Rightarrow> 'w) \<Rightarrow> (nat \<Rightarrow> 'w) \<Rightarrow> (nat \<Rightarrow> 'w) \<Rightarrow> 'w publication \<Rightarrow> bool" where
  "reader_ok W C sig cell blank buffers s \<longleftrightarrow>
     (case pb_reader s of
        RIdle \<Rightarrow> True
      | RCopy w slot i copy \<Rightarrow> slot = reader_slot w \<and> w \<le> pb_count s \<and> i \<le> W \<and>
          (pb_count s < w + 1023 \<longrightarrow> (\<forall>j<i. copy j = after_signals blank sig w j))
      | RSignal w copy view \<Rightarrow> w \<le> pb_count s \<and>
          (pb_count s < w + 1023 \<longrightarrow> (\<forall>j<W. copy j = after_signals blank sig w j)) \<and>
          (\<forall>c v. view c = Some v \<longrightarrow> c < C \<and> seen cell buffers w (pb_count s) c v))"

lemma cells_ok_value:
  assumes "cells_ok C cell buffers s" and "c < C" and "w \<le> pb_count s"
  shows "seen cell buffers w (pb_count s) c (pb_cells s c)"
proof -
  let ?n = "pb_count s"
  have "pb_cells s c = after_signals buffers cell ?n c \<or> pb_cells s c = after_signals buffers cell (Suc ?n) c"
    using assms by (cases "pb_writer s") (auto simp: cells_ok_def)
  then show ?thesis unfolding seen_def using assms(3) le_SucI le_refl by metis
qed

lemma cells_ok_step:
  assumes "publish_step W C sig cell s s'" and "cells_ok C cell buffers s"
  shows "cells_ok C cell buffers s'"
  using assms by (cases rule: publish_step.cases) (auto simp: cells_ok_def split: publisher.splits)

lemma history_ok_step:
  assumes "publish_step W C sig cell s s'" and "history_ok W sig blank s"
  shows "history_ok W sig blank s'"
  using assms
proof (cases rule: publish_step.cases)
  case (store_word i idx)
  then show ?thesis using assms(2) by (auto simp: history_ok_def write_slot less_Suc_eq dest: slot_apart)
next
  case publish
  have "pb_history s (reader_slot w) i = after_signals blank sig w i"
    if "w \<le> Suc (pb_count s)" "Suc (pb_count s) < w + 1023" "i < W" for w i
    using that assms(2) publish(2) by (cases "w = Suc (pb_count s)") (auto simp: history_ok_def)
  then show ?thesis using assms(2) publish by (auto simp: history_ok_def)
qed (auto simp: history_ok_def)

lemma reader_ok_step:
  assumes "publish_step W C sig cell s s'" and "cells_ok C cell buffers s" and "history_ok W sig blank s"
    and "reader_ok W C sig cell blank buffers s"
  shows "reader_ok W C sig cell blank buffers s'"
  using assms(1)
proof (cases rule: publish_step.cases)
  case publish
  then show ?thesis using assms(4)
    by (auto simp: reader_ok_def seen_later split: poller.splits)
next
  case (load_index slot garbage)
  then show ?thesis using assms(3) by (simp add: reader_ok_def history_ok_def read_slot)
next
  case (load_word w slot i copy)
  then show ?thesis using assms(3,4) by (auto simp: reader_ok_def history_ok_def less_Suc_eq)
next
  case (load_cell w copy view c)
  then show ?thesis using assms(4) cells_ok_value [OF assms(2) load_cell(3), of w] by (simp add: reader_ok_def)
qed (use assms(4) in \<open>auto simp: reader_ok_def split: poller.splits\<close>)

lemma publish_invariant:
  assumes "(publish_step W C sig cell)\<^sup>*\<^sup>* (publish_init blank buffers) s"
  shows "cells_ok C cell buffers s \<and> history_ok W sig blank s \<and> reader_ok W C sig cell blank buffers s"
  using assms
proof (induction rule: rtranclp_induct)
  case base
  show ?case by (auto simp: publish_init_def cells_ok_def history_ok_def reader_ok_def)
next
  case (step s s')
  then show ?case
    using cells_ok_step [OF step.hyps(2)] history_ok_step [OF step.hyps(2)] reader_ok_step [OF step.hyps(2)] by simp
qed

text \<open>
  (C10) A signal read by the poll loop is never torn and never stale: while the pipeline publishes fewer
  than 1023 further signals, the copy made after loading the index is word for word the last record
  published before that load, whatever accesses of the pipeline interleave with it. Of the topology the
  reader then looks at, only this holds: each cell on its own is that of this signal or of a later one,
  up to the one being computed.
\<close>

theorem signal_read_whole:
  assumes "(publish_step W C sig cell)\<^sup>*\<^sup>* (publish_init blank buffers) s"
    and "pb_reader s = RSignal (Suc k) copy view" and "pb_count s < k + 1024"
  shows "k < pb_count s \<and> (\<forall>i<W. copy i = sig k i) \<and>
    (\<forall>c v. view c = Some v \<longrightarrow> (\<exists>j. k \<le> j \<and> j \<le> pb_count s \<and> v = cell j c))"
proof -
  have "reader_ok W C sig cell blank buffers s" using publish_invariant [OF assms(1)] by blast
  then have r: "Suc k \<le> pb_count s" "\<forall>i<W. copy i = sig k i"
    "\<And>c v. view c = Some v \<Longrightarrow> seen cell buffers (Suc k) (pb_count s) c v"
    using assms(2,3) by (simp_all add: reader_ok_def)
  have "\<exists>j. k \<le> j \<and> j \<le> pb_count s \<and> v = cell j c" if "view c = Some v" for c v
  proof -
    from r(3) [OF that] obtain m where "Suc k \<le> m" "m \<le> Suc (pb_count s)" "v = after_signals buffers cell m c"
      by (auto simp: seen_def)
    then show ?thesis by (cases m) auto
  qed
  then show ?thesis using r(1,2) by auto
qed

section \<open>A torn topology\<close>

lemma run_cells:
  "pb_writer s = WCells D \<Longrightarrow> D = {..<d} \<Longrightarrow> d + n \<le> C \<Longrightarrow>
   (publish_step W C sig cell)\<^sup>*\<^sup>* s
     (s\<lparr>pb_cells := (\<lambda>c. if d \<le> c \<and> c < d + n then cell (pb_count s) c else pb_cells s c), pb_writer := WCells {..<d + n}\<rparr>)"
proof (induction n)
  case 0
  then have "s\<lparr>pb_cells := (\<lambda>c. if d \<le> c \<and> c < d + 0 then cell (pb_count s) c else pb_cells s c), pb_writer := WCells {..<d + 0}\<rparr> = s"
    by (cases s) (auto simp: fun_eq_iff)
  then show ?case by simp
next
  case (Suc n)
  let ?t = "\<lambda>n. s\<lparr>pb_cells := (\<lambda>c. if d \<le> c \<and> c < d + n then cell (pb_count s) c else pb_cells s c), pb_writer := WCells {..<d + n}\<rparr>"
  have cells: "(\<lambda>c. if d \<le> c \<and> c < d + n then cell (pb_count s) c else pb_cells s c)(d + n := cell (pb_count s) (d + n)) =
      (\<lambda>c. if d \<le> c \<and> c < d + Suc n then cell (pb_count s) c else pb_cells s c)" by (auto simp: fun_eq_iff)
  have set: "insert (d + n) {..<d + n} = {..<d + Suc n}" by auto
  have "publish_step W C sig cell (?t n) (?t (Suc n))"
    using publish_step.store_cell [of "?t n" "{..<d + n}" "d + n" C W sig cell] Suc.prems(3) by (simp add: cells set)
  moreover have "(publish_step W C sig cell)\<^sup>*\<^sup>* s (?t n)" using Suc by simp
  ultimately show ?case by (rule rtranclp.rtrancl_into_rtrancl [rotated])
qed

lemma run_words:
  "pb_writer s = WWords 0 \<Longrightarrow> n \<le> W \<Longrightarrow> \<exists>h. (publish_step W C sig cell)\<^sup>*\<^sup>* s (s\<lparr>pb_history := h, pb_writer := WWords n\<rparr>)"
proof (induction n)
  case 0
  then have "s\<lparr>pb_history := pb_history s, pb_writer := WWords 0\<rparr> = s" by (cases s) auto
  then show ?case by (metis rtranclp.rtrancl_refl)
next
  case (Suc n)
  then obtain h where h: "(publish_step W C sig cell)\<^sup>*\<^sup>* s (s\<lparr>pb_history := h, pb_writer := WWords n\<rparr>)" by auto
  from publish_step.store_word [of "s\<lparr>pb_history := h, pb_writer := WWords n\<rparr>" n W _ C sig cell, OF _ _ refl] Suc.prems
  obtain h' where "publish_step W C sig cell (s\<lparr>pb_history := h, pb_writer := WWords n\<rparr>) (s\<lparr>pb_history := h', pb_writer := WWords (Suc n)\<rparr>)"
    by auto
  with h show ?case by (meson rtranclp.rtrancl_into_rtrancl)
qed

lemma run_copy:
  "pb_reader s = RCopy w slot 0 copy \<Longrightarrow> n \<le> W \<Longrightarrow>
   \<exists>copy'. (publish_step W C sig cell)\<^sup>*\<^sup>* s (s\<lparr>pb_reader := RCopy w slot n copy'\<rparr>)"
proof (induction n)
  case 0
  then have "s\<lparr>pb_reader := RCopy w slot 0 copy\<rparr> = s" by (cases s) auto
  then show ?case by (metis rtranclp.rtrancl_refl)
next
  case (Suc n)
  then obtain c' where h: "(publish_step W C sig cell)\<^sup>*\<^sup>* s (s\<lparr>pb_reader := RCopy w slot n c'\<rparr>)" by auto
  from publish_step.load_word [of "s\<lparr>pb_reader := RCopy w slot n c'\<rparr>" w slot n c' W C sig cell] Suc.prems
  have "publish_step W C sig cell (s\<lparr>pb_reader := RCopy w slot n c'\<rparr>)
      (s\<lparr>pb_reader := RCopy w slot (Suc n) (c'(n := pb_history s slot n))\<rparr>)" by simp
  with h show ?case by (meson rtranclp.rtrancl_into_rtrancl)
qed

lemma run_loads:
  "pb_reader s = RSignal w copy view \<Longrightarrow> n \<le> C \<Longrightarrow>
   (publish_step W C sig cell)\<^sup>*\<^sup>* s (s\<lparr>pb_reader := RSignal w copy (\<lambda>c. if c < n then Some (pb_cells s c) else view c)\<rparr>)"
proof (induction n)
  case 0
  then have "s\<lparr>pb_reader := RSignal w copy (\<lambda>c. if c < 0 then Some (pb_cells s c) else view c)\<rparr> = s" by (cases s) auto
  then show ?case by simp
next
  case (Suc n)
  let ?t = "\<lambda>n. s\<lparr>pb_reader := RSignal w copy (\<lambda>c. if c < n then Some (pb_cells s c) else view c)\<rparr>"
  have view: "(\<lambda>c. if c < n then Some (pb_cells s c) else view c)(n \<mapsto> pb_cells s n) =
      (\<lambda>c. if c < Suc n then Some (pb_cells s c) else view c)" by (auto simp: fun_eq_iff)
  have "publish_step W C sig cell (?t n) (?t (Suc n))"
    using publish_step.load_cell [of "?t n" w copy _ n C W sig cell] Suc.prems(2) by (simp add: view)
  moreover have "(publish_step W C sig cell)\<^sup>*\<^sup>* s (?t n)" using Suc by simp
  ultimately show ?case by (rule rtranclp.rtrancl_into_rtrancl [rotated])
qed

lemma publish_first:
  "\<exists>s :: 'w publication. (publish_step W C sig cell)\<^sup>*\<^sup>* (publish_init blank buffers) s \<and> pb_count s = 1 \<and> pb_writer s = WIdle \<and>
     pb_reader s = RIdle \<and> (\<forall>c<C. pb_cells s c = cell 0 c)"
proof -
  let ?step = "publish_step W C sig cell" and ?s0 = "publish_init blank buffers :: 'w publication"
  let ?s1 = "?s0\<lparr>pb_writer := WCells {}\<rparr>"
  let ?s2 = "?s1\<lparr>pb_cells := (\<lambda>c. if 0 \<le> c \<and> c < 0 + C then cell (pb_count ?s1) c else pb_cells ?s1 c), pb_writer := WCells {..<0 + C}\<rparr>"
  have a: "?step ?s0 ?s1" by (rule publish_step.begin_copy) (simp add: publish_init_def)
  have b: "?step\<^sup>*\<^sup>* ?s1 ?s2" by (rule run_cells) auto
  have c: "?step ?s2 (?s2\<lparr>pb_writer := WWords 0\<rparr>)" by (rule publish_step.copies_done) simp
  obtain h where d: "?step\<^sup>*\<^sup>* (?s2\<lparr>pb_writer := WWords 0\<rparr>) (?s2\<lparr>pb_writer := WWords 0, pb_history := h, pb_writer := WWords W\<rparr>)"
    using run_words [of "?s2\<lparr>pb_writer := WWords 0\<rparr>" W W C sig cell] by auto
  let ?s4 = "?s2\<lparr>pb_writer := WWords 0, pb_history := h, pb_writer := WWords W\<rparr>"
  let ?s5 = "?s4\<lparr>pb_write_idx := pb_write_idx ?s4 + 1, pb_count := Suc (pb_count ?s4), pb_writer := WIdle\<rparr>"
  have e: "?step ?s4 ?s5" by (rule publish_step.publish) simp
  from a b c d e have "?step\<^sup>*\<^sup>* ?s0 ?s5"
    by (meson converse_rtranclp_into_rtranclp rtranclp.rtrancl_into_rtrancl rtranclp_trans)
  then show ?thesis by (intro exI [of _ ?s5] conjI) (auto simp: publish_init_def)
qed

lemma read_signal:
  assumes "pb_reader s = RIdle"
  shows "\<exists>copy. (publish_step W C sig cell)\<^sup>*\<^sup>* s (s\<lparr>pb_reader := RSignal (pb_count s) copy (\<lambda>_. None)\<rparr>)"
proof -
  let ?step = "publish_step W C sig cell"
  obtain slot where a: "?step s (s\<lparr>pb_reader := RCopy (pb_count s) slot 0 undefined\<rparr>)"
    using publish_step.load_index [OF assms refl] by blast
  obtain copy where b: "?step\<^sup>*\<^sup>* (s\<lparr>pb_reader := RCopy (pb_count s) slot 0 undefined\<rparr>) (s\<lparr>pb_reader := RCopy (pb_count s) slot W copy\<rparr>)"
    using run_copy [of "s\<lparr>pb_reader := RCopy (pb_count s) slot 0 undefined\<rparr>" "pb_count s" slot undefined W W C sig cell] by auto
  have c: "?step (s\<lparr>pb_reader := RCopy (pb_count s) slot W copy\<rparr>) (s\<lparr>pb_reader := RSignal (pb_count s) copy (\<lambda>_. None)\<rparr>)"
    using publish_step.have_signal [of "s\<lparr>pb_reader := RCopy (pb_count s) slot W copy\<rparr>" "pb_count s" slot W copy C sig cell] by simp
  from a b c show ?thesis by (meson converse_rtranclp_into_rtranclp rtranclp.rtrancl_into_rtrancl)
qed

text \<open>
  (C20) What \<open>last_topology\<close> points at can be torn: the buffers belong to the next signal as soon as the
  pipeline copies it. The device copies the flow, the sources and the destinations one after the other,
  and at every point \<open>p\<close> of this copy a reader that holds the record of the first signal can see the
  cells before \<open>p\<close> of the second signal beside the other cells of the first.
\<close>

theorem topology_can_tear:
  assumes "p \<le> C"
  shows "\<exists>(s :: 'w publication) copy view. (publish_step W C sig cell)\<^sup>*\<^sup>* (publish_init blank buffers) s \<and> pb_count s = 1 \<and>
    pb_reader s = RSignal 1 copy view \<and> (\<forall>i<W. copy i = sig 0 i) \<and>
    (\<forall>c<C. view c = Some (if c < p then cell 1 c else cell 0 c))"
proof -
  let ?step = "publish_step W C sig cell"
  obtain s :: "'w publication" where s: "?step\<^sup>*\<^sup>* (publish_init blank buffers) s" "pb_count s = 1" "pb_writer s = WIdle"
    "pb_reader s = RIdle" "\<And>c. c < C \<Longrightarrow> pb_cells s c = cell 0 c"
    using publish_first [of W C sig cell blank buffers] by auto
  obtain copy where r: "?step\<^sup>*\<^sup>* s (s\<lparr>pb_reader := RSignal 1 copy (\<lambda>_. None)\<rparr>)"
    using read_signal [OF s(4), of W C sig cell] s(2) by auto
  let ?s1 = "s\<lparr>pb_reader := RSignal 1 copy (\<lambda>_. None), pb_writer := WCells {}\<rparr>"
  let ?s2 = "?s1\<lparr>pb_cells := (\<lambda>c. if 0 \<le> c \<and> c < 0 + p then cell (pb_count ?s1) c else pb_cells ?s1 c), pb_writer := WCells {..<0 + p}\<rparr>"
  let ?s3 = "?s2\<lparr>pb_reader := RSignal 1 copy (\<lambda>c. if c < C then Some (pb_cells ?s2 c) else None)\<rparr>"
  have a: "?step (s\<lparr>pb_reader := RSignal 1 copy (\<lambda>_. None)\<rparr>) ?s1" by (rule publish_step.begin_copy) (simp add: s)
  have b: "?step\<^sup>*\<^sup>* ?s1 ?s2" by (rule run_cells) (use assms in auto)
  have c: "?step\<^sup>*\<^sup>* ?s2 ?s3" by (rule run_loads [where view = "\<lambda>_. None"]) auto
  from s(1) r a b c have reach: "?step\<^sup>*\<^sup>* (publish_init blank buffers) ?s3"
    by (meson rtranclp.rtrancl_into_rtrancl rtranclp_trans)
  have "reader_ok W C sig cell blank buffers ?s3" using publish_invariant [OF reach] by blast
  then have "\<forall>i<W. copy i = sig 0 i" by (simp add: reader_ok_def s)
  then show ?thesis using reach by (intro exI [of _ ?s3] exI conjI) (auto simp: s)
qed

section \<open>A run\<close>

text \<open>
  Two signals of one word with two edges each: flow, sources and destinations of the edges \<open>(0, 1)\<close> and
  \<open>(1, 2)\<close>, listed in the other order in the second signal.
\<close>

definition demo_cells :: "nat \<Rightarrow> nat \<Rightarrow> int" where
  "demo_cells k c = (if k = 0 then [5, 6, 0, 1, 1, 2] ! c else [6, 5, 1, 0, 2, 1] ! c)"

lemma demo_reach:
  "\<exists>s copy view. (publish_step 1 6 (\<lambda>k _. int k) demo_cells)\<^sup>*\<^sup>* (publish_init (\<lambda>_. - 1) (\<lambda>_. 0)) s \<and> pb_count s = 1 \<and>
     pb_reader s = RSignal (Suc 0) copy view"
proof -
  obtain s :: "int publication" where s: "(publish_step 1 6 (\<lambda>k _. int k) demo_cells)\<^sup>*\<^sup>* (publish_init (\<lambda>_. - 1) (\<lambda>_. 0)) s"
    "pb_count s = 1" "pb_reader s = RIdle"
    using publish_first [of 1 6 "\<lambda>k _. int k" demo_cells "\<lambda>_. - 1" "\<lambda>_. 0"] by auto
  obtain copy where "(publish_step 1 6 (\<lambda>k _. int k) demo_cells)\<^sup>*\<^sup>* s (s\<lparr>pb_reader := RSignal 1 copy (\<lambda>_. None)\<rparr>)"
    using read_signal [OF s(3), of 1 6 "\<lambda>k _. int k" demo_cells] s(2) by auto
  with s show ?thesis by (intro exI [of _ "s\<lparr>pb_reader := RSignal 1 copy (\<lambda>_. None)\<rparr>"] exI conjI) (auto intro: rtranclp_trans)
qed

theorem signal_read_whole_witness:
  "\<exists>s copy view. (publish_step 1 6 (\<lambda>k _. int k) demo_cells)\<^sup>*\<^sup>* (publish_init (\<lambda>_. - 1) (\<lambda>_. 0)) s \<and> pb_reader s = RSignal 1 copy view \<and>
     copy 0 = 0"
proof -
  obtain s copy view where s: "(publish_step 1 6 (\<lambda>k _. int k) demo_cells)\<^sup>*\<^sup>* (publish_init (\<lambda>_. - 1) (\<lambda>_. 0)) s"
    "pb_count s = 1" "pb_reader s = RSignal (Suc 0) copy view" using demo_reach by blast
  with signal_read_whole [OF s(1,3)] show ?thesis by auto
qed

text \<open>The reader sees the first edge as an edge from the second instrument to itself.\<close>

theorem topology_can_tear_witness:
  "\<exists>s copy view. (publish_step 1 6 (\<lambda>k _. int k) demo_cells)\<^sup>*\<^sup>* (publish_init (\<lambda>_. - 1) (\<lambda>_. 0)) s \<and>
     pb_reader s = RSignal 1 copy view \<and> copy 0 = 0 \<and> view 2 = Some 1 \<and> view 4 = Some 1"
proof -
  obtain s copy view where s: "(publish_step 1 6 (\<lambda>k _. int k) demo_cells)\<^sup>*\<^sup>* (publish_init (\<lambda>_. - 1) (\<lambda>_. 0)) s"
    "pb_reader s = RSignal 1 copy view" "\<forall>i<1. copy i = int 0"
    "\<forall>c<6. view c = Some (if c < 4 then demo_cells 1 c else demo_cells 0 c)"
    using topology_can_tear [of 4 6 1 "\<lambda>k _. int k" demo_cells "\<lambda>_. - 1" "\<lambda>_. 0"] by auto
  have "view 2 = Some 1" "view 4 = Some 1" using s(4) by (simp_all add: demo_cells_def)
  with s show ?thesis by auto
qed

end
