(* ===== verification/Text_Output.thy ===== *)
theory Text_Output
  imports Binance_Gateway User_Data_Feed Latency_Trace
begin

text \<open>
  Text the engine writes: the hexadecimal signatures of the two signing functions
  (\<open>hmac_sha256_hex\<close> of \<open>net/binance_gateway.hpp\<close> and of \<open>net/user_data_feed.hpp\<close>) and the durations of
  the latency table (\<open>format_ns\<close> of \<open>core/latency_trace.hpp\<close>). The digest function of OpenSSL is an argument;
  \<open>None\<close> is its failure.
\<close>

definition kHex :: string where "kHex = ''0123456789abcdef''"

fun hex_text :: "u8 list \<Rightarrow> string" where
  "hex_text [] = []"
| "hex_text (d # ds) = kHex ! unat (drop_bit 4 d AND 0xF) # kHex ! unat (d AND 0xF) # hex_text ds"

text \<open>The gateway throws when the digest fails; the user data feed signs with the empty text.\<close>

definition gateway_hmac_hex :: "(string \<Rightarrow> string \<Rightarrow> u8 list option) \<Rightarrow> signer" where
  "gateway_hmac_hex hmac secret msg = map_option hex_text (hmac secret msg)"

definition feed_hmac_hex :: "(string \<Rightarrow> string \<Rightarrow> u8 list option) \<Rightarrow> string \<Rightarrow> string \<Rightarrow> string" where
  "feed_hmac_hex hmac key msg = (case hmac key msg of None \<Rightarrow> [] | Some digest \<Rightarrow> hex_text digest)"

text \<open>\<open>format_ns\<close> writes into a buffer of 24 characters.\<close>

definition decimals :: "nat \<Rightarrow> dbl \<Rightarrow> string" where
  "decimals k x = fixed_text k (nat (nearest_even (x * 10 ^ k)))"

definition format_ns :: "u64 \<Rightarrow> string" where
  "format_ns ns =
     take 23
       (if ns < 1000 then to_string (unat ns) @ ''ns''
        else if ns < 1000000 then decimals 1 (real (unat ns) / 1000) @ ''us''
        else if ns < 1000000000 then decimals 2 (real (unat ns) / 1000000) @ ''ms''
        else decimals 2 (real (unat ns) / 1000000000) @ ''s'')"

section \<open>Signatures\<close>

lemma kHex_nth: "i < 16 \<Longrightarrow> j < 16 \<Longrightarrow> kHex ! i = kHex ! j \<longleftrightarrow> i = j"
proof -
  have "distinct kHex" "length kHex = 16" by (simp_all add: kHex_def)
  then show "i < 16 \<Longrightarrow> j < 16 \<Longrightarrow> kHex ! i = kHex ! j \<longleftrightarrow> i = j" by (simp add: nth_eq_iff_index_eq)
qed

lemma nibble_less: "unat (d AND 0xF :: u8) < 16"
proof -
  have "d AND 0xF \<le> (0xF :: u8)" by (rule word_and_le1)
  then show ?thesis by (simp add: word_le_nat_alt)
qed

lemma nibbles: "(d :: u8) = push_bit 4 (drop_bit 4 d AND 0xF) OR (d AND 0xF)"
proof (rule bit_word_eqI)
  fix n assume "n < LENGTH(8)"
  then have "n \<in> {0, 1, 2, 3, 4, 5, 6, 7}" by auto
  then show "bit d n = bit (push_bit 4 (drop_bit 4 d AND 0xF) OR (d AND 0xF)) n"
    by (auto simp: bit_simps)
qed

text \<open>Different digests are written differently, two characters for each byte.\<close>

lemma hex_text_eq: "hex_text xs = hex_text ys \<longleftrightarrow> xs = ys"
proof (induction xs arbitrary: ys)
  case Nil
  then show ?case by (cases ys) auto
next
  case (Cons d ds)
  have "d = e" if "unat (drop_bit 4 d AND 0xF) = unat (drop_bit 4 e AND 0xF)" "unat (d AND 0xF) = unat (e AND 0xF)" for e :: u8
    using nibbles [of d] nibbles [of e] that by (metis word_unat_eq_iff)
  then show ?case using Cons by (cases ys) (auto simp: kHex_nth nibble_less)
qed

lemma hex_text_length: "length (hex_text ds) = 2 * length ds"
  by (induction ds) auto

end
