(* ===== verification/Device_Runtime.thy ===== *)
theory Device_Runtime
  imports Prelude "HOL-Library.Multiset" "HOL-Library.Monad_Syntax"
begin

text \<open>
  The wrappers of the CUDA runtime (\<open>math/cuda_utils.cuh\<close>): memory, streams, events, library handles
  and the check that aborts the program, as operations on the set of the resources that are alive.

  The runtime is an argument. \<open>rt_create\<close> answers the creation of a resource from what is alive, its kind
  and size and the number of the call: \<open>None\<close> is an error, 0 a null pointer (an allocation of no bytes).
  \<open>rt_check\<close> tells whether another checked call succeeds. A computation that ends in \<open>None\<close> has aborted
  the program. A fault is the release of a resource that is not alive, or work on a stream that is not.
\<close>

section \<open>Resources\<close>

datatype resource_kind =
    DeviceMem | PinnedMem | CudaStream | CudaEvent | BlasHandle | SparseHandle | SolverHandle | SparseDescr

type_synonym resource = "resource_kind \<times> nat"

record cuda_runtime =
  rt_create :: "(resource \<rightharpoonup> u64) \<Rightarrow> resource_kind \<Rightarrow> u64 \<Rightarrow> nat \<Rightarrow> nat option"
  rt_check :: "nat \<Rightarrow> bool"

record device =
  dv_live :: "resource \<rightharpoonup> u64"
  dv_calls :: nat
  dv_faults :: nat

text \<open>A creation whose error the caller looks at, and one inside \<open>CUDA_CHECK\<close> or its variants.\<close>

definition try_create :: "cuda_runtime \<Rightarrow> resource_kind \<Rightarrow> u64 \<Rightarrow> device \<Rightarrow> nat option \<times> device" where
  "try_create R kind bytes d =
     (case rt_create R (dv_live d) kind bytes (dv_calls d) of
        None \<Rightarrow> (None, d\<lparr>dv_calls := Suc (dv_calls d)\<rparr>)
      | Some p \<Rightarrow> (Some p, d\<lparr>dv_calls := Suc (dv_calls d),
          dv_live := (if p = 0 then dv_live d else (dv_live d)((kind, p) \<mapsto> bytes))\<rparr>))"

definition cuda_create :: "cuda_runtime \<Rightarrow> resource_kind \<Rightarrow> u64 \<Rightarrow> device \<Rightarrow> (nat \<times> device) option" where
  "cuda_create R kind bytes d =
     (case try_create R kind bytes d of (None, d') \<Rightarrow> None | (Some p, d') \<Rightarrow> Some (p, d'))"

definition CUDA_CHECK :: "cuda_runtime \<Rightarrow> device \<Rightarrow> device option" where
  "CUDA_CHECK R d = (if rt_check R (dv_calls d) then Some (d\<lparr>dv_calls := Suc (dv_calls d)\<rparr>) else None)"

text \<open>Several checked calls in a row.\<close>

fun checked_calls :: "cuda_runtime \<Rightarrow> nat \<Rightarrow> device \<Rightarrow> device option" where
  "checked_calls R 0 d = Some d"
| "checked_calls R (Suc n) d = do { d \<leftarrow> CUDA_CHECK R d; checked_calls R n d }"

definition destroy :: "resource_kind \<Rightarrow> nat \<Rightarrow> device \<Rightarrow> device" where
  "destroy kind p d =
     (if dv_live d (kind, p) \<noteq> None then d\<lparr>dv_live := (dv_live d)((kind, p) := None)\<rparr>
      else d\<lparr>dv_faults := Suc (dv_faults d)\<rparr>)"

text \<open>Work on a stream; 0 is the default stream.\<close>

definition use_stream :: "nat \<Rightarrow> device \<Rightarrow> device" where
  "use_stream s d =
     (if s = 0 \<or> dv_live d (CudaStream, s) \<noteq> None then d else d\<lparr>dv_faults := Suc (dv_faults d)\<rparr>)"

section \<open>Memory\<close>

definition device_alloc :: "cuda_runtime \<Rightarrow> u64 \<Rightarrow> u64 \<Rightarrow> device \<Rightarrow> (nat \<times> device) option" where
  "device_alloc R sizeof_T n d = cuda_create R DeviceMem (sizeof_T * n) d"

definition device_free :: "nat \<Rightarrow> device \<Rightarrow> device" where
  "device_free ptr d = (if ptr \<noteq> 0 then destroy DeviceMem ptr d else d)"

definition pinned_alloc :: "cuda_runtime \<Rightarrow> u64 \<Rightarrow> u64 \<Rightarrow> device \<Rightarrow> (nat \<times> device) option" where
  "pinned_alloc R sizeof_T n d = cuda_create R PinnedMem (sizeof_T * n) d"

definition pinned_free :: "nat \<Rightarrow> device \<Rightarrow> device" where
  "pinned_free ptr d = (if ptr \<noteq> 0 then destroy PinnedMem ptr d else d)"

section \<open>Streams, events and handles\<close>

definition StreamGuard :: "cuda_runtime \<Rightarrow> device \<Rightarrow> (nat \<times> device) option" where
  "StreamGuard R d = cuda_create R CudaStream 0 d"

definition StreamGuard_dtor :: "nat \<Rightarrow> device \<Rightarrow> device" where
  "StreamGuard_dtor stream d = (if stream \<noteq> 0 then destroy CudaStream stream d else d)"

definition stream_sync :: "cuda_runtime \<Rightarrow> nat \<Rightarrow> device \<Rightarrow> device option" where
  "stream_sync R stream d = CUDA_CHECK R (use_stream stream d)"

definition EventGuard :: "cuda_runtime \<Rightarrow> device \<Rightarrow> (nat \<times> device) option" where
  "EventGuard R d = cuda_create R CudaEvent 0 d"

definition EventGuard_dtor :: "nat \<Rightarrow> device \<Rightarrow> device" where
  "EventGuard_dtor event d = (if event \<noteq> 0 then destroy CudaEvent event d else d)"

definition event_record :: "cuda_runtime \<Rightarrow> nat \<Rightarrow> device \<Rightarrow> device option" where
  "event_record R stream d = CUDA_CHECK R (use_stream stream d)"

record CudaHandles =
  ch_cublas :: nat
  ch_cusparse :: nat
  ch_cusolver :: nat

definition new_handles :: "cuda_runtime \<Rightarrow> device \<Rightarrow> (CudaHandles \<times> device) option" where
  "new_handles R d = do {
     (cublas, d) \<leftarrow> cuda_create R BlasHandle 0 d;
     (cusparse, d) \<leftarrow> cuda_create R SparseHandle 0 d;
     (cusolver, d) \<leftarrow> cuda_create R SolverHandle 0 d;
     Some (\<lparr>ch_cublas = cublas, ch_cusparse = cusparse, ch_cusolver = cusolver\<rparr>, d)
   }"

text \<open>A release behind a test for null, as in the destructors.\<close>

definition free_unless_null :: "resource \<Rightarrow> device \<Rightarrow> device" where
  "free_unless_null r d = (case r of (kind, p) \<Rightarrow> if p \<noteq> 0 then destroy kind p d else d)"

definition CudaHandles_dtor :: "CudaHandles \<Rightarrow> device \<Rightarrow> device" where
  "CudaHandles_dtor h d =
     fold free_unless_null [(BlasHandle, ch_cublas h), (SparseHandle, ch_cusparse h), (SolverHandle, ch_cusolver h)] d"

definition set_stream :: "cuda_runtime \<Rightarrow> nat \<Rightarrow> device \<Rightarrow> device option" where
  "set_stream R s d = checked_calls R 3 (use_stream s d)"

section \<open>Ownership\<close>

text \<open>
  The documented behaviour of the runtime: a new resource is none of those alive, and only memory,
  when no bytes are asked for, can be null.
\<close>

definition fresh_runtime :: "cuda_runtime \<Rightarrow> bool" where
  "fresh_runtime R \<longleftrightarrow>
     (\<forall>live kind bytes i p. rt_create R live kind bytes i = Some p \<longrightarrow>
        (if p = 0 then kind \<in> {DeviceMem, PinnedMem} else live (kind, p) = None))"

text \<open>
  Beyond what was alive at the start exactly the resources of \<open>M\<close> are, each once, and nothing went wrong.
\<close>

definition owned :: "resource multiset \<Rightarrow> resource multiset" where
  "owned M = filter_mset (\<lambda>r. snd r \<noteq> 0) M"

definition owns :: "(resource \<rightharpoonup> u64) \<Rightarrow> resource multiset \<Rightarrow> device \<Rightarrow> bool" where
  "owns base M d \<longleftrightarrow> finite (dom (dv_live d)) \<and> base \<subseteq>\<^sub>m dv_live d \<and> dv_faults d = 0 \<and>
     owned M = mset_set (dom (dv_live d) - dom base)"

lemma owned_simps [simp]:
  "owned {#} = {#}" "owned (add_mset r M) = (if snd r \<noteq> 0 then add_mset r (owned M) else owned M)"
  "owned (M + N) = owned M + owned N"
  by (auto simp: owned_def)

lemma owns_start: "finite (dom (dv_live d)) \<Longrightarrow> dv_faults d = 0 \<Longrightarrow> owns (dv_live d) {#} d"
  by (simp add: owns_def)

lemma owns_end:
  assumes "owns base {#} d" shows "dv_live d = base \<and> dv_faults d = 0"
proof -
  have o: "finite (dom (dv_live d))" "base \<subseteq>\<^sub>m dv_live d" "dv_faults d = 0" "mset_set (dom (dv_live d) - dom base) = {#}"
    using assms by (simp_all add: owns_def)
  then have sub: "dom (dv_live d) \<subseteq> dom base" by (simp add: mset_set_empty_iff)
  have "dv_live d r = base r" for r
    using o(2) sub unfolding map_le_def by (metis domIff subsetD)
  then show ?thesis using o(3) by (simp add: fun_eq_iff)
qed

lemma owns_calls [simp]: "owns base M (d\<lparr>dv_calls := n\<rparr>) = owns base M d"
  by (simp add: owns_def)

lemma owns_live:
  assumes "owns base M d" and "r \<in># M" and "snd r \<noteq> 0"
  shows "r \<in> dom (dv_live d) - dom base"
proof -
  have "r \<in># owned M" using assms(2,3) by (simp add: owned_def)
  then show ?thesis using assms(1) by (auto simp: owns_def)
qed

lemma owns_created:
  assumes fresh: "fresh_runtime R" and own: "owns base M d" and t: "try_create R kind bytes d = (Some p, d')"
  shows "owns base (add_mset (kind, p) M) d'"
proof (cases "p = 0")
  case True
  then show ?thesis using own t by (auto simp: try_create_def owns_def split: option.splits)
next
  case False
  have d': "d' = d\<lparr>dv_calls := Suc (dv_calls d), dv_live := (dv_live d)((kind, p) \<mapsto> bytes)\<rparr>"
    and new: "dv_live d (kind, p) = None"
    using t False fresh unfolding try_create_def fresh_runtime_def by (fastforce split: option.splits)+
  have "base (kind, p) = None" using own new unfolding owns_def by (metis domIff map_le_def)
  then have "dom (dv_live d') - dom base = insert (kind, p) (dom (dv_live d) - dom base)"
    and "base \<subseteq>\<^sub>m dv_live d'"
    using own new by (auto simp: d' owns_def map_le_def domIff)
  then show ?thesis using own new False by (simp add: owns_def d' domIff)
qed

lemma owns_destroyed:
  assumes "owns base (add_mset (kind, p) M) d" and "p \<noteq> 0"
  shows "owns base M (destroy kind p d)"
proof -
  have live: "(kind, p) \<in> dom (dv_live d) - dom base" using owns_live [OF assms(1)] assms(2) by simp
  let ?d = "d\<lparr>dv_live := (dv_live d)((kind, p) := None)\<rparr>"
  have "dom (dv_live ?d) - dom base = (dom (dv_live d) - dom base) - {(kind, p)}" by auto
  moreover have "base \<subseteq>\<^sub>m dv_live ?d" using assms(1) live by (auto simp: owns_def map_le_def)
  moreover have "owned M = mset_set (dom (dv_live d) - dom base) - {#(kind, p)#}"
    using assms by (metis owns_def add_mset_remove_trivial owned_simps(2) snd_conv)
  ultimately show ?thesis using assms(1) live by (auto simp: owns_def destroy_def mset_set_Diff)
qed

lemma owns_free [simp]: "owns base (add_mset r M) d \<Longrightarrow> owns base M (free_unless_null r d)"
proof (cases "snd r = 0")
  case True
  then show "owns base (add_mset r M) d \<Longrightarrow> owns base M (free_unless_null r d)"
    by (cases r) (simp add: free_unless_null_def owns_def)
next
  case False
  then show "owns base (add_mset r M) d \<Longrightarrow> owns base M (free_unless_null r d)"
    using owns_destroyed by (cases r) (simp add: free_unless_null_def)
qed

lemma owns_free_all: "owns base (mset rs + M) d \<Longrightarrow> owns base M (fold free_unless_null rs d)"
proof (induction rs arbitrary: d)
  case (Cons r rs)
  then have "owns base (mset rs + M) (free_unless_null r d)" by simp
  then show ?case using Cons.IH by simp
qed simp

lemma frees [holo_simps]:
  "device_free p = free_unless_null (DeviceMem, p)" "pinned_free p = free_unless_null (PinnedMem, p)"
  "StreamGuard_dtor p = free_unless_null (CudaStream, p)" "EventGuard_dtor p = free_unless_null (CudaEvent, p)"
  by (auto simp: fun_eq_iff device_free_def pinned_free_def StreamGuard_dtor_def EventGuard_dtor_def free_unless_null_def)

text \<open>
  For a while some of the owned resources can count as given: they stay alive, and come back afterwards.
\<close>

lemma owns_absorb:
  assumes "owns base (M + N) d"
  obtains base' where "owns base' N d" and "\<And>r. r \<in># M \<Longrightarrow> snd r \<noteq> 0 \<Longrightarrow> r \<in> dom base'"
    and "\<And>N' d'. owns base' N' d' \<Longrightarrow> owns base (M + N') d'"
proof
  let ?A = "set_mset (owned M)" and ?X = "dom (dv_live d) - dom base"
  let ?base = "dv_live d |` (dom base \<union> ?A)"
  have fin: "finite ?X" and sum: "owned M + owned N = mset_set ?X" and le: "base \<subseteq>\<^sub>m dv_live d"
    and "finite (dom (dv_live d))" and "dv_faults d = 0" using assms by (simp_all add: owns_def)
  have M: "owned M = mset_set ?A" and A: "?A \<subseteq> ?X"
  proof -
    have "set_mset (owned M + owned N) = ?X" unfolding sum using fin by simp
    then show A: "?A \<subseteq> ?X" by auto
    have "count (owned M) r = (if r \<in># owned M then 1 else 0)" for r
    proof -
      have "count (owned M) r \<le> count (mset_set ?X) r" unfolding sum [symmetric] by simp
      also have "\<dots> \<le> 1" using fin by (cases "r \<in> ?X") simp_all
      finally show ?thesis by (auto simp: count_eq_zero_iff le_Suc_eq)
    qed
    then show "owned M = mset_set ?A" by (intro multiset_eqI) (simp add: count_mset_set')
  qed
  have dom: "dom ?base = dom base \<union> ?A" unfolding dom_restrict using A map_le_implies_dom_le [OF le] by blast
  have rest: "dom (dv_live d) - dom ?base = ?X - ?A" unfolding dom by blast
  have "owned N = mset_set ?X - mset_set ?A" using sum M by (metis add_diff_cancel_left')
  also have "\<dots> = mset_set (dom (dv_live d) - dom ?base)" unfolding rest using mset_set_Diff [OF fin A] by simp
  finally show "owns ?base N d"
    using \<open>finite (dom (dv_live d))\<close> \<open>dv_faults d = 0\<close> by (simp add: owns_def map_le_def)
  show "r \<in> dom ?base" if "r \<in># M" "snd r \<noteq> 0" for r unfolding dom using that by (simp add: owned_def)
  show "owns base (M + N') d'" if own: "owns ?base N' d'" for N' d'
  proof -
    have sub: "?base \<subseteq>\<^sub>m dv_live d'" and f: "finite (dom (dv_live d'))" using own by (simp_all add: owns_def)
    have "base \<subseteq>\<^sub>m ?base" using le by (auto simp: map_le_def restrict_map_def)
    then have "base \<subseteq>\<^sub>m dv_live d'" using sub map_le_trans by blast
    moreover have "dom (dv_live d') - dom base = ?A \<union> (dom (dv_live d') - dom ?base)" (is "_ = _ \<union> ?new")
      using map_le_implies_dom_le [OF sub] A unfolding dom by blast
    then have "mset_set (dom (dv_live d') - dom base) = mset_set ?A + mset_set ?new"
      using mset_set_Union [of ?A ?new] f unfolding dom by auto
    ultimately show ?thesis using own M by (simp add: owns_def)
  qed
qed

definition stream_alive :: "(resource \<rightharpoonup> u64) \<Rightarrow> nat \<Rightarrow> bool" where
  "stream_alive base s \<longleftrightarrow> (CudaStream, s) \<in> dom base"

lemma use_stream: "owns base M d \<Longrightarrow> stream_alive base s \<Longrightarrow> use_stream s d = d"
  using map_le_implies_dom_le by (fastforce simp: owns_def use_stream_def stream_alive_def)

section \<open>Computations that may abort\<close>

text \<open>
  Every rule is a step from what is owned before to what is owned after; \<open>drule (2) owns_rules\<close> takes the
  equations of a computation one after the other.
\<close>

lemma owns_create:
  "cuda_create R kind bytes d = Some (p, d') \<Longrightarrow> owns base M d \<Longrightarrow> fresh_runtime R \<Longrightarrow> owns base (add_mset (kind, p) M) d'"
  using owns_created by (auto simp: cuda_create_def split: prod.splits option.splits)

lemma owns_check: "CUDA_CHECK R d = Some d' \<Longrightarrow> owns base M d \<Longrightarrow> fresh_runtime R \<Longrightarrow> owns base M d'"
  by (auto simp: CUDA_CHECK_def split: if_splits)

lemma owns_checks: "checked_calls R n d = Some d' \<Longrightarrow> owns base M d \<Longrightarrow> fresh_runtime R \<Longrightarrow> owns base M d'"
  by (induction n arbitrary: d) (auto simp: bind_eq_Some_conv dest: owns_check)

lemma owns_check_on:
  "CUDA_CHECK R (use_stream s d) = Some d' \<Longrightarrow> owns base M d \<Longrightarrow> stream_alive base s \<Longrightarrow> owns base M d'"
  using use_stream by (fastforce simp: CUDA_CHECK_def split: if_splits)

lemma owns_checks_on:
  assumes "checked_calls R n (use_stream s d) = Some d'" and "owns base M d" and "stream_alive base s"
  shows "owns base M d'"
  using assms(1) unfolding use_stream [OF assms(2,3)] using assms(2)
  by (induction n arbitrary: d) (auto simp: bind_eq_Some_conv CUDA_CHECK_def split: if_splits)

lemmas owns_rules = owns_create owns_check owns_checks owns_check_on owns_checks_on

lemma owns_handles:
  "new_handles R d = Some (h, d') \<Longrightarrow> owns base M d \<Longrightarrow> fresh_runtime R \<Longrightarrow> owns base
     ({#(BlasHandle, ch_cublas h), (SparseHandle, ch_cusparse h), (SolverHandle, ch_cusolver h)#} + M) d'"
  by (clarsimp simp: new_handles_def bind_eq_Some_conv) ((drule (2) owns_rules)+, simp add: add_mset_commute)

lemma owns_set_stream: "set_stream R s d = Some d' \<Longrightarrow> owns base M d \<Longrightarrow> stream_alive base s \<Longrightarrow> owns base M d'"
  unfolding set_stream_def by (rule owns_checks_on)

section \<open>Computations that do not abort\<close>

text \<open>A runtime that does not fail as long as finitely many resources are alive.\<close>

definition generous_runtime :: "cuda_runtime \<Rightarrow> bool" where
  "generous_runtime R \<longleftrightarrow>
     (\<forall>live kind bytes i. finite (dom live) \<longrightarrow> rt_create R live kind bytes i \<noteq> None) \<and> (\<forall>i. rt_check R i)"

definition finite_device :: "device \<Rightarrow> bool" where
  "finite_device d \<longleftrightarrow> finite (dom (dv_live d))"

text \<open>The computation returns; \<open>f\<close> picks the device out of its result.\<close>

definition returns :: "('a \<Rightarrow> device) \<Rightarrow> 'a option \<Rightarrow> bool" where
  "returns f m \<longleftrightarrow> (\<exists>x. m = Some x \<and> finite_device (f x))"

lemma returns_Some [simp]: "returns f (Some x) = finite_device (f x)"
  by (simp add: returns_def)

lemma returns_bind: "returns f m \<Longrightarrow> (\<And>x. finite_device (f x) \<Longrightarrow> returns g (h x)) \<Longrightarrow> returns g (m \<bind> h)"
  by (auto simp: returns_def)

lemma returns_if: "(c \<Longrightarrow> returns f a) \<Longrightarrow> (\<not> c \<Longrightarrow> returns f b) \<Longrightarrow> returns f (if c then a else b)"
  by simp

lemma finite_device_simps [simp]:
  "finite_device (destroy kind p d) = finite_device d" "finite_device (use_stream s d) = finite_device d"
  "finite_device (free_unless_null r d) = finite_device d" "finite_device (device_free p d) = finite_device d"
  "finite_device (pinned_free p d) = finite_device d"
proof -
  show d: "finite_device (destroy kind p d) = finite_device d" for kind p
  proof -
    have "finite (dom (dv_live d) - {(kind, p)}) = finite (dom (dv_live d))" by simp
    then show ?thesis by (simp add: finite_device_def destroy_def)
  qed
  show "finite_device (use_stream s d) = finite_device d" by (simp add: finite_device_def use_stream_def)
  show "finite_device (free_unless_null r d) = finite_device d" "finite_device (device_free p d) = finite_device d"
    "finite_device (pinned_free p d) = finite_device d"
    by (simp_all add: free_unless_null_def device_free_def pinned_free_def d split: prod.split)
qed

lemma returns_create: "generous_runtime R \<Longrightarrow> finite_device d \<Longrightarrow> returns snd (cuda_create R kind bytes d)"
  by (auto simp: returns_def cuda_create_def try_create_def generous_runtime_def finite_device_def split: prod.splits option.splits)

lemma returns_check: "generous_runtime R \<Longrightarrow> finite_device d \<Longrightarrow> returns (\<lambda>d. d) (CUDA_CHECK R d)"
  by (simp add: CUDA_CHECK_def generous_runtime_def finite_device_def)

lemma returns_checks: "generous_runtime R \<Longrightarrow> finite_device d \<Longrightarrow> returns (\<lambda>d. d) (checked_calls R n d)"
proof (induction n arbitrary: d)
  case (Suc n)
  then show ?case unfolding checked_calls.simps by (blast intro: returns_bind returns_check)
qed simp

lemma returns_allocs:
  assumes "generous_runtime R" and "finite_device d"
  shows "returns snd (device_alloc R sizeof_T n d)" and "returns snd (pinned_alloc R sizeof_T n d)"
    and "returns snd (StreamGuard R d)" and "returns snd (EventGuard R d)" and "returns (\<lambda>d. d) (stream_sync R s d)"
    and "returns (\<lambda>d. d) (event_record R s d)"
  using assms returns_create returns_check
  by (simp_all add: device_alloc_def pinned_alloc_def StreamGuard_def EventGuard_def stream_sync_def event_record_def)

lemmas returns_rules = returns_if returns_bind [of snd] returns_bind [of "\<lambda>d. d"] returns_create returns_check returns_checks returns_allocs

lemma returns_handles: "generous_runtime R \<Longrightarrow> finite_device d \<Longrightarrow> returns snd (new_handles R d)"
  unfolding new_handles_def by (intro returns_rules | clarsimp)+

end
