(* ===== verification/Device_Buffers.thy ===== *)
theory Device_Buffers
  imports Device_Runtime Floer_Homology Market_Graph
begin

text \<open>
  The owners of device memory below the pipeline, each with its allocation and its release: the book
  mirror (\<open>math/gpu_lob_mirror.cu\<close>), the Laplacian and the spectral workspace (\<open>math/lobpcg_solver.cuh\<close>), the
  workspace of the decomposition (\<open>math/hodge_kernel.cuh\<close>) with the scratch memory of one tick
  (\<open>math/hodge_kernel.cu\<close>), the workspace of the homology pass (\<open>math/floer_homology.cuh\<close>) and the label
  buffer of the clusterer (\<open>ai/cuml_clustering.cu\<close>).

  A pointer is a number, 0 is null. What the buffers hold is modelled by the theories of the components;
  here only their lives and sizes count.
\<close>

definition sizeof_float :: u64 where "sizeof_float = 4"
definition sizeof_int :: u64 where "sizeof_int = 4"
definition sizeof_CriticalPoint :: u64 where "sizeof_CriticalPoint = 16"
definition sizeof_InstantonPath :: u64 where "sizeof_InstantonPath = 20"

text \<open>An allocation that an earlier tick may have made already.\<close>

definition alloc_once :: "cuda_runtime \<Rightarrow> u64 \<Rightarrow> u64 \<Rightarrow> nat \<Rightarrow> device \<Rightarrow> (nat \<times> device) option" where
  "alloc_once R sizeof_T n ptr d = (if ptr = 0 then device_alloc R sizeof_T n d else Some (ptr, d))"

section \<open>Book mirror\<close>

record MirrorBuffers =
  mb_stage :: "nat list"
  mb_device :: "nat list"

definition mirror_alloc :: "cuda_runtime \<Rightarrow> u64 \<Rightarrow> device \<Rightarrow> (MirrorBuffers \<times> device) option" where
  "mirror_alloc R n_floats d = do {
     (s1, d) \<leftarrow> pinned_alloc R sizeof_float n_floats d;
     (s2, d) \<leftarrow> pinned_alloc R sizeof_float n_floats d;
     (s3, d) \<leftarrow> pinned_alloc R sizeof_float n_floats d;
     (s4, d) \<leftarrow> pinned_alloc R sizeof_float n_floats d;
     (b1, d) \<leftarrow> device_alloc R sizeof_float n_floats d;
     (b2, d) \<leftarrow> device_alloc R sizeof_float n_floats d;
     (b3, d) \<leftarrow> device_alloc R sizeof_float n_floats d;
     (b4, d) \<leftarrow> device_alloc R sizeof_float n_floats d;
     d \<leftarrow> checked_calls R 4 d;
     Some (\<lparr>mb_stage = [s1, s2, s3, s4], mb_device = [b1, b2, b3, b4]\<rparr>, d)
   }"

definition GpuLobMirror_dtor :: "MirrorBuffers \<Rightarrow> device \<Rightarrow> device" where
  "GpuLobMirror_dtor B d = fold device_free (mb_device B) (fold pinned_free (mb_stage B) d)"

section \<open>Graph and spectral workspace\<close>

record LaplacianBuffers =
  lb_row_ptr :: nat
  lb_col_idx :: nat
  lb_values :: nat
  lb_descr :: nat

definition no_laplacian :: LaplacianBuffers where
  "no_laplacian = \<lparr>lb_row_ptr = 0, lb_col_idx = 0, lb_values = 0, lb_descr = 0\<rparr>"

definition laplacian_device ::
    "cuda_runtime \<Rightarrow> nat \<Rightarrow> nat \<Rightarrow> LaplacianBuffers \<Rightarrow> device \<Rightarrow> (LaplacianBuffers \<times> device) option" where
  "laplacian_device R stream n B d = do {
     (row_ptr, d) \<leftarrow> alloc_once R sizeof_int (word_of_nat (n + 1)) (lb_row_ptr B) d;
     (col_idx, d) \<leftarrow> alloc_once R sizeof_int (word_of_nat (n * n)) (lb_col_idx B) d;
     (values, d) \<leftarrow> alloc_once R sizeof_float (word_of_nat (n * n)) (lb_values B) d;
     d \<leftarrow> checked_calls R 3 (use_stream stream d);
     Some (B\<lparr>lb_row_ptr := row_ptr, lb_col_idx := col_idx, lb_values := values\<rparr>, d)
   }"

definition SparseLaplacian_dtor :: "LaplacianBuffers \<Rightarrow> device \<Rightarrow> device" where
  "SparseLaplacian_dtor B d = fold free_unless_null
     [(DeviceMem, lb_row_ptr B), (DeviceMem, lb_col_idx B), (DeviceMem, lb_values B), (SparseDescr, lb_descr B)] d"

definition laplacian_release :: "LaplacianBuffers \<Rightarrow> device \<Rightarrow> LaplacianBuffers \<times> device" where
  "laplacian_release B d = (no_laplacian, SparseLaplacian_dtor B d)"

text \<open>Only the first buffer of the spectral workspace is ever allocated.\<close>

record LobpcgBuffers =
  lo_X :: nat
  lo_others :: "nat list"

definition no_lobpcg :: LobpcgBuffers where "no_lobpcg = \<lparr>lo_X = 0, lo_others = replicate 9 0\<rparr>"

definition lobpcg_device :: "cuda_runtime \<Rightarrow> nat \<Rightarrow> nat \<Rightarrow> LobpcgBuffers \<Rightarrow> device \<Rightarrow> (LobpcgBuffers \<times> device) option" where
  "lobpcg_device R n k B d = do {
     (X, d) \<leftarrow> alloc_once R sizeof_float (word_of_nat (n * k)) (lo_X B) d;
     Some (B\<lparr>lo_X := X\<rparr>, d)
   }"

definition LobpcgWorkspace_dtor :: "LobpcgBuffers \<Rightarrow> device \<Rightarrow> device" where
  "LobpcgWorkspace_dtor B d = fold device_free (lo_X B # lo_others B) d"

section \<open>Decomposition\<close>

record HodgeBuffers =
  hb_B1 :: nat
  hb_B2 :: nat
  hb_L1 :: nat
  hb_omega :: nat
  hb_eigenvalues_L1 :: nat
  hb_eigenvectors_L1 :: nat
  hb_gamma :: nat
  hb_exact :: nat
  hb_coexact :: nat
  hb_curl_magnitude :: nat
  hb_arb_signal :: nat
  hb_prune_mask :: nat
  hb_edge_src :: nat
  hb_edge_dst :: nat
  hb_triangle_edges :: nat
  hb_count :: nat

definition hodge_alloc :: "cuda_runtime \<Rightarrow> nat \<Rightarrow> u64 \<Rightarrow> u64 \<Rightarrow> u64 \<Rightarrow> device \<Rightarrow> (HodgeBuffers \<times> device) option" where
  "hodge_alloc R stream nn ne nt d = do {
     (B1, d) \<leftarrow> device_alloc R sizeof_float (nn * ne) d;
     (B2, d) \<leftarrow> device_alloc R sizeof_float (ne * nt) d;
     (L1, d) \<leftarrow> device_alloc R sizeof_float (ne * ne) d;
     (omega, d) \<leftarrow> device_alloc R sizeof_float ne d;
     (eigenvalues, d) \<leftarrow> device_alloc R sizeof_float ne d;
     (eigenvectors, d) \<leftarrow> device_alloc R sizeof_float (ne * ne) d;
     (gamma, d) \<leftarrow> device_alloc R sizeof_float ne d;
     (exact, d) \<leftarrow> device_alloc R sizeof_float ne d;
     (coexact, d) \<leftarrow> device_alloc R sizeof_float ne d;
     (curl, d) \<leftarrow> device_alloc R sizeof_float ne d;
     (arb, d) \<leftarrow> device_alloc R sizeof_float ne d;
     (mask, d) \<leftarrow> device_alloc R 1 nn d;
     (src, d) \<leftarrow> device_alloc R sizeof_int ne d;
     (dst, d) \<leftarrow> device_alloc R sizeof_int ne d;
     (tri, d) \<leftarrow> device_alloc R sizeof_int (nt * 3) d;
     (cnt, d) \<leftarrow> device_alloc R sizeof_int 1 d;
     d \<leftarrow> checked_calls R 11 (use_stream stream d);
     Some (\<lparr>hb_B1 = B1, hb_B2 = B2, hb_L1 = L1, hb_omega = omega, hb_eigenvalues_L1 = eigenvalues,
        hb_eigenvectors_L1 = eigenvectors, hb_gamma = gamma, hb_exact = exact, hb_coexact = coexact,
        hb_curl_magnitude = curl, hb_arb_signal = arb, hb_prune_mask = mask, hb_edge_src = src, hb_edge_dst = dst,
        hb_triangle_edges = tri, hb_count = cnt\<rparr>, d)
   }"

definition HodgeWorkspace_dtor :: "HodgeBuffers \<Rightarrow> device \<Rightarrow> device" where
  "HodgeWorkspace_dtor B d = fold device_free
     [hb_B1 B, hb_B2 B, hb_L1 B, hb_omega B, hb_eigenvalues_L1 B, hb_eigenvectors_L1 B, hb_gamma B, hb_exact B,
      hb_coexact B, hb_curl_magnitude B, hb_arb_signal B, hb_prune_mask B, hb_edge_src B, hb_edge_dst B,
      hb_triangle_edges B, hb_count B] d"

text \<open>The scratch memory of \<open>build_incidence_matrices\<close> and \<open>compute_hodge_decomposition\<close>.\<close>

definition incidence_device :: "cuda_runtime \<Rightarrow> nat \<Rightarrow> device \<Rightarrow> device option" where
  "incidence_device R stream d = do {
     (edge_ctr, d) \<leftarrow> device_alloc R sizeof_int 1 d;
     d \<leftarrow> checked_calls R 4 (use_stream stream d);
     (tri_ctr, d) \<leftarrow> device_alloc R sizeof_int 1 d;
     d \<leftarrow> checked_calls R 4 (use_stream stream d);
     Some (device_free tri_ctr (device_free edge_ctr d))
   }"

definition harmonic_count_device :: "cuda_runtime \<Rightarrow> nat \<Rightarrow> nat \<Rightarrow> device \<Rightarrow> device option" where
  "harmonic_count_device R stream ne d = do {
     (evals, d) \<leftarrow> pinned_alloc R sizeof_float (word_of_nat ne) d;
     d \<leftarrow> checked_calls R 2 (use_stream stream d);
     Some (pinned_free evals d)
   }"

definition decomposition_device :: "cuda_runtime \<Rightarrow> nat \<Rightarrow> nat \<Rightarrow> nat \<Rightarrow> device \<Rightarrow> device option" where
  "decomposition_device R stream ne lwork d =
     (if ne = 0 then Some d
      else do {
        (cusolver, d) \<leftarrow> cuda_create R SolverHandle 0 d;
        d \<leftarrow> checked_calls R 3 (use_stream stream d);
        (work, d) \<leftarrow> device_alloc R sizeof_float (word_of_nat lwork) d;
        (info, d) \<leftarrow> device_alloc R sizeof_int 1 d;
        d \<leftarrow> checked_calls R 3 (use_stream stream d);
        d \<leftarrow> harmonic_count_device R stream ne d;
        (node_pot, d) \<leftarrow> device_alloc R sizeof_float (word_of_nat ne) d;
        (ym, d) \<leftarrow> device_alloc R sizeof_float 1 d;
        d \<leftarrow> checked_calls R 3 (use_stream stream d);
        Some (destroy SolverHandle cusolver
          (device_free ym (device_free node_pot (device_free info (device_free work d)))))
      })"

section \<open>Homology pass\<close>

record FloerBuffers =
  fb_d_criticals :: nat
  fb_d_instantons :: nat
  fb_d_hessian :: nat
  fb_d_boundary_matrix :: nat
  fb_d_n_criticals :: nat
  fb_d_n_instantons :: nat
  fb_h_criticals :: nat
  fb_h_instantons :: nat
  fb_h_boundary_matrix :: nat
  fb_max_criticals :: nat

definition floer_allocate :: "cuda_runtime \<Rightarrow> nat \<Rightarrow> device \<Rightarrow> (FloerBuffers \<times> device) option" where
  "floer_allocate R max_criticals d =
     (let mc = word_of_nat max_criticals; mc2 = mc * mc
      in do {
        (crit, d) \<leftarrow> cuda_create R DeviceMem (mc * sizeof_CriticalPoint) d;
        (inst, d) \<leftarrow> cuda_create R DeviceMem (mc2 * sizeof_InstantonPath) d;
        (hess, d) \<leftarrow> cuda_create R DeviceMem (mc * sizeof_float) d;
        (bound, d) \<leftarrow> cuda_create R DeviceMem (mc2 * sizeof_int) d;
        (n_crit, d) \<leftarrow> cuda_create R DeviceMem sizeof_int d;
        (n_inst, d) \<leftarrow> cuda_create R DeviceMem sizeof_int d;
        (h_crit, d) \<leftarrow> pinned_alloc R sizeof_CriticalPoint mc d;
        (h_inst, d) \<leftarrow> pinned_alloc R sizeof_InstantonPath mc2 d;
        (h_bound, d) \<leftarrow> pinned_alloc R sizeof_int mc2 d;
        Some (\<lparr>fb_d_criticals = crit, fb_d_instantons = inst, fb_d_hessian = hess, fb_d_boundary_matrix = bound,
          fb_d_n_criticals = n_crit, fb_d_n_instantons = n_inst, fb_h_criticals = h_crit, fb_h_instantons = h_inst,
          fb_h_boundary_matrix = h_bound, fb_max_criticals = max_criticals\<rparr>, d)
      })"

text \<open>\<open>free_all\<close> sets five of the nine pointers to null.\<close>

definition floer_free_all :: "FloerBuffers \<Rightarrow> device \<Rightarrow> FloerBuffers \<times> device" where
  "floer_free_all B d =
     (let d = fold device_free [fb_d_criticals B, fb_d_instantons B, fb_d_hessian B, fb_d_boundary_matrix B,
                fb_d_n_criticals B, fb_d_n_instantons B] d;
          d = fold pinned_free [fb_h_criticals B, fb_h_instantons B, fb_h_boundary_matrix B] d
      in (B\<lparr>fb_d_criticals := 0, fb_d_instantons := 0, fb_h_criticals := 0, fb_h_instantons := 0,
            fb_h_boundary_matrix := 0\<rparr>, d))"

definition FloerWorkspace_dtor :: "FloerBuffers \<Rightarrow> device \<Rightarrow> device" where
  "FloerWorkspace_dtor B d = snd (floer_free_all B d)"

section \<open>Label buffer\<close>

record LabelBuffer =
  la_labels :: nat
  la_capacity :: nat

definition label_device :: "cuda_runtime \<Rightarrow> nat \<Rightarrow> nat \<Rightarrow> LabelBuffer \<Rightarrow> device \<Rightarrow> (LabelBuffer \<times> device) option" where
  "label_device R stream n_samples B d =
     (if n_samples \<le> la_capacity B then Some (B, d)
      else do {
        d \<leftarrow> (if la_labels B \<noteq> 0 then CUDA_CHECK R (destroy DeviceMem (la_labels B) (use_stream stream d)) else Some d);
        (labels, d) \<leftarrow> cuda_create R DeviceMem (word_of_nat n_samples * sizeof_int) (use_stream stream d);
        Some (\<lparr>la_labels = labels, la_capacity = n_samples\<rparr>, d)
      })"

text \<open>\<open>fit\<close> with its buffer and its checked calls; the clustering library works on the stream.\<close>

definition fit_device ::
    "cuda_runtime \<Rightarrow> bool \<Rightarrow> nat \<Rightarrow> nat \<Rightarrow> nat \<Rightarrow> LabelBuffer \<Rightarrow> device \<Rightarrow> (LabelBuffer \<times> device) option" where
  "fit_device R has_cuml stream n_samples n_features B d =
     (if \<not> has_cuml \<or> n_samples = 0 \<or> n_features = 0 then Some (B, d)
      else do {
        (B, d) \<leftarrow> label_device R stream n_samples B d;
        d \<leftarrow> checked_calls R 2 (use_stream stream d);
        Some (B, d)
      })"

definition TopologyClusterer_dtor :: "nat \<Rightarrow> LabelBuffer \<Rightarrow> device \<Rightarrow> device" where
  "TopologyClusterer_dtor stream B d =
     (if la_labels B \<noteq> 0 then destroy DeviceMem (la_labels B) (use_stream stream d) else d)"

section \<open>Allocation and release\<close>

lemma owns_alloc_once:
  "alloc_once R sizeof_T n ptr d = Some (p, d') \<Longrightarrow> owns base (add_mset (DeviceMem, ptr) M) d \<Longrightarrow> fresh_runtime R \<Longrightarrow>
   owns base (add_mset (DeviceMem, p) M) d'"
  using owns_create [of R DeviceMem "sizeof_T * n" d p d' base M]
  by (auto simp: alloc_once_def device_alloc_def owns_def split: if_splits)

lemma owns_frees:
  "owns base (mset (map (Pair DeviceMem) ps) + M) d \<Longrightarrow> owns base M (fold device_free ps d)"
  "owns base (mset (map (Pair PinnedMem) ps) + M) d \<Longrightarrow> owns base M (fold pinned_free ps d)"
proof -
  have "fold device_free ps = fold free_unless_null (map (Pair DeviceMem) ps)"
    and "fold pinned_free ps = fold free_unless_null (map (Pair PinnedMem) ps)"
    by (simp_all add: fold_map comp_def frees [abs_def])
  then show "owns base (mset (map (Pair DeviceMem) ps) + M) d \<Longrightarrow> owns base M (fold device_free ps d)"
    "owns base (mset (map (Pair PinnedMem) ps) + M) d \<Longrightarrow> owns base M (fold pinned_free ps d)"
    using owns_free_all by fastforce+
qed

lemmas owns_defs = device_alloc_def pinned_alloc_def bind_eq_Some_conv Let_def

definition mirror_owned :: "MirrorBuffers \<Rightarrow> resource multiset" where
  "mirror_owned B = mset (map (Pair DeviceMem) (mb_device B)) + mset (map (Pair PinnedMem) (mb_stage B))"

lemma owns_mirror:
  "mirror_alloc R n d = Some (B, d') \<Longrightarrow> owns base M d \<Longrightarrow> fresh_runtime R \<Longrightarrow> owns base (mirror_owned B + M) d'"
  by (clarsimp simp: mirror_alloc_def owns_defs)
    ((drule (2) owns_rules)+, simp add: mirror_owned_def add_mset_commute)

lemma mirror_freed: "owns base (mirror_owned B + M) d \<Longrightarrow> owns base M (GpuLobMirror_dtor B d)"
  unfolding GpuLobMirror_dtor_def mirror_owned_def by (intro owns_frees) (simp add: ac_simps)

definition laplacian_owned :: "LaplacianBuffers \<Rightarrow> resource multiset" where
  "laplacian_owned B =
     {#(DeviceMem, lb_row_ptr B), (DeviceMem, lb_col_idx B), (DeviceMem, lb_values B), (SparseDescr, lb_descr B)#}"

lemma owns_laplacian:
  assumes "laplacian_device R stream n B d = Some (B', d')" and own: "owns base (laplacian_owned B + M) d"
    and fresh: "fresh_runtime R" and stream: "stream_alive base stream"
  shows "owns base (laplacian_owned B' + M) d'"
proof -
  obtain r d1 c d2 v d3 where
    e: "alloc_once R sizeof_int (word_of_nat (n + 1)) (lb_row_ptr B) d = Some (r, d1)"
      "alloc_once R sizeof_int (word_of_nat (n * n)) (lb_col_idx B) d1 = Some (c, d2)"
      "alloc_once R sizeof_float (word_of_nat (n * n)) (lb_values B) d2 = Some (v, d3)"
      "checked_calls R 3 (use_stream stream d3) = Some d'"
    and B': "B' = B\<lparr>lb_row_ptr := r, lb_col_idx := c, lb_values := v\<rparr>"
    using assms(1) by (auto simp: laplacian_device_def bind_eq_Some_conv)
  have "owns base (add_mset (DeviceMem, lb_row_ptr B) ({#(DeviceMem, lb_col_idx B), (DeviceMem, lb_values B), (SparseDescr, lb_descr B)#} + M)) d"
    using own by (simp add: laplacian_owned_def)
  from owns_alloc_once [OF e(1) this fresh]
  have "owns base (add_mset (DeviceMem, lb_col_idx B) ({#(DeviceMem, r), (DeviceMem, lb_values B), (SparseDescr, lb_descr B)#} + M)) d1"
    by (simp add: add_mset_commute)
  from owns_alloc_once [OF e(2) this fresh]
  have "owns base (add_mset (DeviceMem, lb_values B) ({#(DeviceMem, r), (DeviceMem, c), (SparseDescr, lb_descr B)#} + M)) d2"
    by (simp add: add_mset_commute)
  from owns_checks_on [OF e(4) owns_alloc_once [OF e(3) this fresh] stream]
  show ?thesis by (simp add: laplacian_owned_def B' add_mset_commute)
qed

lemma laplacian_freed: "owns base (laplacian_owned B + M) d \<Longrightarrow> owns base M (SparseLaplacian_dtor B d)"
  unfolding SparseLaplacian_dtor_def by (rule owns_free_all) (simp add: laplacian_owned_def)

text \<open>Every pointer that \<open>release\<close> frees is set to null, so the destructor after it does nothing.\<close>

lemma release_then_dtor: "SparseLaplacian_dtor (fst (laplacian_release B d)) d' = d'"
  by (simp add: laplacian_release_def SparseLaplacian_dtor_def no_laplacian_def free_unless_null_def)

lemma laplacian_released: "owns base (laplacian_owned B + M) d \<Longrightarrow> owns base M (snd (laplacian_release B d))"
  by (simp add: laplacian_release_def laplacian_freed)

definition lobpcg_owned :: "LobpcgBuffers \<Rightarrow> resource multiset" where
  "lobpcg_owned B = mset (map (Pair DeviceMem) (lo_X B # lo_others B))"

lemma owns_lobpcg:
  "lobpcg_device R n k B d = Some (B', d') \<Longrightarrow> owns base (lobpcg_owned B + M) d \<Longrightarrow> fresh_runtime R \<Longrightarrow>
   owns base (lobpcg_owned B' + M) d'"
  by (auto simp: lobpcg_device_def lobpcg_owned_def bind_eq_Some_conv dest: owns_alloc_once)

lemma lobpcg_freed: "owns base (lobpcg_owned B + M) d \<Longrightarrow> owns base M (LobpcgWorkspace_dtor B d)"
  unfolding LobpcgWorkspace_dtor_def lobpcg_owned_def by (rule owns_frees)

definition hodge_owned :: "HodgeBuffers \<Rightarrow> resource multiset" where
  "hodge_owned B = mset (map (Pair DeviceMem)
     [hb_B1 B, hb_B2 B, hb_L1 B, hb_omega B, hb_eigenvalues_L1 B, hb_eigenvectors_L1 B, hb_gamma B, hb_exact B,
      hb_coexact B, hb_curl_magnitude B, hb_arb_signal B, hb_prune_mask B, hb_edge_src B, hb_edge_dst B,
      hb_triangle_edges B, hb_count B])"

lemma owns_hodge:
  "hodge_alloc R stream nn ne nt d = Some (B, d') \<Longrightarrow> owns base M d \<Longrightarrow> fresh_runtime R \<Longrightarrow>
   stream_alive base stream \<Longrightarrow> owns base (hodge_owned B + M) d'"
  by (clarsimp simp: hodge_alloc_def owns_defs)
    ((drule (2) owns_rules)+, simp add: hodge_owned_def add_mset_commute)

lemma hodge_freed: "owns base (hodge_owned B + M) d \<Longrightarrow> owns base M (HodgeWorkspace_dtor B d)"
  unfolding HodgeWorkspace_dtor_def hodge_owned_def by (rule owns_frees)

text \<open>The scratch memory of a tick is gone at its end.\<close>

lemma owns_incidence:
  "incidence_device R stream d = Some d' \<Longrightarrow> owns base M d \<Longrightarrow> fresh_runtime R \<Longrightarrow> stream_alive base stream \<Longrightarrow>
   owns base M d'"
  by (clarsimp simp: incidence_device_def owns_defs)
    ((drule (2) owns_rules)+, simp add: frees add_mset_commute)

definition floer_owned :: "FloerBuffers \<Rightarrow> resource multiset" where
  "floer_owned B =
     mset (map (Pair DeviceMem) [fb_d_criticals B, fb_d_instantons B, fb_d_hessian B, fb_d_boundary_matrix B,
       fb_d_n_criticals B, fb_d_n_instantons B]) +
     mset (map (Pair PinnedMem) [fb_h_criticals B, fb_h_instantons B, fb_h_boundary_matrix B])"

lemma owns_floer:
  "floer_allocate R n d = Some (B, d') \<Longrightarrow> owns base M d \<Longrightarrow> fresh_runtime R \<Longrightarrow> owns base (floer_owned B + M) d'"
  by (clarsimp simp: floer_allocate_def owns_defs)
    ((drule (2) owns_rules)+, simp add: floer_owned_def add_mset_commute)

lemma floer_freed: "owns base (floer_owned B + M) d \<Longrightarrow> owns base M (FloerWorkspace_dtor B d)"
  unfolding FloerWorkspace_dtor_def floer_free_all_def floer_owned_def Let_def snd_conv
  by (intro owns_frees) (simp add: ac_simps)

lemma owns_harmonic_count:
  "harmonic_count_device R stream ne d = Some d' \<Longrightarrow> owns base M d \<Longrightarrow> fresh_runtime R \<Longrightarrow> stream_alive base stream \<Longrightarrow>
   owns base M d'"
  by (clarsimp simp: harmonic_count_device_def owns_defs)
    ((drule (2) owns_rules)+, simp add: frees)

lemma created_not_null:
  "cuda_create R kind bytes d = Some (p, d') \<Longrightarrow> fresh_runtime R \<Longrightarrow> kind \<notin> {DeviceMem, PinnedMem} \<Longrightarrow> p \<noteq> 0"
  unfolding cuda_create_def try_create_def fresh_runtime_def by (fastforce split: option.splits)

lemma owns_decomposition:
  assumes "decomposition_device R stream ne lwork d = Some d'" and "owns base M d" and "fresh_runtime R"
    and "stream_alive base stream"
  shows "owns base M d'"
proof (cases "ne = 0")
  case False
  then obtain h d1 d2 w d3 i d4 d5 d6 n d7 y d8 d9 where e:
    "cuda_create R SolverHandle 0 d = Some (h, d1)" "checked_calls R 3 (use_stream stream d1) = Some d2"
    "cuda_create R DeviceMem (sizeof_float * word_of_nat lwork) d2 = Some (w, d3)"
    "cuda_create R DeviceMem (sizeof_int * 1) d3 = Some (i, d4)"
    "checked_calls R 3 (use_stream stream d4) = Some d5" "harmonic_count_device R stream ne d5 = Some d6"
    "cuda_create R DeviceMem (sizeof_float * word_of_nat ne) d6 = Some (n, d7)"
    "cuda_create R DeviceMem (sizeof_float * 1) d7 = Some (y, d8)" "checked_calls R 3 (use_stream stream d8) = Some d9"
    and d': "d' = destroy SolverHandle h (device_free y (device_free n (device_free i (device_free w d9))))"
    using assms(1) by (auto simp: decomposition_device_def owns_defs)
  note made = owns_create [OF _ _ assms(3)] and checked = owns_checks_on [OF _ _ assms(4)]
  note o5 = checked [OF e(5) made [OF e(4) made [OF e(3) checked [OF e(2) made [OF e(1) assms(2)]]]]]
  note o6 = owns_harmonic_count [OF e(6) o5 assms(3,4)]
  note o9 = checked [OF e(9) made [OF e(8) made [OF e(7) o6]]]
  have "owns base (add_mset (SolverHandle, h) M) (device_free y (device_free n (device_free i (device_free w d9))))"
    unfolding frees by (intro owns_free) (use o9 in \<open>simp add: add_mset_commute\<close>)
  then show ?thesis unfolding d' by (rule owns_destroyed) (use created_not_null [OF e(1) assms(3)] in simp)
qed (use assms in \<open>simp add: decomposition_device_def\<close>)

definition label_owned :: "LabelBuffer \<Rightarrow> resource multiset" where
  "label_owned B = {#(DeviceMem, la_labels B)#}"

lemma owns_label:
  assumes "label_device R stream n B d = Some (B', d')" and own: "owns base (label_owned B + M) d"
    and fresh: "fresh_runtime R" and stream: "stream_alive base stream"
  shows "owns base (label_owned B' + M) d'"
proof (cases "n \<le> la_capacity B")
  case False
  then obtain d1 p where 1: "(if la_labels B \<noteq> 0 then CUDA_CHECK R (destroy DeviceMem (la_labels B) (use_stream stream d)) else Some d) = Some d1"
    and 2: "cuda_create R DeviceMem (word_of_nat n * sizeof_int) (use_stream stream d1) = Some (p, d')"
    and B': "B' = \<lparr>la_labels = p, la_capacity = n\<rparr>"
    using assms(1) by (auto simp: label_device_def bind_eq_Some_conv)
  have "owns base M d1"
  proof (cases "la_labels B = 0")
    case True
    then show ?thesis using 1 own by (simp add: label_owned_def owns_def)
  next
    case False
    then have "owns base M (destroy DeviceMem (la_labels B) (use_stream stream d))"
      using own use_stream [OF own stream] by (simp add: label_owned_def owns_destroyed)
    then show ?thesis using 1 False owns_check fresh by simp
  qed
  then have "owns base (add_mset (DeviceMem, p) M) d'"
    using 2 owns_create fresh by (simp add: use_stream [OF _ stream])
  then show ?thesis by (simp add: B' label_owned_def)
qed (use assms in \<open>simp add: label_device_def\<close>)

lemma owns_fit:
  assumes "fit_device R has_cuml stream n_samples n_features B d = Some (B', d')" and "owns base (label_owned B + M) d"
    and "fresh_runtime R" and "stream_alive base stream"
  shows "owns base (label_owned B' + M) d'"
  using assms owns_label [OF _ assms(2-4)]
  by (auto simp: fit_device_def bind_eq_Some_conv split: if_splits dest: owns_checks_on)

lemma label_freed:
  assumes own: "owns base (label_owned B + M) d" and "stream_alive base stream"
  shows "owns base M (TopologyClusterer_dtor stream B d)"
proof (cases "la_labels B = 0")
  case True
  then show ?thesis using own by (simp add: TopologyClusterer_dtor_def label_owned_def owns_def)
next
  case False
  then show ?thesis
    using own by (simp add: TopologyClusterer_dtor_def use_stream [OF assms] label_owned_def owns_destroyed)
qed

section \<open>Nothing aborts by itself\<close>

lemma finite_frees [simp]:
  "finite_device (fold device_free ps d) = finite_device d" "finite_device (fold pinned_free ps d) = finite_device d"
  "finite_device (fold free_unless_null rs d) = finite_device d"
proof -
  show "finite_device (fold device_free ps d) = finite_device d" by (induction ps arbitrary: d) simp_all
  show "finite_device (fold pinned_free ps d) = finite_device d" by (induction ps arbitrary: d) simp_all
  show "finite_device (fold free_unless_null rs d) = finite_device d" by (induction rs arbitrary: d) simp_all
qed

lemma returns_alloc_once: "generous_runtime R \<Longrightarrow> finite_device d \<Longrightarrow> returns snd (alloc_once R s n p d)"
  by (simp add: alloc_once_def returns_allocs)

lemma returns_mirror: "generous_runtime R \<Longrightarrow> finite_device d \<Longrightarrow> returns snd (mirror_alloc R n d)"
  unfolding mirror_alloc_def by (intro returns_rules | clarsimp)+

lemma returns_laplacian: "generous_runtime R \<Longrightarrow> finite_device d \<Longrightarrow> returns snd (laplacian_device R s n B d)"
  unfolding laplacian_device_def by (intro returns_rules returns_alloc_once | clarsimp)+

lemma returns_lobpcg: "generous_runtime R \<Longrightarrow> finite_device d \<Longrightarrow> returns snd (lobpcg_device R n k B d)"
  unfolding lobpcg_device_def by (intro returns_rules returns_alloc_once | clarsimp)+

lemma returns_hodge: "generous_runtime R \<Longrightarrow> finite_device d \<Longrightarrow> returns snd (hodge_alloc R s nn ne nt d)"
  unfolding hodge_alloc_def by (intro returns_rules | clarsimp)+

lemma returns_incidence: "generous_runtime R \<Longrightarrow> finite_device d \<Longrightarrow> returns (\<lambda>d. d) (incidence_device R s d)"
  unfolding incidence_device_def by (intro returns_rules | clarsimp)+

lemma returns_harmonic_count: "generous_runtime R \<Longrightarrow> finite_device d \<Longrightarrow> returns (\<lambda>d. d) (harmonic_count_device R s ne d)"
  unfolding harmonic_count_device_def by (intro returns_rules | clarsimp)+

lemma returns_decomposition:
  "generous_runtime R \<Longrightarrow> finite_device d \<Longrightarrow> returns (\<lambda>d. d) (decomposition_device R s ne lwork d)"
  unfolding decomposition_device_def by (cases "ne = 0") (simp, (intro returns_rules returns_harmonic_count | clarsimp)+)

lemma returns_floer: "generous_runtime R \<Longrightarrow> finite_device d \<Longrightarrow> returns snd (floer_allocate R mc d)"
  unfolding floer_allocate_def Let_def by (intro returns_rules | clarsimp)+

lemma returns_fit: "generous_runtime R \<Longrightarrow> finite_device d \<Longrightarrow> returns snd (fit_device R has_cuml s k f B d)"
proof -
  assume a: "generous_runtime R" "finite_device d"
  have "returns snd (label_device R s k B d)"
  proof (cases "k \<le> la_capacity B")
    case False
    then show ?thesis unfolding label_device_def using a
      by (cases "la_labels B = 0") (simp, (intro returns_rules | clarsimp)+)+
  qed (use a in \<open>simp add: label_device_def\<close>)
  then show ?thesis unfolding fit_device_def using a
    by (cases "\<not> has_cuml \<or> k = 0 \<or> f = 0") (simp, simp, (intro returns_rules | clarsimp | assumption)+)
qed

end
