(* ===== verification/Device_Lifetime.thy ===== *)
theory Device_Lifetime
  imports Device_Buffers Cuda_Pipeline
begin

text \<open>
  The life of the pipeline object as the owner of device resources: construction, any number of ticks and
  destruction of \<open>CudaPipeline\<close> (\<open>math/cuda_pipeline.cu\<close>, members in the order of its header).

  What a tick computes is in \<open>Cuda_Pipeline\<close>; here a tick is what it allocates, frees and submits. The
  number of edges it finds, the work space the eigensolver asks for and the number of checked calls of the
  homology pass are arguments.
\<close>

section \<open>Construction\<close>

text \<open>The members that are constructed before the body of the constructor.\<close>

record PipelineMembers =
  pm_handles :: CudaHandles
  pm_transfer :: nat
  pm_compute :: nat
  pm_signal :: nat
  pm_events :: "nat list"
  pm_cluster :: nat

definition construct_members :: "cuda_runtime \<Rightarrow> device \<Rightarrow> (PipelineMembers \<times> device) option" where
  "construct_members R d = do {
     (handles, d) \<leftarrow> new_handles R d;
     (transfer, d) \<leftarrow> StreamGuard R d;
     (compute, d) \<leftarrow> StreamGuard R d;
     (signal, d) \<leftarrow> StreamGuard R d;
     (e1, d) \<leftarrow> EventGuard R d;
     (e2, d) \<leftarrow> EventGuard R d;
     (e3, d) \<leftarrow> EventGuard R d;
     (e4, d) \<leftarrow> EventGuard R d;
     (cluster, d) \<leftarrow> StreamGuard R d;
     Some (\<lparr>pm_handles = handles, pm_transfer = transfer, pm_compute = compute, pm_signal = signal,
        pm_events = [e1, e2, e3, e4], pm_cluster = cluster\<rparr>, d)
   }"

record PipelineBuffers =
  pd_mirror :: MirrorBuffers
  pd_laplacian :: LaplacianBuffers
  pd_lobpcg :: LobpcgBuffers
  pd_hodge :: HodgeBuffers
  pd_floer :: FloerBuffers
  pd_harmonic_out :: nat
  pd_curl_out :: nat
  pd_edge_src :: nat
  pd_edge_dst :: nat
  pd_h_cluster_features :: nat
  pd_d_cluster_features :: nat
  pd_labels :: LabelBuffer
  pd_n_edges :: nat

text \<open>The body, \<open>init_gpu\<close> first.\<close>

definition construct_body ::
    "cuda_runtime \<Rightarrow> PipelineMembers \<Rightarrow> nat \<Rightarrow> nat \<Rightarrow> device \<Rightarrow> (PipelineBuffers \<times> device) option" where
  "construct_body R m n depth d =
     (let max_edges = word_of_nat k_max_edges; n_features = word_of_nat (k_cluster_window * k_cluster_features)
      in do {
        d \<leftarrow> checked_calls R 2 d;
        (floer, d) \<leftarrow> floer_allocate R k_floer_max_criticals d;
        (mirror, d) \<leftarrow> mirror_alloc R (word_of_nat (n * depth)) d;
        (hodge, d) \<leftarrow> hodge_alloc R (pm_compute m) (word_of_nat n) max_edges (word_of_nat k_max_triangles) d;
        (harmonic, d) \<leftarrow> pinned_alloc R sizeof_float max_edges d;
        (src, d) \<leftarrow> pinned_alloc R sizeof_int max_edges d;
        (dst, d) \<leftarrow> pinned_alloc R sizeof_int max_edges d;
        (curl, d) \<leftarrow> pinned_alloc R sizeof_float max_edges d;
        (h_features, d) \<leftarrow> pinned_alloc R sizeof_float n_features d;
        (d_features, d) \<leftarrow> device_alloc R sizeof_float n_features d;
        d \<leftarrow> stream_sync R (pm_compute m) d;
        Some (\<lparr>pd_mirror = mirror, pd_laplacian = no_laplacian, pd_lobpcg = no_lobpcg, pd_hodge = hodge,
          pd_floer = floer, pd_harmonic_out = harmonic, pd_curl_out = curl, pd_edge_src = src, pd_edge_dst = dst,
          pd_h_cluster_features = h_features, pd_d_cluster_features = d_features,
          pd_labels = \<lparr>la_labels = 0, la_capacity = 0\<rparr>, pd_n_edges = 0\<rparr>, d)
      })"

section \<open>A tick\<close>

record tick_device =
  td_new_generation :: bool
  td_n_edges :: nat
  td_lwork :: nat
  td_floer_calls :: nat
  td_refit :: bool

definition transfer_device :: "cuda_runtime \<Rightarrow> bool \<Rightarrow> PipelineMembers \<Rightarrow> device \<Rightarrow> device option" where
  "transfer_device R changed m d =
     (if \<not> changed then Some d
      else do {
        d \<leftarrow> event_record R (pm_transfer m) d;
        d \<leftarrow> checked_calls R 4 (use_stream (pm_transfer m) d);
        d \<leftarrow> event_record R (pm_transfer m) d;
        d \<leftarrow> CUDA_CHECK R (use_stream (pm_compute m) d);
        stream_sync R (pm_transfer m) d
      })"

definition spectral_device ::
    "cuda_runtime \<Rightarrow> PipelineMembers \<Rightarrow> nat \<Rightarrow> PipelineBuffers \<Rightarrow> device \<Rightarrow> (PipelineBuffers \<times> device) option" where
  "spectral_device R m n p d =
     (if n = 0 then Some (p, d)
      else do {
        (lap, d) \<leftarrow> laplacian_device R (pm_compute m) n (pd_laplacian p) d;
        let p = p\<lparr>pd_laplacian := lap\<rparr>;
        if n < 4 then Some (p, d)
        else do {
          (lob, d) \<leftarrow> lobpcg_device R n k_lobpcg_block_size (pd_lobpcg p) d;
          Some (p\<lparr>pd_lobpcg := lob\<rparr>, d)
        }
      })"

definition decompose_device ::
    "cuda_runtime \<Rightarrow> PipelineMembers \<Rightarrow> nat \<Rightarrow> tick_device \<Rightarrow> PipelineBuffers \<Rightarrow> device \<Rightarrow> (PipelineBuffers \<times> device) option" where
  "decompose_device R m n t p d =
     (if n < 4 then Some (p, d)
      else do {
        d \<leftarrow> incidence_device R (pm_compute m) d;
        let p = p\<lparr>pd_n_edges := td_n_edges t\<rparr>;
        if td_n_edges t = 0 then Some (p, d)
        else do {
          d \<leftarrow> decomposition_device R (pm_compute m) (td_n_edges t) (td_lwork t) d;
          d \<leftarrow> stream_sync R (pm_compute m) d;
          Some (p, d)
        }
      })"

text \<open>\<open>extract_arbitrage_signal\<close>, \<open>record_signal\<close> with the homology pass, and \<open>build_cluster_window_and_fit\<close>.\<close>

definition record_device :: "cuda_runtime \<Rightarrow> PipelineMembers \<Rightarrow> nat \<Rightarrow> device \<Rightarrow> device option" where
  "record_device R m floer_calls d = do {
     d \<leftarrow> checked_calls R 3 (use_stream (pm_compute m) d);
     d \<leftarrow> stream_sync R (pm_compute m) d;
     d \<leftarrow> checked_calls R 4 (use_stream (pm_signal m) d);
     d \<leftarrow> stream_sync R (pm_signal m) d;
     checked_calls R floer_calls (use_stream (pm_compute m) d)
   }"

definition cluster_device ::
    "cuda_runtime \<Rightarrow> bool \<Rightarrow> PipelineMembers \<Rightarrow> bool \<Rightarrow> PipelineBuffers \<Rightarrow> device \<Rightarrow> (PipelineBuffers \<times> device) option" where
  "cluster_device R has_cuml m refit p d =
     (if \<not> refit then Some (p, d)
      else do {
        d \<leftarrow> CUDA_CHECK R (use_stream (pm_cluster m) d);
        (labels, d) \<leftarrow> fit_device R has_cuml (pm_cluster m) k_cluster_window k_cluster_features (pd_labels p) d;
        Some (p\<lparr>pd_labels := labels\<rparr>, d)
      })"

definition run_once_device ::
    "cuda_runtime \<Rightarrow> bool \<Rightarrow> PipelineMembers \<Rightarrow> nat \<Rightarrow> tick_device \<Rightarrow> PipelineBuffers \<Rightarrow> device
     \<Rightarrow> (PipelineBuffers \<times> device) option" where
  "run_once_device R has_cuml m n t p d = do {
     d \<leftarrow> transfer_device R (td_new_generation t) m d;
     (p, d) \<leftarrow> spectral_device R m n p d;
     (p, d) \<leftarrow> decompose_device R m n t p d;
     if pd_n_edges p > 0 then do {
       d \<leftarrow> record_device R m (td_floer_calls t) d;
       cluster_device R has_cuml m (td_refit t) p d
     } else Some (p, d)
   }"

fun run_device ::
    "cuda_runtime \<Rightarrow> bool \<Rightarrow> PipelineMembers \<Rightarrow> nat \<Rightarrow> tick_device list \<Rightarrow> PipelineBuffers \<Rightarrow> device
     \<Rightarrow> (PipelineBuffers \<times> device) option" where
  "run_device R has_cuml m n [] p d = Some (p, d)"
| "run_device R has_cuml m n (t # ts) p d = do {
     (p, d) \<leftarrow> run_once_device R has_cuml m n t p d;
     run_device R has_cuml m n ts p d
   }"

section \<open>Destruction\<close>

text \<open>The body of the destructor; the synchronisations do not look at their status.\<close>

definition destroy_body :: "PipelineMembers \<Rightarrow> PipelineBuffers \<Rightarrow> device \<Rightarrow> device" where
  "destroy_body m p d =
     (let d = fold use_stream [pm_transfer m, pm_compute m, pm_signal m, pm_cluster m] d;
          d = TopologyClusterer_dtor (pm_cluster m) (pd_labels p) d;
          d = GpuLobMirror_dtor (pd_mirror p) d;
          d = fold pinned_free [pd_harmonic_out p, pd_curl_out p, pd_edge_src p, pd_edge_dst p,
                pd_h_cluster_features p] d
      in device_free (pd_d_cluster_features p) d)"

text \<open>The members, in the reverse order of their declaration.\<close>

definition destroy_members :: "PipelineMembers \<Rightarrow> PipelineBuffers \<Rightarrow> device \<Rightarrow> device" where
  "destroy_members m p d =
     (let d = StreamGuard_dtor (pm_cluster m) d;
          d = FloerWorkspace_dtor (pd_floer p) d;
          d = HodgeWorkspace_dtor (pd_hodge p) d;
          d = LobpcgWorkspace_dtor (pd_lobpcg p) d;
          d = SparseLaplacian_dtor (pd_laplacian p) d;
          d = fold EventGuard_dtor (rev (pm_events m)) d;
          d = fold StreamGuard_dtor [pm_signal m, pm_compute m, pm_transfer m] d
      in CudaHandles_dtor (pm_handles m) d)"

definition CudaPipeline_dtor :: "PipelineMembers \<Rightarrow> PipelineBuffers \<Rightarrow> device \<Rightarrow> device" where
  "CudaPipeline_dtor m p d = destroy_members m p (destroy_body m p d)"

definition pipeline_life ::
    "cuda_runtime \<Rightarrow> bool \<Rightarrow> nat \<Rightarrow> nat \<Rightarrow> tick_device list \<Rightarrow> device \<Rightarrow> device option" where
  "pipeline_life R has_cuml n depth ts d = do {
     (m, d) \<leftarrow> construct_members R d;
     (p, d) \<leftarrow> construct_body R m n depth d;
     (p, d) \<leftarrow> run_device R has_cuml m n ts p d;
     Some (CudaPipeline_dtor m p d)
   }"

section \<open>Ownership\<close>

definition members_owned :: "PipelineMembers \<Rightarrow> resource multiset" where
  "members_owned m =
     {#(BlasHandle, ch_cublas (pm_handles m)), (SparseHandle, ch_cusparse (pm_handles m)),
       (SolverHandle, ch_cusolver (pm_handles m)), (CudaStream, pm_transfer m), (CudaStream, pm_compute m),
       (CudaStream, pm_signal m), (CudaStream, pm_cluster m)#} + mset (map (Pair CudaEvent) (pm_events m))"

definition host_owned :: "PipelineBuffers \<Rightarrow> resource multiset" where
  "host_owned p = {#(DeviceMem, pd_d_cluster_features p)#} +
     mset (map (Pair PinnedMem) [pd_harmonic_out p, pd_curl_out p, pd_edge_src p, pd_edge_dst p, pd_h_cluster_features p])"

definition workspaces_owned :: "PipelineBuffers \<Rightarrow> resource multiset" where
  "workspaces_owned p =
     floer_owned (pd_floer p) + hodge_owned (pd_hodge p) + lobpcg_owned (pd_lobpcg p) + laplacian_owned (pd_laplacian p)"

definition buffers_owned :: "PipelineBuffers \<Rightarrow> resource multiset" where
  "buffers_owned p = label_owned (pd_labels p) + mirror_owned (pd_mirror p) + host_owned p + workspaces_owned p"

lemma owns_members:
  assumes "construct_members R d = Some (m, d')" and "owns base M d" and "fresh_runtime R"
  shows "owns base (members_owned m + M) d' \<and>
    (\<forall>s \<in> {pm_transfer m, pm_compute m, pm_signal m, pm_cluster m}. s \<noteq> 0)"
proof -
  obtain h d1 t d2 c d3 s d4 a d5 b d6 e d7 f d8 k where e: "new_handles R d = Some (h, d1)"
    "cuda_create R CudaStream 0 d1 = Some (t, d2)" "cuda_create R CudaStream 0 d2 = Some (c, d3)"
    "cuda_create R CudaStream 0 d3 = Some (s, d4)" "cuda_create R CudaEvent 0 d4 = Some (a, d5)"
    "cuda_create R CudaEvent 0 d5 = Some (b, d6)" "cuda_create R CudaEvent 0 d6 = Some (e, d7)"
    "cuda_create R CudaEvent 0 d7 = Some (f, d8)" "cuda_create R CudaStream 0 d8 = Some (k, d')"
    and m: "m = \<lparr>pm_handles = h, pm_transfer = t, pm_compute = c, pm_signal = s, pm_events = [a, b, e, f], pm_cluster = k\<rparr>"
    using assms(1) by (auto simp: construct_members_def StreamGuard_def EventGuard_def bind_eq_Some_conv)
  note made = owns_create [OF _ _ assms(3)] and nz = created_not_null [OF _ assms(3)]
  from made [OF e(9) made [OF e(8) made [OF e(7) made [OF e(6) made [OF e(5) made [OF e(4)
    made [OF e(3) made [OF e(2) owns_handles [OF e(1) assms(2,3)]]]]]]]]]
  have "owns base (members_owned m + M) d'" by (simp add: members_owned_def m add_mset_commute)
  then show ?thesis using nz [OF e(2)] nz [OF e(3)] nz [OF e(4)] nz [OF e(9)] by (simp add: m)
qed

text \<open>All streams of the pipeline are alive.\<close>

definition streams_alive :: "(resource \<rightharpoonup> u64) \<Rightarrow> PipelineMembers \<Rightarrow> bool" where
  "streams_alive base m \<longleftrightarrow> stream_alive base (pm_transfer m) \<and> stream_alive base (pm_compute m) \<and>
     stream_alive base (pm_signal m) \<and> stream_alive base (pm_cluster m)"

lemma nothing_owned:
  "owned (laplacian_owned no_laplacian) = {#}" "owned (lobpcg_owned no_lobpcg) = {#}"
  "owned (label_owned \<lparr>la_labels = 0, la_capacity = c\<rparr>) = {#}"
  by (simp_all add: laplacian_owned_def no_laplacian_def lobpcg_owned_def no_lobpcg_def label_owned_def)
     (simp add: owned_def)

lemma owns_body:
  assumes "construct_body R m n depth d = Some (p, d')" and "owns base M d" and "fresh_runtime R" and "streams_alive base m"
  shows "owns base (buffers_owned p + M) d'"
proof -
  have alive: "stream_alive base (pm_compute m)" using assms(4) by (simp add: streams_alive_def)
  let ?me = "word_of_nat k_max_edges :: u64" and ?nf = "word_of_nat (k_cluster_window * k_cluster_features) :: u64"
  obtain d1 fl d2 mi d3 ho d4 a d5 b d6 c d7 e d8 f d9 g d10 where s: "checked_calls R 2 d = Some d1"
    "floer_allocate R k_floer_max_criticals d1 = Some (fl, d2)" "mirror_alloc R (word_of_nat (n * depth)) d2 = Some (mi, d3)"
    "hodge_alloc R (pm_compute m) (word_of_nat n) ?me (word_of_nat k_max_triangles) d3 = Some (ho, d4)"
    "cuda_create R PinnedMem (sizeof_float * ?me) d4 = Some (a, d5)" "cuda_create R PinnedMem (sizeof_int * ?me) d5 = Some (b, d6)"
    "cuda_create R PinnedMem (sizeof_int * ?me) d6 = Some (c, d7)" "cuda_create R PinnedMem (sizeof_float * ?me) d7 = Some (e, d8)"
    "cuda_create R PinnedMem (sizeof_float * ?nf) d8 = Some (f, d9)" "cuda_create R DeviceMem (sizeof_float * ?nf) d9 = Some (g, d10)"
    "CUDA_CHECK R (use_stream (pm_compute m) d10) = Some d'"
    and p: "p = \<lparr>pd_mirror = mi, pd_laplacian = no_laplacian, pd_lobpcg = no_lobpcg, pd_hodge = ho, pd_floer = fl,
      pd_harmonic_out = a, pd_curl_out = e, pd_edge_src = b, pd_edge_dst = c, pd_h_cluster_features = f,
      pd_d_cluster_features = g, pd_labels = \<lparr>la_labels = 0, la_capacity = 0\<rparr>, pd_n_edges = 0\<rparr>"
    using assms(1) by (auto simp: construct_body_def stream_sync_def owns_defs)
  note made = owns_create [OF _ _ assms(3)]
  note o4 = owns_hodge [OF s(4) owns_mirror [OF s(3) owns_floer [OF s(2) owns_checks [OF s(1) assms(2,3)] assms(3)] assms(3)] assms(3) alive]
  note o10 = owns_check_on [OF s(11) made [OF s(10) made [OF s(9) made [OF s(8) made [OF s(7) made [OF s(6) made [OF s(5) o4]]]]]] alive]
  then have "owns base (host_owned p + mirror_owned mi + floer_owned fl + hodge_owned ho + M) d'"
    by (simp add: host_owned_def p ac_simps add_mset_commute)
  moreover have "owned (buffers_owned p + M) = owned (host_owned p + mirror_owned mi + floer_owned fl + hodge_owned ho + M)"
    by (simp add: buffers_owned_def workspaces_owned_def p nothing_owned ac_simps)
  ultimately show ?thesis by (simp only: owns_def)
qed

lemma owns_transfer:
  "transfer_device R c m d = Some d' \<Longrightarrow> owns base M d \<Longrightarrow> streams_alive base m \<Longrightarrow> owns base M d'"
  by (auto simp: transfer_device_def event_record_def stream_sync_def bind_eq_Some_conv streams_alive_def
      split: if_splits dest!: owns_check_on owns_checks_on)

lemma owns_record:
  "record_device R m c d = Some d' \<Longrightarrow> owns base M d \<Longrightarrow> streams_alive base m \<Longrightarrow> owns base M d'"
  by (auto simp: record_device_def stream_sync_def bind_eq_Some_conv streams_alive_def
      dest!: owns_check_on owns_checks_on)

lemma owns_spectral:
  assumes "spectral_device R m n p d = Some (p', d')" and own: "owns base (buffers_owned p + M) d"
    and fresh: "fresh_runtime R" and alive: "streams_alive base m"
  shows "owns base (buffers_owned p' + M) d'"
proof (cases "n = 0")
  case False
  let ?rest = "\<lambda>p. label_owned (pd_labels p) + mirror_owned (pd_mirror p) + host_owned p + floer_owned (pd_floer p) + hodge_owned (pd_hodge p)"
  obtain lap d1 where 1: "laplacian_device R (pm_compute m) n (pd_laplacian p) d = Some (lap, d1)"
    and r: "(if n < 4 then Some (p\<lparr>pd_laplacian := lap\<rparr>, d1)
      else lobpcg_device R n k_lobpcg_block_size (pd_lobpcg p) d1 \<bind> (\<lambda>(lob, d). Some (p\<lparr>pd_laplacian := lap, pd_lobpcg := lob\<rparr>, d)))
      = Some (p', d')"
    using assms(1) False by (auto simp: spectral_device_def bind_eq_Some_conv Let_def split: if_splits)
  have "owns base (laplacian_owned (pd_laplacian p) + (lobpcg_owned (pd_lobpcg p) + ?rest p + M)) d"
    using own by (simp add: buffers_owned_def workspaces_owned_def ac_simps)
  from owns_laplacian [OF 1 this fresh] alive
  have o1: "owns base (lobpcg_owned (pd_lobpcg p) + (laplacian_owned lap + ?rest p + M)) d1"
    by (simp add: streams_alive_def ac_simps)
  show ?thesis
  proof (cases "n < 4")
    case True
    then show ?thesis using r o1 by (auto simp: buffers_owned_def workspaces_owned_def host_owned_def ac_simps)
  next
    case False
    with r obtain lob where 2: "lobpcg_device R n k_lobpcg_block_size (pd_lobpcg p) d1 = Some (lob, d')"
      and p': "p' = p\<lparr>pd_laplacian := lap, pd_lobpcg := lob\<rparr>" by (auto simp: bind_eq_Some_conv)
    from owns_lobpcg [OF 2 o1 fresh] show ?thesis
      by (simp add: p' buffers_owned_def workspaces_owned_def host_owned_def ac_simps)
  qed
qed (use assms in \<open>simp add: spectral_device_def\<close>)

lemma owns_decompose:
  assumes "decompose_device R m n t p d = Some (p', d')" and "owns base (buffers_owned p + M) d"
    and "fresh_runtime R" and "streams_alive base m"
  shows "owns base (buffers_owned p' + M) d'"
proof -
  have alive: "stream_alive base (pm_compute m)" using assms(4) by (simp add: streams_alive_def)
  have eq: "buffers_owned (p\<lparr>pd_n_edges := k\<rparr>) = buffers_owned p" for k
    by (simp add: buffers_owned_def workspaces_owned_def host_owned_def)
  show ?thesis
    using assms(1-3) alive
    by (auto simp: decompose_device_def stream_sync_def bind_eq_Some_conv Let_def eq split: if_splits
        dest!: owns_incidence owns_decomposition owns_check_on)
qed

lemma owns_cluster:
  assumes "cluster_device R has_cuml m refit p d = Some (p', d')" and "owns base (buffers_owned p + M) d"
    and "fresh_runtime R" and "streams_alive base m"
  shows "owns base (buffers_owned p' + M) d'"
proof (cases refit)
  case True
  have alive: "stream_alive base (pm_cluster m)" using assms(4) by (simp add: streams_alive_def)
  obtain d1 la where e: "CUDA_CHECK R (use_stream (pm_cluster m) d) = Some d1"
    "fit_device R has_cuml (pm_cluster m) k_cluster_window k_cluster_features (pd_labels p) d1 = Some (la, d')"
    and p': "p' = p\<lparr>pd_labels := la\<rparr>"
    using assms(1) True by (auto simp: cluster_device_def bind_eq_Some_conv)
  have "owns base (label_owned (pd_labels p) + (mirror_owned (pd_mirror p) + host_owned p + workspaces_owned p + M)) d1"
    using owns_check_on [OF e(1) assms(2) alive] by (simp add: buffers_owned_def ac_simps)
  from owns_fit [OF e(2) this assms(3) alive] show ?thesis
    by (simp add: p' buffers_owned_def host_owned_def workspaces_owned_def ac_simps)
qed (use assms in \<open>simp add: cluster_device_def\<close>)

lemma owns_run_once:
  assumes "run_once_device R has_cuml m n t p d = Some (p', d')" and own: "owns base (buffers_owned p + M) d"
    and fresh: "fresh_runtime R" and alive: "streams_alive base m"
  shows "owns base (buffers_owned p' + M) d'"
proof -
  obtain d1 p1 d2 p2 d3 where s: "transfer_device R (td_new_generation t) m d = Some d1"
    "spectral_device R m n p d1 = Some (p1, d2)" "decompose_device R m n t p1 d2 = Some (p2, d3)"
    and r: "(if pd_n_edges p2 > 0 then record_device R m (td_floer_calls t) d3 \<bind> (\<lambda>d. cluster_device R has_cuml m (td_refit t) p2 d)
      else Some (p2, d3)) = Some (p', d')"
    using assms(1) by (auto simp: run_once_device_def bind_eq_Some_conv)
  note o3 = owns_decompose [OF s(3) owns_spectral [OF s(2) owns_transfer [OF s(1) own alive] fresh alive] fresh alive]
  show ?thesis
  proof (cases "pd_n_edges p2 > 0")
    case True
    with r obtain d4 where "record_device R m (td_floer_calls t) d3 = Some d4"
      and c: "cluster_device R has_cuml m (td_refit t) p2 d4 = Some (p', d')" by (auto simp: bind_eq_Some_conv)
    from owns_cluster [OF c owns_record [OF this(1) o3 alive] fresh alive] show ?thesis .
  qed (use r o3 in simp)
qed

lemma owns_run:
  "run_device R has_cuml m n ts p d = Some (p', d') \<Longrightarrow> owns base (buffers_owned p + M) d \<Longrightarrow> fresh_runtime R \<Longrightarrow>
   streams_alive base m \<Longrightarrow> owns base (buffers_owned p' + M) d'"
  by (induction ts arbitrary: p d) (auto simp: bind_eq_Some_conv dest: owns_run_once)

lemma body_destroyed:
  assumes own: "owns base (buffers_owned p + M) d" and alive: "streams_alive base m"
  shows "owns base (workspaces_owned p + M) (destroy_body m p d)"
proof -
  note use = use_stream [OF own]
  have "fold use_stream [pm_transfer m, pm_compute m, pm_signal m, pm_cluster m] d = d"
    using alive use by (simp add: streams_alive_def)
  moreover have "owns base (mirror_owned (pd_mirror p) + (host_owned p + workspaces_owned p + M)) (TopologyClusterer_dtor (pm_cluster m) (pd_labels p) d)"
    using label_freed own alive by (simp add: buffers_owned_def streams_alive_def ac_simps)
  then have "owns base (host_owned p + workspaces_owned p + M)
      (GpuLobMirror_dtor (pd_mirror p) (TopologyClusterer_dtor (pm_cluster m) (pd_labels p) d))" by (rule mirror_freed)
  then have "owns base ({#(DeviceMem, pd_d_cluster_features p)#} + (workspaces_owned p + M))
      (fold pinned_free [pd_harmonic_out p, pd_curl_out p, pd_edge_src p, pd_edge_dst p, pd_h_cluster_features p]
        (GpuLobMirror_dtor (pd_mirror p) (TopologyClusterer_dtor (pm_cluster m) (pd_labels p) d)))"
    by (intro owns_frees) (simp add: host_owned_def ac_simps add_mset_commute)
  ultimately show ?thesis by (simp add: destroy_body_def frees Let_def del: fold.simps)
qed

lemma members_destroyed:
  assumes "owns base (members_owned m + (workspaces_owned p + M)) d"
  shows "owns base M (destroy_members m p d)"
proof -
  have e: "fold EventGuard_dtor es = fold free_unless_null (map (Pair CudaEvent) es)"
    "fold StreamGuard_dtor ss = fold free_unless_null (map (Pair CudaStream) ss)" for es ss
    by (simp_all add: fold_map comp_def frees [abs_def])
  let ?rest = "mset (map (Pair CudaEvent) (rev (pm_events m))) +
    (mset (map (Pair CudaStream) [pm_signal m, pm_compute m, pm_transfer m]) +
     (mset [(BlasHandle, ch_cublas (pm_handles m)), (SparseHandle, ch_cusparse (pm_handles m)),
       (SolverHandle, ch_cusolver (pm_handles m))] + M))"
  have "owns base (add_mset (CudaStream, pm_cluster m) (floer_owned (pd_floer p) + (hodge_owned (pd_hodge p) +
      (lobpcg_owned (pd_lobpcg p) + (laplacian_owned (pd_laplacian p) + ?rest))))) d"
    using assms by (simp add: members_owned_def workspaces_owned_def ac_simps add_mset_commute rev_map [symmetric])
  then show ?thesis
    unfolding destroy_members_def Let_def e CudaHandles_dtor_def frees
    by (intro owns_free_all laplacian_freed lobpcg_freed hodge_freed floer_freed owns_free)
qed

section \<open>The life of a pipeline\<close>

text \<open>The members stay alive from their construction to their destruction.\<close>

lemma owns_members_absorbed:
  assumes "construct_members R d = Some (m, d1)" and "fresh_runtime R" and "owns base {#} d"
  obtains base' where "owns base' {#} d1" and "streams_alive base' m"
    and "\<And>N d'. owns base' N d' \<Longrightarrow> owns base (members_owned m + N) d'"
proof -
  from owns_members [OF assms(1,3,2)] have o: "owns base (members_owned m + {#}) d1"
    and nz: "\<forall>s \<in> {pm_transfer m, pm_compute m, pm_signal m, pm_cluster m}. s \<noteq> 0" by simp_all
  from owns_absorb [OF o] obtain base' where b: "owns base' {#} d1" "\<And>r. r \<in># members_owned m \<Longrightarrow> snd r \<noteq> 0 \<Longrightarrow> r \<in> dom base'"
    "\<And>N d'. owns base' N d' \<Longrightarrow> owns base (members_owned m + N) d'" by blast
  have "streams_alive base' m"
    using b(2) [of "(CudaStream, pm_transfer m)"] b(2) [of "(CudaStream, pm_compute m)"] b(2) [of "(CudaStream, pm_signal m)"]
      b(2) [of "(CudaStream, pm_cluster m)"] nz by (simp add: streams_alive_def stream_alive_def members_owned_def)
  with b that show ?thesis by blast
qed

lemma life_clean:
  assumes fresh: "fresh_runtime R" and "finite (dom (dv_live d))" and "dv_faults d = 0"
    and "pipeline_life R has_cuml n depth ts d = Some d'"
  shows "dv_live d' = dv_live d \<and> dv_faults d' = 0"
proof -
  obtain m d1 p d2 p' d3 where s: "construct_members R d = Some (m, d1)" "construct_body R m n depth d1 = Some (p, d2)"
    "run_device R has_cuml m n ts p d2 = Some (p', d3)" and d': "d' = CudaPipeline_dtor m p' d3"
    using assms(4) by (auto simp: pipeline_life_def bind_eq_Some_conv)
  obtain base where b: "owns base {#} d1" "streams_alive base m"
    "\<And>N d'. owns base N d' \<Longrightarrow> owns (dv_live d) (members_owned m + N) d'"
    by (rule owns_members_absorbed [OF s(1) fresh owns_start [OF assms(2,3)]]) blast
  from owns_run [OF s(3) owns_body [OF s(2) b(1) fresh b(2)] fresh b(2)]
  have "owns base (workspaces_owned p' + {#}) (destroy_body m p' d3)" by (rule body_destroyed) (rule b(2))
  then have "owns (dv_live d) {#} d'"
    unfolding d' CudaPipeline_dtor_def by (intro members_destroyed b(3))
  then show ?thesis by (rule owns_end)
qed

text \<open>What a tick can change: three buffers of the Laplacian, one of the spectral workspace, the labels.\<close>

definition stable_parts :: "PipelineBuffers \<Rightarrow> resource multiset \<times> nat \<times> nat list" where
  "stable_parts p = (mirror_owned (pd_mirror p) + host_owned p + floer_owned (pd_floer p) + hodge_owned (pd_hodge p),
     lb_descr (pd_laplacian p), lo_others (pd_lobpcg p))"

lemma phases_stable:
  "spectral_device R m n p d = Some (p', d') \<Longrightarrow> stable_parts p' = stable_parts p"
  "decompose_device R m n t p d = Some (p', d') \<Longrightarrow> stable_parts p' = stable_parts p"
  "cluster_device R has_cuml m refit p d = Some (p', d') \<Longrightarrow> stable_parts p' = stable_parts p"
  by (auto simp: spectral_device_def laplacian_device_def lobpcg_device_def stable_parts_def host_owned_def
      bind_eq_Some_conv Let_def split: if_splits)
    (auto simp: decompose_device_def cluster_device_def stable_parts_def host_owned_def
      bind_eq_Some_conv Let_def split: if_splits)

lemma run_once_stable:
  assumes "run_once_device R has_cuml m n t p d = Some (p', d')"
  shows "stable_parts p' = stable_parts p"
proof -
  obtain d1 p1 d2 p2 d3 where s: "spectral_device R m n p d1 = Some (p1, d2)" "decompose_device R m n t p1 d2 = Some (p2, d3)"
    and r: "(if pd_n_edges p2 > 0 then record_device R m (td_floer_calls t) d3 \<bind> (\<lambda>d. cluster_device R has_cuml m (td_refit t) p2 d)
      else Some (p2, d3)) = Some (p', d')"
    using assms by (auto simp: run_once_device_def bind_eq_Some_conv)
  have "stable_parts p' = stable_parts p2"
    using r phases_stable(3) by (cases "pd_n_edges p2 > 0") (auto simp: bind_eq_Some_conv)
  then show ?thesis using phases_stable(1) [OF s(1)] phases_stable(2) [OF s(2)] by simp
qed

lemma run_stable: "run_device R has_cuml m n ts p d = Some (p', d') \<Longrightarrow> stable_parts p' = stable_parts p"
  by (induction ts arbitrary: p d) (auto simp: bind_eq_Some_conv dest: run_once_stable)

lemma body_stable:
  assumes "construct_body R m n depth d = Some (p, d')"
  shows "pd_laplacian p = no_laplacian" "pd_lobpcg p = no_lobpcg" "pd_labels p = \<lparr>la_labels = 0, la_capacity = 0\<rparr>"
  using assms by (auto simp: construct_body_def bind_eq_Some_conv Let_def)

lemma owns_card: "owns base M d \<Longrightarrow> card (dom (dv_live d)) = card (dom base) + size (owned M)"
proof -
  assume own: "owns base M d"
  then have le: "dom base \<subseteq> dom (dv_live d)" and f: "finite (dom (dv_live d))" and M: "owned M = mset_set (dom (dv_live d) - dom base)"
    by (simp_all add: owns_def map_le_implies_dom_le)
  then have "size (owned M) = card (dom (dv_live d)) - card (dom base)" by (simp add: card_Diff_subset finite_subset)
  then show ?thesis using card_mono [OF f le] by simp
qed

text \<open>
  (C25) The memory of a running pipeline is bounded: however many ticks have run, at most five resources are
  alive beyond those that the constructor left, so no tick leaks its scratch memory.
\<close>

theorem ticks_bounded_memory:
  assumes fresh: "fresh_runtime R" and "finite (dom (dv_live d))" and "dv_faults d = 0"
    and "construct_members R d = Some (m, d1)" and "construct_body R m n depth d1 = Some (p, d2)"
    and "run_device R has_cuml m n ts p d2 = Some (p', d3)"
  shows "card (dom (dv_live d3)) \<le> card (dom (dv_live d2)) + 5 \<and> dv_faults d3 = 0"
proof -
  obtain base where b: "owns base {#} d1" "streams_alive base m"
    by (rule owns_members_absorbed [OF assms(4) fresh owns_start [OF assms(2,3)]])
  note o2 = owns_body [OF assms(5) b(1) fresh b(2)]
  note o3 = owns_run [OF assms(6) o2 fresh b(2)]
  let ?stable = "fst (stable_parts p)"
  have st: "stable_parts p' = stable_parts p" by (rule run_stable [OF assms(6)])
  have "owned (buffers_owned p + {#}) = owned ?stable"
    by (simp add: buffers_owned_def workspaces_owned_def stable_parts_def body_stable [OF assms(5)] nothing_owned ac_simps)
  moreover have "lb_descr (pd_laplacian p') = 0" "lo_others (pd_lobpcg p') = replicate 9 0"
    using st by (simp_all add: stable_parts_def body_stable [OF assms(5)] no_laplacian_def no_lobpcg_def)
  then have "owned (laplacian_owned (pd_laplacian p') + lobpcg_owned (pd_lobpcg p') + label_owned (pd_labels p')) =
      owned {#(DeviceMem, lb_row_ptr (pd_laplacian p')), (DeviceMem, lb_col_idx (pd_laplacian p')),
        (DeviceMem, lb_values (pd_laplacian p')), (DeviceMem, lo_X (pd_lobpcg p')), (DeviceMem, la_labels (pd_labels p'))#}"
    by (simp add: laplacian_owned_def lobpcg_owned_def label_owned_def) (simp add: owned_def)
  then have "size (owned (laplacian_owned (pd_laplacian p') + lobpcg_owned (pd_lobpcg p') + label_owned (pd_labels p'))) \<le> 5"
    by simp
  moreover have "owned (buffers_owned p' + {#}) = owned (fst (stable_parts p')) +
      owned (laplacian_owned (pd_laplacian p') + lobpcg_owned (pd_lobpcg p') + label_owned (pd_labels p'))"
    by (simp add: buffers_owned_def workspaces_owned_def stable_parts_def ac_simps)
  then have "owned (buffers_owned p' + {#}) = owned ?stable +
      owned (laplacian_owned (pd_laplacian p') + lobpcg_owned (pd_lobpcg p') + label_owned (pd_labels p'))" unfolding st .
  ultimately show ?thesis using owns_card [OF o2] owns_card [OF o3] o3 by (simp add: owns_def)
qed

text \<open>
  \<open>free_all\<close> cannot be called before the destructor: it leaves four of the pointers that it has freed in
  place, and the destructor frees them again.
\<close>

theorem free_all_not_idempotent:
  assumes "fresh_runtime R" and "finite (dom (dv_live d))" and "dv_faults d = 0" and "floer_allocate R mc d = Some (B, d1)"
    and "0 \<notin> {fb_d_hessian B, fb_d_boundary_matrix B, fb_d_n_criticals B, fb_d_n_instantons B}"
    and "floer_free_all B d1 = (B', d2)"
  shows "dv_live d2 = dv_live d \<and> dv_faults d2 = 0 \<and> dv_faults (FloerWorkspace_dtor B' d2) = 4"
proof -
  have o1: "owns (dv_live d) (floer_owned B + {#}) d1"
    by (rule owns_floer [OF assms(4) owns_start [OF assms(2,3)] assms(1)])
  from owns_end [OF floer_freed [OF this]] have d2: "dv_live d2 = dv_live d" "dv_faults d2 = 0"
    using assms(6) by (simp_all add: FloerWorkspace_dtor_def)
  have dead: "(DeviceMem, q) \<notin> dom (dv_live d2)"
    if "q \<in> {fb_d_hessian B, fb_d_boundary_matrix B, fb_d_n_criticals B, fb_d_n_instantons B}" for q
    using owns_live [OF o1, of "(DeviceMem, q)"] that assms(5) unfolding d2(1) by (auto simp: floer_owned_def)
  have free: "device_free q e = e\<lparr>dv_faults := Suc (dv_faults e)\<rparr>"
    if "q \<in> {fb_d_hessian B, fb_d_boundary_matrix B, fb_d_n_criticals B, fb_d_n_instantons B}" "dv_live e = dv_live d2" for q e
    using dead [OF that(1)] that assms(5) by (auto simp: device_free_def destroy_def)
  have B': "B' = B\<lparr>fb_d_criticals := 0, fb_d_instantons := 0, fb_h_criticals := 0, fb_h_instantons := 0, fb_h_boundary_matrix := 0\<rparr>"
    using assms(6) by (simp add: floer_free_all_def Let_def)
  have nul: "device_free 0 e = e" "pinned_free 0 e = e" for e by (simp_all add: device_free_def pinned_free_def)
  show ?thesis using d2 by (simp add: FloerWorkspace_dtor_def floer_free_all_def Let_def B' nul free)
qed

section \<open>A pipeline on a runtime that does not fail\<close>

lemma returns_members: "generous_runtime R \<Longrightarrow> finite_device d \<Longrightarrow> returns snd (construct_members R d)"
  unfolding construct_members_def by (intro returns_rules returns_handles | clarsimp)+

lemma returns_body: "generous_runtime R \<Longrightarrow> finite_device d \<Longrightarrow> returns snd (construct_body R m n depth d)"
  unfolding construct_body_def Let_def by (intro returns_rules returns_floer returns_mirror returns_hodge | clarsimp)+

lemma returns_transfer: "generous_runtime R \<Longrightarrow> finite_device d \<Longrightarrow> returns (\<lambda>d. d) (transfer_device R c m d)"
  unfolding transfer_device_def by (intro returns_rules | clarsimp)+

lemma returns_spectral: "generous_runtime R \<Longrightarrow> finite_device d \<Longrightarrow> returns snd (spectral_device R m n p d)"
  unfolding spectral_device_def Let_def by (intro returns_rules returns_laplacian returns_lobpcg | clarsimp)+

lemma returns_decompose: "generous_runtime R \<Longrightarrow> finite_device d \<Longrightarrow> returns snd (decompose_device R m n t p d)"
  unfolding decompose_device_def Let_def by (intro returns_rules returns_incidence returns_decomposition | clarsimp)+

lemma returns_record: "generous_runtime R \<Longrightarrow> finite_device d \<Longrightarrow> returns (\<lambda>d. d) (record_device R m c d)"
  unfolding record_device_def by (intro returns_rules | clarsimp)+

lemma returns_cluster: "generous_runtime R \<Longrightarrow> finite_device d \<Longrightarrow> returns snd (cluster_device R has_cuml m r p d)"
  unfolding cluster_device_def by (intro returns_rules returns_fit | clarsimp)+

lemma returns_run_once: "generous_runtime R \<Longrightarrow> finite_device d \<Longrightarrow> returns snd (run_once_device R has_cuml m n t p d)"
  unfolding run_once_device_def
  by (intro returns_rules returns_transfer returns_spectral returns_decompose returns_record returns_cluster | clarsimp)+

lemma returns_run: "generous_runtime R \<Longrightarrow> finite_device d \<Longrightarrow> returns snd (run_device R has_cuml m n ts p d)"
proof (induction ts arbitrary: p d)
  case (Cons t ts)
  show ?case unfolding run_device.simps
    by (intro returns_rules returns_run_once Cons.prems) (clarsimp simp: Cons.IH [OF Cons.prems(1)])
qed simp

lemma finite_events [simp]:
  "finite_device (fold StreamGuard_dtor ss d) = finite_device d" "finite_device (fold EventGuard_dtor ss d) = finite_device d"
  "finite_device (fold use_stream ss d) = finite_device d"
proof -
  show "finite_device (fold StreamGuard_dtor ss d) = finite_device d" by (induction ss arbitrary: d) (simp_all add: frees)
  show "finite_device (fold EventGuard_dtor ss d) = finite_device d" by (induction ss arbitrary: d) (simp_all add: frees)
  show "finite_device (fold use_stream ss d) = finite_device d" by (induction ss arbitrary: d) simp_all
qed

lemma life_returns:
  assumes "generous_runtime R" and "finite_device d"
  shows "\<exists>d'. pipeline_life R has_cuml n depth ts d = Some d'"
proof -
  obtain m d1 where 1: "construct_members R d = Some (m, d1)" "finite_device d1"
    using returns_members [OF assms] by (auto simp: returns_def)
  obtain p d2 where 2: "construct_body R m n depth d1 = Some (p, d2)" "finite_device d2"
    using returns_body [OF assms(1) 1(2), of m n depth] by (auto simp: returns_def)
  obtain p' d3 where "run_device R has_cuml m n ts p d2 = Some (p', d3)"
    using returns_run [OF assms(1) 2(2), of has_cuml m n ts p] by (auto simp: returns_def)
  then show ?thesis using 1(1) 2(1) by (simp add: pipeline_life_def)
qed

text \<open>
  (C14) The pipeline leaks nothing and frees nothing twice: if the program gets through the construction of a
  pipeline, any ticks and its destruction, then afterwards exactly the resources are alive that were
  alive before, no resource was released that was not alive, and no work was submitted to a stream
  that had been destroyed; and it gets through if no call of the runtime fails.
\<close>

theorem pipeline_lifetime:
  assumes "fresh_runtime R" and "finite (dom (dv_live d))" and "dv_faults d = 0"
  shows "(\<forall>d'. pipeline_life R has_cuml n depth ts d = Some d' \<longrightarrow> dv_live d' = dv_live d \<and> dv_faults d' = 0) \<and>
    (generous_runtime R \<longrightarrow> (\<exists>d'. pipeline_life R has_cuml n depth ts d = Some d'))"
  using life_clean [OF assms] life_returns [of R d] assms(2) by (auto simp: finite_device_def)

text \<open>A runtime that numbers its resources above all that are alive.\<close>

definition numbering_runtime :: cuda_runtime where
  "numbering_runtime = \<lparr>rt_create = \<lambda>live kind bytes i.
     if finite (dom live) then Some (Suc (Max (insert 0 (snd ` dom live)))) else None, rt_check = \<lambda>_. True\<rparr>"

definition idle_device :: device where
  "idle_device = \<lparr>dv_live = Map.empty, dv_calls = 0, dv_faults = 0\<rparr>"

definition full_tick :: tick_device where
  "full_tick = \<lparr>td_new_generation = True, td_n_edges = 6, td_lwork = 32, td_floer_calls = 11, td_refit = True\<rparr>"

lemma numbering_ok: "fresh_runtime numbering_runtime" "generous_runtime numbering_runtime"
proof -
  have "live (kind, Suc (Max (insert 0 (snd ` dom live)))) = None" if "finite (dom live)" for live :: "resource \<rightharpoonup> u64" and kind
  proof (rule ccontr)
    assume "live (kind, Suc (Max (insert 0 (snd ` dom live)))) \<noteq> None"
    then have "Suc (Max (insert 0 (snd ` dom live))) \<in> insert 0 (snd ` dom live)" by force
    then have "Suc (Max (insert 0 (snd ` dom live))) \<le> Max (insert 0 (snd ` dom live))"
      using that by (intro Max_ge) auto
    then show False by simp
  qed
  then show "fresh_runtime numbering_runtime" by (simp add: fresh_runtime_def numbering_runtime_def)
  show "generous_runtime numbering_runtime" by (simp add: generous_runtime_def numbering_runtime_def)
qed

lemma idle_ok: "finite (dom (dv_live idle_device))" "dv_faults idle_device = 0" "finite_device idle_device"
  by (simp_all add: idle_device_def finite_device_def)

theorem pipeline_lifetime_witness:
  "\<exists>d'. pipeline_life numbering_runtime True 4 1 [full_tick, full_tick] idle_device = Some d' \<and>
     dv_live d' = Map.empty \<and> dv_faults d' = 0"
  using pipeline_lifetime [OF numbering_ok(1) idle_ok(1,2), of True 4 1 "[full_tick, full_tick]"] numbering_ok(2)
  by (auto simp: idle_device_def)

theorem ticks_bounded_memory_witness:
  "\<exists>m d1 p d2 p' d3. construct_members numbering_runtime idle_device = Some (m, d1) \<and>
     construct_body numbering_runtime m 4 1 d1 = Some (p, d2) \<and>
     run_device numbering_runtime True m 4 [full_tick, full_tick, full_tick] p d2 = Some (p', d3) \<and>
     card (dom (dv_live d3)) \<le> card (dom (dv_live d2)) + 5"
proof -
  obtain m d1 where 1: "construct_members numbering_runtime idle_device = Some (m, d1)" "finite_device d1"
    using returns_members [OF numbering_ok(2) idle_ok(3)] by (auto simp: returns_def)
  obtain p d2 where 2: "construct_body numbering_runtime m 4 1 d1 = Some (p, d2)" "finite_device d2"
    using returns_body [OF numbering_ok(2) 1(2), of m 4 1] by (auto simp: returns_def)
  obtain p' d3 where 3: "run_device numbering_runtime True m 4 [full_tick, full_tick, full_tick] p d2 = Some (p', d3)"
    using returns_run [OF numbering_ok(2) 2(2), of True m 4 "[full_tick, full_tick, full_tick]" p] by (auto simp: returns_def)
  from ticks_bounded_memory [OF numbering_ok(1) idle_ok(1,2) 1(1) 2(1) 3] 1 2 3 show ?thesis by blast
qed

lemma numbering_not_null: "cuda_create numbering_runtime kind bytes d = Some (p, d') \<Longrightarrow> p \<noteq> 0"
  by (auto simp: cuda_create_def try_create_def numbering_runtime_def split: if_splits option.splits prod.splits)

theorem free_all_not_idempotent_witness:
  "\<exists>B d1 B' d2. floer_allocate numbering_runtime 256 idle_device = Some (B, d1) \<and> floer_free_all B d1 = (B', d2) \<and>
     dv_live d2 = Map.empty \<and> dv_faults (FloerWorkspace_dtor B' d2) = 4"
proof -
  obtain B d1 where 1: "floer_allocate numbering_runtime 256 idle_device = Some (B, d1)"
    using returns_floer [OF numbering_ok(2) idle_ok(3), of 256] by (auto simp: returns_def)
  then have nz: "0 \<notin> {fb_d_hessian B, fb_d_boundary_matrix B, fb_d_n_criticals B, fb_d_n_instantons B}"
    by (auto simp: floer_allocate_def bind_eq_Some_conv Let_def dest: numbering_not_null)
  obtain B' d2 where 2: "floer_free_all B d1 = (B', d2)" by fastforce
  from free_all_not_idempotent [OF numbering_ok(1) idle_ok(1,2) 1 nz 2] 1 2 show ?thesis by (simp add: idle_device_def)
qed

end
