(* ===== verification/Smoke_Test.thy ===== *)
theory Smoke_Test
  imports Device_Buffers Topology_Clusterer Text_Output
begin

text \<open>
  The smoke test of the clusterer (\<open>smoke_test_clustering.cu\<close>): its synthetic samples, the device resources it
  creates and releases, the fit, its report and its exit code. The random noise, the clustering library, the
  CUDA runtime and the elapsed time are arguments.
\<close>

section \<open>Samples\<close>

definition kFeatures :: nat where "kFeatures = 4"
definition kPerBlob :: nat where "kPerBlob = 150"
definition kBlobs :: nat where "kBlobs = 3"
definition kSamples :: nat where "kSamples = kPerBlob * kBlobs"

definition blob_centers :: "flt list list" where
  "blob_centers = [[0, 0, 0, 0], [5, 5, 5, 5], [-5, 5, -5, 5]]"

text \<open>The draws of the generator are used in the order of the loops.\<close>

definition smoke_features :: "(nat \<Rightarrow> flt) \<Rightarrow> flt list" where
  "smoke_features noise = concat (map (\<lambda>b. concat (map (\<lambda>i.
     map (\<lambda>f. blob_centers ! b ! f + noise ((b * kPerBlob + i) * kFeatures + f)) [0..<kFeatures]) [0..<kPerBlob]))
     [0..<kBlobs])"

fun feature_rows :: "nat \<Rightarrow> nat \<Rightarrow> flt list \<Rightarrow> flt list list" where
  "feature_rows 0 k xs = []"
| "feature_rows (Suc n) k xs = take k xs # feature_rows n k (drop k xs)"

definition smoke_config :: ClusteringConfig where
  "smoke_config = default_clustering\<lparr>cc_eps := 1, cc_min_samples := 5\<rparr>"

section \<open>The program\<close>

record smoke_exit =
  sm_code :: nat
  sm_stdout :: "string list"
  sm_stderr :: "string list"

definition smoke_report :: "TopologyClusterer \<Rightarrow> string list" where
  "smoke_report c =
     (let r = tc_result c; m = tc_metrics c
      in [''=== TopologyClusterer::fit() smoke test ==='',
        ''n_samples:        '' @ to_string (cr_n_samples r) @ '' (expected '' @ to_string kSamples @ '')'',
        ''n_clusters found: '' @ to_string (nat (cr_n_clusters r)) @ '' (expected '' @ to_string kBlobs @ '')'',
        ''n_noise:          '' @ to_string (cr_n_noise r),
        ''fit() calls:      '' @ to_string (unat (cm_n_fit_calls m)),
        ''last fit() time:  '' @ decimals 3 (real (unat (cm_total_fit_ns m)) / 10 ^ 6) @ '' ms''])"

definition smoke_ok :: "TopologyClusterer \<Rightarrow> bool" where
  "smoke_ok c \<longleftrightarrow> cr_n_samples (tc_result c) = kSamples \<and> cr_n_clusters (tc_result c) = int kBlobs \<and>
     cr_n_noise (tc_result c) < kSamples div 10"

definition smoke_fails :: "string \<Rightarrow> smoke_exit" where
  "smoke_fails msg = \<lparr>sm_code = 1, sm_stdout = [], sm_stderr = [msg]\<rparr>"

text \<open>The inner block, whose end destroys the clusterer; \<open>fit\<close> does nothing for a null pointer.\<close>

definition smoke_block ::
    "cuda_runtime \<Rightarrow> bool \<Rightarrow> dbscan \<Rightarrow> u64 \<Rightarrow> flt list \<Rightarrow> nat \<Rightarrow> nat \<Rightarrow> device
     \<Rightarrow> (TopologyClusterer \<times> device) option" where
  "smoke_block R has_cuml dbscan elapsed_ns features stream d_features d =
     (let fits = has_cuml \<and> d_features \<noteq> 0;
          c = fit fits dbscan elapsed_ns (feature_rows kSamples kFeatures features) kSamples kFeatures
                (new_clusterer smoke_config)
      in do {
        (labels, d) \<leftarrow> fit_device R fits stream kSamples kFeatures \<lparr>la_labels = 0, la_capacity = 0\<rparr> d;
        Some (c, TopologyClusterer_dtor stream labels d)
      })"

definition smoke_main ::
    "cuda_runtime \<Rightarrow> bool \<Rightarrow> dbscan \<Rightarrow> u64 \<Rightarrow> (nat \<Rightarrow> flt) \<Rightarrow> device \<Rightarrow> (smoke_exit \<times> device) option" where
  "smoke_main R has_cuml dbscan elapsed_ns noise d =
     (let features = smoke_features noise; bytes = word_of_nat (length features) * sizeof_float
      in case try_create R CudaStream 0 d of
        (None, d) \<Rightarrow> Some (smoke_fails ''cudaStreamCreate failed'', d)
      | (Some stream, d) \<Rightarrow>
          (case try_create R DeviceMem bytes (use_stream stream d) of
             (None, d) \<Rightarrow> Some (smoke_fails ''cudaMallocAsync failed'', d)
           | (Some d_features, d) \<Rightarrow>
               (case CUDA_CHECK R (use_stream stream d) of
                  None \<Rightarrow> Some (smoke_fails ''cudaMemcpyAsync H2D failed'', d)
                | Some d \<Rightarrow> do {
                    (c, d) \<leftarrow> smoke_block R has_cuml dbscan elapsed_ns features stream d_features (use_stream stream d);
                    let d = device_free d_features (use_stream stream d);
                    let d = destroy CudaStream stream (use_stream stream d);
                    Some (if smoke_ok c
                      then \<lparr>sm_code = 0, sm_stdout = smoke_report c @ [''SMOKE TEST PASSED.''], sm_stderr = []\<rparr>
                      else \<lparr>sm_code = 1, sm_stdout = smoke_report c,
                        sm_stderr = [''SMOKE TEST FAILED: cluster/noise counts outside expected range.'']\<rparr>, d)
                  })))"

section \<open>What a pass shows\<close>

lemma length_concat_map: "(\<And>x. length (f x) = n) \<Longrightarrow> length (concat (map f xs)) = length xs * n"
  by (induction xs) simp_all

lemma smoke_features_length: "length (smoke_features noise) = kSamples * kFeatures"
proof -
  have "length (smoke_features noise) = length [0..<kBlobs] * (length [0..<kPerBlob] * kFeatures)"
    unfolding smoke_features_def by (intro length_concat_map) simp
  then show ?thesis by (simp add: kSamples_def)
qed

lemma feature_rows_shape:
  "length (feature_rows n k xs) = n"
  "length xs = n * k \<Longrightarrow> row \<in> set (feature_rows n k xs) \<Longrightarrow> length row = k"
proof -
  show "length (feature_rows n k xs) = n" by (induction n arbitrary: xs) simp_all
  show "length xs = n * k \<Longrightarrow> row \<in> set (feature_rows n k xs) \<Longrightarrow> length row = k"
  proof (induction n arbitrary: xs)
    case (Suc n)
    then show ?case using Suc.IH [of "drop k xs"] by auto
  qed simp
qed

text \<open>
  The clusterer dies before its stream, so its label buffer is freed on a live one: the block leaves what it
  found.
\<close>

lemma smoke_block_clean:
  assumes "smoke_block R has_cuml dbscan t features stream d_features d = Some (c, d')" and own: "owns base M d"
    and fresh: "fresh_runtime R" and stream: "stream_alive base stream"
  shows "owns base M d'"
proof -
  obtain la d1 where 1: "fit_device R (has_cuml \<and> d_features \<noteq> 0) stream kSamples kFeatures \<lparr>la_labels = 0, la_capacity = 0\<rparr> d = Some (la, d1)"
    and d': "d' = TopologyClusterer_dtor stream la d1"
    using assms(1) by (auto simp: smoke_block_def bind_eq_Some_conv Let_def)
  have "owns base (label_owned \<lparr>la_labels = 0, la_capacity = 0\<rparr> + M) d"
    using own by (simp add: label_owned_def owns_def)
  from label_freed [OF owns_fit [OF 1 this fresh stream] stream] show ?thesis by (simp add: d')
qed

lemma smoke_block_result:
  assumes "smoke_block R has_cuml dbscan t features stream d_features d = Some (c, d')" and ok: "smoke_ok c"
  shows "has_cuml \<and> (\<exists>k < 45. scan_labels (dbscan smoke_config (feature_rows 450 4 features)) (-1, 0) = (2, k))"
proof -
  let ?rows = "feature_rows kSamples kFeatures features" and ?new = "new_clusterer smoke_config"
  have n: "kSamples = 450" "kFeatures = 4" "kBlobs = 3"
    by (simp_all add: kSamples_def kPerBlob_def kBlobs_def kFeatures_def)
  have c: "c = fit (has_cuml \<and> d_features \<noteq> 0) dbscan t ?rows kSamples kFeatures ?new"
    using assms(1) by (auto simp: smoke_block_def bind_eq_Some_conv Let_def)
  have "\<not> smoke_ok ?new" by (simp add: smoke_ok_def new_clusterer_def n)
  then have fits: "has_cuml \<and> d_features \<noteq> 0" using ok fit_nothing unfolding c by metis
  have cfg: "tc_cfg ?new = smoke_config" "take kSamples ?rows = ?rows"
    by (simp add: new_clusterer_def) (simp add: feature_rows_shape)
  obtain mx k where s: "scan_labels (dbscan smoke_config ?rows) (-1, 0) = (mx, k)" by fastforce
  then have "tc_result (fit True dbscan t ?rows kSamples kFeatures ?new) =
      \<lparr>cr_labels = dbscan smoke_config ?rows, cr_n_clusters = mx + 1, cr_n_noise = k, cr_n_samples = kSamples\<rparr>"
    using fit_result [of dbscan ?new kSamples ?rows mx k kFeatures t] unfolding cfg by (simp add: n)
  then have "mx = 2 \<and> k < 45" using ok fits unfolding c smoke_ok_def by (simp add: n)
  then show ?thesis using s fits unfolding n by blast
qed

text \<open>
  A run that prints its report, whether it passes or fails, gives all its resources back; a run that
  passes was built with the library, and the library found labels 0 to 2 and fewer than 45 outliers.
\<close>

lemma smoke_test_sound:
  assumes "fresh_runtime R" and "finite (dom (dv_live d))" and "dv_faults d = 0"
    and "smoke_main R has_cuml dbscan t noise d = Some (r, d')" and "sm_stdout r \<noteq> []"
  shows "dv_live d' = dv_live d \<and> dv_faults d' = 0 \<and> (sm_code r = 0 \<longrightarrow> has_cuml \<and>
    (\<exists>k < 45. scan_labels (dbscan smoke_config (feature_rows 450 4 (smoke_features noise))) (-1, 0) = (2, k)))"
proof -
  let ?bytes = "word_of_nat (length (smoke_features noise)) * sizeof_float"
  obtain s d1 p d2 d3 c d4 where e: "try_create R CudaStream 0 d = (Some s, d1)"
    "try_create R DeviceMem ?bytes (use_stream s d1) = (Some p, d2)" "CUDA_CHECK R (use_stream s d2) = Some d3"
    and block: "smoke_block R has_cuml dbscan t (smoke_features noise) s p (use_stream s d3) = Some (c, d4)"
    and d': "d' = destroy CudaStream s (use_stream s (device_free p (use_stream s d4)))"
    and r: "sm_code r = 0 \<longrightarrow> smoke_ok c"
    using assms(4,5)
    by (auto simp: smoke_main_def smoke_fails_def bind_eq_Some_conv Let_def split: prod.splits option.splits if_splits)
  have nz: "s \<noteq> 0" using created_not_null [of R CudaStream 0 d s d1] e(1) assms(1) by (simp add: cuda_create_def)
  have "owns (dv_live d) ({#(CudaStream, s)#} + {#}) d1"
    using owns_created [OF assms(1) owns_start [OF assms(2,3)] e(1)] by simp
  then obtain base where b: "owns base {#} d1" "(CudaStream, s) \<in> dom base"
    and return: "\<And>N d'. owns base N d' \<Longrightarrow> owns (dv_live d) ({#(CudaStream, s)#} + N) d'"
    by (rule owns_absorb) (use nz in auto)
  have alive: "stream_alive base s" using b(2) by (simp add: stream_alive_def)
  have used: "use_stream s x = x" if "owns base M x" for x M using use_stream [OF that alive] .
  have o2: "owns base {#(DeviceMem, p)#} d2" using owns_created [OF assms(1) b(1)] e(2) used [OF b(1)] by simp
  have o3: "owns base {#(DeviceMem, p)#} d3" using owns_check_on [OF e(3) o2 alive] .
  have o4: "owns base {#(DeviceMem, p)#} d4" using smoke_block_clean [OF block _ assms(1) alive] used [OF o3] o3 by simp
  then have o5: "owns base {#} (device_free p (use_stream s d4))" by (simp add: used [OF o4] frees)
  then have "owns (dv_live d) {#} d'"
    unfolding d' used [OF o5] using return [OF o5] nz by (intro owns_destroyed) simp_all
  then show ?thesis using owns_end smoke_block_result [OF block] r by blast
qed

text \<open>Without the library the test fails, and says so.\<close>

lemma smoke_test_needs_cuml:
  assumes "smoke_main R False dbscan t noise d = Some (r, d')"
  shows "sm_code r = 1 \<and> sm_stderr r \<noteq> []"
  using assms
  by (auto simp: smoke_main_def smoke_fails_def bind_eq_Some_conv Let_def
      split: prod.splits option.splits if_splits dest!: smoke_block_result)

end
