(* ===== verification/Spec2Isabelle.thy ===== *)
theory Spec2Isabelle
  imports Execution_Risk Ring_Buffer Lob_Mirror Latency_Trace Backtest_Stats Signal_Router Csv_Replay
    Binance_Gateway User_Data_Feed Binance_Feed Floer_Homology Cuda_Pipeline Backtest_Run Main_Live Ring_Concurrency
    Signal_Publication Text_Output Device_Lifetime Smoke_Test
begin

text \<open>
  A verification library for the holographic market engine, the C++ and CUDA sources under
  \<open>src/engine/\<close>. File names below are relative to that directory.

  \<^bold>\<open>The program.\<close> A market data feed (\<open>net/binance_feed.hpp\<close>) or the replay of a CSV file
  (\<open>net/csv_replay.hpp\<close>) pushes updates of prices into a lock-free ring (\<open>core/lockfree_ring_buffer.hpp\<close>). A
  consumer pops them into the limit order book (\<open>core/lob_core.hpp\<close>), whose arrays come from a bump
  allocator (\<open>core/memory_arena.hpp\<close>). The pipeline thread (\<open>math/cuda_pipeline.cu\<close>) copies the book under a
  sequence lock (\<open>math/gpu_lob_mirror.cu\<close>), builds the graph of the instruments (\<open>math/lobpcg_solver.cu\<close>),
  decomposes the flow on its edges (\<open>math/hodge_kernel.cu\<close>), runs a homology pass (\<open>math/floer_homology.cu\<close>),
  records a signal, and clusters the recent signals (\<open>ai/cuml_clustering.cu\<close>). The router
  (\<open>net/signal_router.hpp\<close>) picks vertex-disjoint edges of the flow. The live program (\<open>app/main_live.cpp\<close>) turns
  them into pairs of orders for the execution engine (\<open>net/execution_engine.hpp\<close>), which registers them in
  the order store (\<open>net/oms_core.hpp\<close>), sends them through the gateway (\<open>net/binance_gateway.hpp\<close>) and follows
  them with the updates of the user data feed (\<open>net/user_data_feed.hpp\<close>). The backtest
  (\<open>app/main_backtest.cpp\<close>) feeds the same pipeline from a file and books a return for each edge.

  \<^bold>\<open>The theories.\<close> Definitions carry the names of the source, with a suffix or prefix where HOL has the
  name already. A class is a \<^theory_text>\<open>record\<close> of its members, a method a function from the state to the result and
  the new state, an exception or null pointer a \<open>None\<close> or an outcome of a datatype.

  \<^item> \<open>Prelude\<close>: machine types, words, decimal text, and the interfaces \<open>refined_machine\<close> and \<open>keyed_store\<close>
    (a step function whose effect on a key depends on the operations of that key only).
  \<^item> \<open>Memory_Arena\<close>, \<open>Ring_Buffer\<close>, \<open>Lob_Core\<close>, \<open>Latency_Trace\<close>, \<open>Backtest_Stats\<close>: the files of \<open>core/\<close>. The arena
    is an interpretation of \<open>region_allocator\<close> (regions are disjoint and aligned), the dynamic ring one
    of \<open>bounded_fifo\<close> (a queue of bounded length), the book one of \<open>keyed_store\<close> (a level holds its last
    valid update). \<open>Ring_Concurrency\<close> splits push and pop into their loads and stores and shows every
    interleaving equal to a run of whole calls.
  \<^item> \<open>Lob_Mirror\<close>: the reader of the sequence lock against a concurrent writer.
  \<^item> \<open>Oms_Core\<close>, \<open>Pnl_Book\<close>, \<open>Execution_Engine\<close>, \<open>Execution_Risk\<close>: orders, positions, the coroutines of the
    engine, and what they guarantee about exposure. The store and the book of positions are
    \<open>keyed_store\<close>s, the positions also a \<open>cash_ledger\<close> (marked profit is the cash flow). \<open>engine_invariant\<close>
    lifts any property kept by the primitive operations to every entry point; its two interpretations
    give the halt flag that never clears and the structure of the state.
  \<^item> \<open>Signal_Router\<close>, \<open>Csv_Replay\<close>, \<open>Binance_Gateway\<close>, \<open>User_Data_Feed\<close>, \<open>Binance_Feed\<close>, \<open>Text_Output\<close>: the other
    files of \<open>net/\<close>, and the text of signatures and durations.
  \<^item> \<open>Gpu_Kernels\<close>, \<open>Market_Graph\<close>, \<open>Hodge_Kernel\<close>, \<open>Hodge_Decomposition\<close>, \<open>Floer_Rank\<close>, \<open>Floer_Homology\<close>,
    \<open>Topology_Clusterer\<close>, \<open>Cuda_Pipeline\<close>: the kernels and the host code of one tick. \<open>Hodge_Decomposition\<close>
    interprets \<open>incidence\<close> on the graph that the code builds, the complete graph of the instruments.
    \<open>Signal_Publication\<close> lets a reader follow the pipeline thread access by access.
  \<^item> \<open>Device_Runtime\<close>, \<open>Device_Buffers\<close>, \<open>Device_Lifetime\<close>: the wrappers of \<open>math/cuda_utils.cuh\<close>, the owners of
    device memory and the life of the pipeline object. A \<open>device\<close> is the set of the resources that are alive;
    \<open>owns\<close> says that beyond those of the start exactly a given multiset is, and every operation has a rule for it.
    \<open>Smoke_Test\<close> is the stand-alone test of the clusterer (\<open>smoke_test_clustering.cu\<close>, beside \<open>engine/\<close>).
  \<^item> \<open>Signal_Graph\<close>, \<open>Backtest_Pnl\<close>, \<open>Backtest_Run\<close>, \<open>Main_Live\<close>: the two programs, and what they compose.

  \<^bold>\<open>What is shown.\<close>
  \<^item> Data structures implement what their interface promises, over any sequence of operations: lookups
    of the order store, levels of the book, the ring as a queue, disjoint regions, percentiles.
  \<^item> Concurrency: the ring is linearizable, a book accepted by the sequence lock is not torn, a signal
    is read whole, a finished backtest does not depend on the interleaving of its two threads.
    The topology beside the signal can be torn.
  \<^item> The engine: the circuit breaker trips exactly on five rejections in a row, a halted engine sends nothing,
    which signals are admitted and what they register, the ceiling on open orders (which hedges ignore),
    the hedge of a pair that filled in part, and the exposure it leaves when the partner of an unfilled
    leg has filled.
  \<^item> The exchange side: no request is lost or overtaken, a rejection reaches its order unless the
    connection has failed since the request, events and reconciliation update exactly the orders they
    name, a depth message shows in the book.
  \<^item> The mathematics: the rank over the field of two elements is correct, the decomposition has no harmonic
    part on the complete graph and reports gradients in the curl signal, the boundary ranks of the
    homology pass are always zero.
  \<^item> The programs: every batch of a file gives a signal, the live loop orders disjoint pairs of
    opposite maker orders, a backtest's counters and sums agree with its returns.
  \<^item> Resources: construction, any number of ticks and destruction of the pipeline leave exactly the streams,
    events, handles and buffers alive that were alive before, nothing is released twice, no work goes to a
    destroyed stream, and at no time more than five resources exist beyond those of the constructor once a
    tick has ended. \<open>FloerWorkspace::free_all\<close> must not be called by hand. A passing smoke test gives all its
    resources back.

  \<^bold>\<open>Numbers.\<close> Unsigned integers are words of their width and wrap. \<open>float\<close> and \<open>double\<close> are the reals: no
  rounding, no infinities. Theorems that divide ask for a denominator that is not zero where the code
  does not test it. Clock values and exchange identifiers of 64 signed bits are integers.

  \<^bold>\<open>Loops.\<close> Loops over data are structural or have a measure (the rest of the text in \<open>Csv_Replay\<close>, the
  columns in \<open>Floer_Rank\<close>, the remaining attempts in \<open>Lob_Mirror\<close>, whose bound \<open>k_max_seqlock_retries\<close> is
  that of the code). No fuel is used. The spinning calls \<open>push_blocking\<close> and \<open>pop_blocking\<close> and the drain
  \<open>drain_ring\<close> may run for ever and are partial functions; the threads that never end
  are step relations or lists of what each round observes.

  \<^bold>\<open>Arguments of the model.\<close> Code outside the repository: the JSON parsers, the digest of OpenSSL, the
  eigensolver of cuSOLVER, the clustering of cuML, the CUDA runtime (it answers creations and checked calls;
  its law \<open>fresh_runtime\<close> is that a new resource is none of those alive), \<open>std::stod\<close>. Also what one thread
  cannot know of the others: clocks, the order of the threads of a kernel, the result of a read that races,
  the outcome of a connection. The laws asked of them are premises of the theorems, each with an instance.

  \<^bold>\<open>Not modelled.\<close> The sockets, TLS and HTTP calls (they are events and arguments), thread creation
  and shutdown, sleeps, the printing of most reports and logs, and the file of the metrics. Of the CUDA calls the
  creations, releases, checks and the streams they name are modelled; copies take effect when the
  stream is synchronised, the time between events and the device queries, which nothing calls, are left out.
  Memory is sequentially consistent: that the acquire and release annotations suffice for it is not shown. The Python research code, build files
  and service definitions are outside the C++ program.
\<close>

end
